(* ===== verification/Prelude.thy ===== *)
theory Prelude
  imports Main "HOL-Library.Word" "HOL-Library.Monad_Syntax"
begin

text \<open>
  Shared vocabulary of the development: the machine integers of the kernel (a 64-bit AMD64 target,
  \<^verbatim>\<open>kernel/x86_64-unknown-none-gnu.json\<close>), the integer methods of Rust's core library the
  sources call, and the arithmetic with overflow checks that the \<^verbatim>\<open>dev\<close> profile of
  \<^verbatim>\<open>Cargo.toml\<close> compiles to.

  A computation that can panic has an \<open>option\<close> type. The kernel's panic handler ends in
  \<^verbatim>\<open>hlt_loop\<close>, so \<open>None\<close> reads: control does not come back.
\<close>

unbundle bit_operations_syntax

section \<open>Types\<close>

type_synonym u8 = "8 word"
type_synonym u16 = "16 word"
type_synonym u32 = "32 word"
type_synonym u64 = "64 word"
type_synonym usize = "64 word"
type_synonym isize = "64 word"
type_synonym ptr = "64 word"

text \<open>Collections of rewrite rules: facts on machine words, and facts on the model's bit fields.\<close>

named_theorems word_facts \<open>conversions between words and integers\<close>
named_theorems field_simps_bits \<open>reading and writing bit fields\<close>

section \<open>Checked arithmetic\<close>

text \<open>\<open>+\<close>, \<open>-\<close> and \<open>*\<close> on unsigned integers panic on overflow.\<close>

definition checked_add :: "'a::len word \<Rightarrow> 'a word \<Rightarrow> 'a word option" where
  "checked_add a b = (if unat a + unat b < 2 ^ LENGTH('a) then Some (a + b) else None)"

definition checked_sub :: "'a::len word \<Rightarrow> 'a word \<Rightarrow> 'a word option" where
  "checked_sub a b = (if b \<le> a then Some (a - b) else None)"

definition checked_mul :: "'a::len word \<Rightarrow> 'a word \<Rightarrow> 'a word option" where
  "checked_mul a b = (if unat a * unat b < 2 ^ LENGTH('a) then Some (a * b) else None)"

text \<open>The same operations on signed integers (two's complement, read by \<open>sint\<close>).\<close>

definition checked_sadd :: "'a::len word \<Rightarrow> 'a word \<Rightarrow> 'a word option" where
  "checked_sadd a b =
     (let r = sint a + sint b
      in if - (2 ^ (LENGTH('a) - 1)) \<le> r \<and> r < 2 ^ (LENGTH('a) - 1) then Some (a + b) else None)"

definition checked_ssub :: "'a::len word \<Rightarrow> 'a word \<Rightarrow> 'a word option" where
  "checked_ssub a b =
     (let r = sint a - sint b
      in if - (2 ^ (LENGTH('a) - 1)) \<le> r \<and> r < 2 ^ (LENGTH('a) - 1) then Some (a - b) else None)"

text \<open>A shift panics when the amount reaches the width; bits shifted out are lost silently.\<close>

definition checked_shl :: "'a::len word \<Rightarrow> nat \<Rightarrow> 'a word option" where
  "checked_shl a n = (if n < LENGTH('a) then Some (push_bit n a) else None)"

definition checked_shr :: "'a::len word \<Rightarrow> nat \<Rightarrow> 'a word option" where
  "checked_shr a n = (if n < LENGTH('a) then Some (drop_bit n a) else None)"

text \<open>\<open>assert!\<close> panics when its condition fails.\<close>

definition rust_assert :: "bool \<Rightarrow> unit option" where
  "rust_assert b = (if b then Some () else None)"

lemma rust_assert_simps [simp]:
  "rust_assert True = Some ()" "rust_assert False = None"
  by (simp_all add: rust_assert_def)

lemma rust_assert_eq_Some [simp]: "rust_assert b = Some u \<longleftrightarrow> b"
  by (simp add: rust_assert_def)

lemma checked_add_Some: "unat a + unat b < 2 ^ LENGTH('a) \<Longrightarrow> checked_add a b = Some (a + b)"
  for a :: "'a::len word"
  by (simp add: checked_add_def)

lemma checked_sub_Some: "b \<le> a \<Longrightarrow> checked_sub a b = Some (a - b)"
  by (simp add: checked_sub_def)

lemma checked_sadd_Some:
  "- (2 ^ (LENGTH('a) - 1)) \<le> sint a + sint b \<Longrightarrow> sint a + sint b < 2 ^ (LENGTH('a) - 1)
   \<Longrightarrow> checked_sadd a b = Some (a + b)"
  for a :: "'a::len word"
  by (simp add: checked_sadd_def)

lemma checked_ssub_Some:
  "- (2 ^ (LENGTH('a) - 1)) \<le> sint a - sint b \<Longrightarrow> sint a - sint b < 2 ^ (LENGTH('a) - 1)
   \<Longrightarrow> checked_ssub a b = Some (a - b)"
  for a :: "'a::len word"
  by (simp add: checked_ssub_def)

section \<open>Integer methods of the core library\<close>

text \<open>The number of bits needed to write \<open>n\<close>.\<close>

fun bit_len :: "nat \<Rightarrow> nat" where
  "bit_len n = (if n = 0 then 0 else Suc (bit_len (n div 2)))"

declare bit_len.simps [simp del]

lemma bit_len_0 [simp]: "bit_len 0 = 0"
  by (simp add: bit_len.simps)

lemma bit_len_eq: "2 ^ k \<le> n \<Longrightarrow> n < 2 ^ Suc k \<Longrightarrow> bit_len n = Suc k"
proof (induction k arbitrary: n)
  case 0
  then show ?case by (simp add: bit_len.simps)
next
  case (Suc k)
  have "bit_len (n div 2) = Suc k"
    by (rule Suc.IH) (use Suc.prems in auto)
  moreover have "n \<noteq> 0" using Suc.prems(1) by (metis less_le_not_le not_numeral_le_zero power_not_zero zero_le zero_neq_numeral le_zero_eq)
  ultimately show ?case by (simp add: bit_len.simps [of n])
qed

lemma bit_len_pow2 [simp]: "bit_len (2 ^ k) = Suc k"
  by (rule bit_len_eq) simp_all

lemma bit_len_bounds: "0 < n \<Longrightarrow> 2 ^ (bit_len n - 1) \<le> n \<and> n < 2 ^ bit_len n"
proof (induction n rule: bit_len.induct)
  case (1 n)
  show ?case
  proof (cases "n = 1")
    case True
    then show ?thesis by (simp add: bit_len.simps)
  next
    case False
    with 1 have IH: "2 ^ (bit_len (n div 2) - 1) \<le> n div 2 \<and> n div 2 < 2 ^ bit_len (n div 2)"
      by auto
    have pos: "0 < bit_len (n div 2)"
      using False "1.prems" by (subst bit_len.simps) auto
    have eq: "bit_len n = Suc (bit_len (n div 2))"
      using "1.prems" by (subst bit_len.simps) simp
    obtain j where j: "bit_len (n div 2) = Suc j" using pos by (cases "bit_len (n div 2)") auto
    show ?thesis using IH eq j by auto
  qed
qed

lemma bit_len_pos: "0 < n \<Longrightarrow> 0 < bit_len n"
  by (subst bit_len.simps) simp

lemma bit_len_le: "n < 2 ^ k \<Longrightarrow> bit_len n \<le> k"
proof (rule ccontr)
  assume n: "n < 2 ^ k" and "\<not> bit_len n \<le> k"
  then have "0 < n" by (cases "n = 0") auto
  with bit_len_bounds have "2 ^ (bit_len n - 1) \<le> n" by blast
  moreover have "(2::nat) ^ k \<le> 2 ^ (bit_len n - 1)"
    using \<open>\<not> bit_len n \<le> k\<close> by (intro power_increasing) auto
  ultimately show False using n by linarith
qed

text \<open>\<open>leading_zeros\<close>, \<open>trailing_zeros\<close> and the power-of-two methods.\<close>

definition leading_zeros :: "'a::len word \<Rightarrow> nat" where
  "leading_zeros w = LENGTH('a) - bit_len (unat w)"

fun ctz :: "nat \<Rightarrow> nat" where
  "ctz n = (if n = 0 \<or> odd n then 0 else Suc (ctz (n div 2)))"

declare ctz.simps [simp del]

definition trailing_zeros :: "'a::len word \<Rightarrow> nat" where
  "trailing_zeros w = (if w = 0 then LENGTH('a) else ctz (unat w))"

definition is_power_of_two :: "'a::len word \<Rightarrow> bool" where
  "is_power_of_two w \<longleftrightarrow> w \<noteq> 0 \<and> w AND (w - 1) = 0"

text \<open>\<open>log2\<close> (the feature \<open>int_log\<close>) panics on zero.\<close>

definition int_log2 :: "'a::len word \<Rightarrow> nat option" where
  "int_log2 w = (if w = 0 then None else Some (bit_len (unat w) - 1))"

text \<open>\<open>next_power_of_two\<close>: the smallest power of two not below the argument.\<close>

definition next_power_of_two :: "'a::len word \<Rightarrow> 'a word option" where
  "next_power_of_two w =
     (if w = 0 then Some 1 else checked_shl 1 (bit_len (unat w - 1)))"

lemma ctz_pow2_mult: "odd q \<Longrightarrow> ctz (2 ^ k * q) = k"
proof (induction k)
  case 0
  then show ?case by (simp add: ctz.simps)
next
  case (Suc k)
  have "ctz (2 ^ Suc k * q) = Suc (ctz (2 ^ k * q))"
    using Suc.prems by (subst ctz.simps) (auto simp: odd_pos)
  with Suc show ?case by simp
qed

lemma ctz_dvd: "2 ^ ctz n dvd n"
proof (induction n rule: ctz.induct)
  case (1 n)
  show ?case
  proof (cases "n = 0 \<or> odd n")
    case True
    then show ?thesis by (simp add: ctz.simps)
  next
    case False
    with 1 have "2 ^ ctz (n div 2) dvd n div 2" by simp
    then have "2 * 2 ^ ctz (n div 2) dvd 2 * (n div 2)" by (rule mult_dvd_mono [OF dvd_refl])
    with False show ?thesis by (simp add: ctz.simps [of n])
  qed
qed

lemma ctz_odd: "0 < n \<Longrightarrow> odd (n div 2 ^ ctz n)"
proof (induction n rule: ctz.induct)
  case (1 n)
  show ?case
  proof (cases "odd n")
    case True
    then show ?thesis by (simp add: ctz.simps)
  next
    case False
    with 1 have "odd (n div 2 div 2 ^ ctz (n div 2))" by auto
    with False "1.prems" show ?thesis
      by (simp add: ctz.simps [of n] div_mult2_eq)
  qed
qed

lemma unat_pow2 [word_facts]: "k < LENGTH('a) \<Longrightarrow> unat (2 ^ k :: 'a::len word) = 2 ^ k"
  using unat_of_nat [where 'a = 'a, of "2 ^ k"] by simp

lemma leading_zeros_pow2: "k < LENGTH('a) \<Longrightarrow> leading_zeros (2 ^ k :: 'a::len word) = LENGTH('a) - Suc k"
  by (simp add: leading_zeros_def unat_pow2)

section \<open>Signed addresses\<close>

text \<open>
  The allocator compares addresses as \<open>isize\<close>; \<open>sint\<close> reads a word as the signed address.
\<close>

lemma len64: "LENGTH(64) = 64" "LENGTH(64) - 1 = 63"
  by simp_all

lemma sint_inject [simp]: "sint a = sint b \<longleftrightarrow> a = b" for a b :: "'a::len word"
  by (metis of_int_sint scast_id)

lemma sint_add_eq:
  "- (2 ^ 63) \<le> sint a + sint b \<Longrightarrow> sint a + sint b < 2 ^ 63 \<Longrightarrow> sint (a + b) = sint a + sint b" for a b :: u64
  by (simp add: sint_word_ariths signed_take_bit_int_eq_self)

lemma sint_sub_eq:
  "- (2 ^ 63) \<le> sint a - sint b \<Longrightarrow> sint a - sint b < 2 ^ 63 \<Longrightarrow> sint (a - b) = sint a - sint b" for a b :: u64
  by (simp add: sint_word_ariths signed_take_bit_int_eq_self)

lemma sint_of_int_eq: "- (2 ^ 63) \<le> r \<Longrightarrow> r < 2 ^ 63 \<Longrightarrow> sint (of_int r :: u64) = r"
  by (simp add: sint_sbintrunc' signed_take_bit_int_eq_self)

lemma sint_eq_uint: "uint w < 2 ^ 63 \<Longrightarrow> sint w = uint w" for w :: u64
  by (simp add: sint_uint signed_take_bit_int_eq_self order_trans [of _ 0])

lemma uint_eq_sint: "0 \<le> sint w \<Longrightarrow> uint w = sint w" for w :: u64
  using sint_lt [of w] by (simp add: uint_sint take_bit_int_eq_self)

lemma uint_pow2 [word_facts]: "k < LENGTH('a) \<Longrightarrow> uint (2 ^ k :: 'a::len word) = 2 ^ k"
  using unat_pow2 [of k, where 'a = 'a] by (simp only: uint_nat) simp

lemma sint_pow2 [word_facts]: "k < 63 \<Longrightarrow> sint (2 ^ k :: u64) = 2 ^ k"
  using power_strict_increasing [of k 63 "2 :: int"] by (subst sint_eq_uint) (simp_all add: uint_pow2)

lemma uint_of_nat_small: "n < 2 ^ 64 \<Longrightarrow> uint (of_nat n :: u64) = int n"
  by (simp only: uint_nat unat_of_nat) simp

lemma uint_add_eq: "uint a + uint b < 2 ^ 64 \<Longrightarrow> uint (a + b) = uint a + uint b" for a b :: u64
  by (simp add: uint_word_ariths take_bit_eq_mod)

lemma uint_sub_eq: "uint b \<le> uint a \<Longrightarrow> uint (a - b) = uint a - uint b" for a b :: u64
  using uint_minus_simple_alt [of b a] by (simp add: word_le_def)

lemma uint_drop_bit: "uint (drop_bit k w) = uint w div 2 ^ k" for w :: "'a::len word"
  using unsigned_drop_bit_eq [of k w, where 'a = int] by (simp add: take_bit_int_eq_self drop_bit_eq_div)

lemma sint_align: "k < 63 \<Longrightarrow> sint (w AND NOT (mask k)) = sint w div 2 ^ k * 2 ^ k" for w :: u64
proof -
  assume k: "k < 63"
  have "sint (w AND NOT (mask k)) = sint w AND NOT (mask k)"
    using k by (auto simp: bit_eq_iff bit_simps bit_sint_iff not_le min_def)
  also have "\<dots> = push_bit k (drop_bit k (sint w))"
    by (auto simp: bit_eq_iff bit_simps)
  finally show ?thesis by (simp add: push_bit_eq_mult drop_bit_eq_div)
qed

section \<open>Evaluation\<close>

text \<open>
  Code equations over integers, whose binary numerals the kernel evaluates quickly; natural numbers
  near \<open>2 ^ 64\<close> would be evaluated in unary.
\<close>

function bit_len_int :: "int \<Rightarrow> nat" where
  "bit_len_int n = (if n \<le> 0 then 0 else Suc (bit_len_int (n div 2)))"
  by pat_completeness auto
termination
  by (relation "measure nat") auto

function ctz_int :: "int \<Rightarrow> nat" where
  "ctz_int n = (if n \<le> 0 \<or> odd n then 0 else Suc (ctz_int (n div 2)))"
  by pat_completeness auto
termination
  by (relation "measure nat") auto

declare bit_len_int.simps [simp del] ctz_int.simps [simp del]

lemma bit_len_int_eq: "bit_len_int n = bit_len (nat n)"
proof (induction n rule: bit_len_int.induct)
  case (1 n)
  then show ?case
    by (cases "n \<le> 0") (simp_all add: bit_len_int.simps [of n] bit_len.simps [of "nat n"] nat_div_distrib)
qed

lemma ctz_int_eq: "ctz_int n = ctz (nat n)"
proof (induction n rule: ctz_int.induct)
  case (1 n)
  then show ?case
    by (cases "n \<le> 0 \<or> odd n")
      (auto simp: ctz_int.simps [of n] ctz.simps [of "nat n"] nat_div_distrib even_nat_iff)
qed

lemma unat_less_pow_int: "i < 2 ^ k \<longleftrightarrow> int i < 2 ^ k"
  by (metis of_nat_less_iff of_nat_numeral of_nat_power)

lemma checked_add_code [code]:
  "checked_add a b = (if uint a + uint b < 2 ^ LENGTH('a) then Some (a + b) else None)"
  for a b :: "'a::len word"
  by (simp only: checked_add_def unat_less_pow_int of_nat_add uint_nat)

lemma checked_mul_code [code]:
  "checked_mul a b = (if uint a * uint b < 2 ^ LENGTH('a) then Some (a * b) else None)"
  for a b :: "'a::len word"
  by (simp only: checked_mul_def unat_less_pow_int of_nat_mult uint_nat)

lemma leading_zeros_code [code]: "leading_zeros w = LENGTH('a) - bit_len_int (uint w)" for w :: "'a::len word"
  by (simp add: leading_zeros_def bit_len_int_eq)

lemma trailing_zeros_code [code]:
  "trailing_zeros w = (if w = 0 then LENGTH('a) else ctz_int (uint w))" for w :: "'a::len word"
  by (simp add: trailing_zeros_def ctz_int_eq)

lemma int_log2_code [code]: "int_log2 w = (if w = 0 then None else Some (bit_len_int (uint w) - 1))"
  by (simp add: int_log2_def bit_len_int_eq)

lemma next_power_of_two_code [code]:
  "next_power_of_two w = (if w = 0 then Some 1 else checked_shl 1 (bit_len_int (uint w - 1)))"
proof -
  have "nat (uint w - 1) = unat w - 1" using uint_nat [of w] by linarith
  then show ?thesis by (simp only: next_power_of_two_def bit_len_int_eq)
qed

end
