(* ===== verification/Utils.thy ===== *)
theory Utils
  imports Prelude
begin

text \<open>
  Model of \<^verbatim>\<open>kernel/src/utils/mod.rs\<close>: the branch-free base-2 logarithms that the
  allocator uses, with the facts that make them logarithms, and \<open>copy_slice_bits\<close>, the
  unaligned bit copy that \<open>Talloc::extend\<close> uses on its bitmap, with its specification bit by
  bit on the destinations that lie in one byte and its failures elsewhere.
\<close>

section \<open>Base-2 logarithms\<close>

text \<open>The three functions call \<open>assume(val != 0)\<close>: on zero their behaviour is undefined.\<close>

definition fast_non0_log2 :: "usize \<Rightarrow> nat" where
  "fast_non0_log2 val = 63 XOR leading_zeros val"

definition fast_non0_prev_pow2 :: "usize \<Rightarrow> usize" where
  "fast_non0_prev_pow2 val = push_bit (fast_non0_log2 val) 1"

definition fast_non0_next_pow2 :: "usize \<Rightarrow> usize option" where
  "fast_non0_next_pow2 val = checked_shl 1 (64 - leading_zeros (val - 1))"

section \<open>Copying bits between byte slices\<close>

text \<open>
  \<open>get_unchecked\<close> outside the slice is undefined behaviour; the model makes it \<open>None\<close>, so a
  result \<open>Some\<close> also says that every access was in bounds. Bit indices are natural numbers: the
  slices live in a 48-bit address space, where \<open>usize\<close> sums of bit indices do not overflow.
\<close>

definition get_byte :: "u8 list \<Rightarrow> nat \<Rightarrow> u8 option" where
  "get_byte xs i = (if i < length xs then Some (xs ! i) else None)"

definition set_byte :: "u8 list \<Rightarrow> nat \<Rightarrow> u8 \<Rightarrow> u8 list option" where
  "set_byte xs i v = (if i < length xs then Some (xs[i := v]) else None)"

text \<open>The \<open>while\<close> loop: rotate each source byte, swap in the carry, keep the new carry.\<close>

function copy_loop ::
  "u8 list \<Rightarrow> nat \<Rightarrow> nat \<Rightarrow> u8 \<Rightarrow> nat \<Rightarrow> nat \<Rightarrow> u8 \<Rightarrow> u8 list \<Rightarrow> (nat \<times> u8 \<times> u8 list) option" where
  "copy_loop src src_index_acme off cmask src_index dst_index carry dst =
     (if src_index \<le> src_index_acme then do {
        b \<leftarrow> get_byte src src_index;
        let rol = word_rotl off b;
        dst \<leftarrow> set_byte dst dst_index ((rol AND NOT cmask) OR carry);
        copy_loop src src_index_acme off cmask (src_index + 1) (dst_index + 1) (rol AND cmask) dst
      } else Some (dst_index, carry, dst))"
  by pat_completeness auto
termination
  by (relation "measure (\<lambda>(src, acme, off, cmask, i, j, c, dst). Suc acme - i)") auto

declare copy_loop.simps [simp del]

definition copy_slice_bits ::
  "u8 list \<Rightarrow> u8 list \<Rightarrow> nat \<Rightarrow> nat \<Rightarrow> nat \<Rightarrow> u8 list option" where
  "copy_slice_bits dst src dst_bit_index src_bit_index len =
     (if len = 0 then Some dst else do {
        let src_index_base = src_bit_index div 8;
        let src_index_acme = (src_bit_index + len - 1) div 8;
        let dst_index_base = dst_bit_index div 8;
        let dst_index_acme = (dst_bit_index + len - 1) div 8;
        rust_assert (src_index_acme < length src);
        rust_assert (dst_index_acme < length dst);
        let dst_base_ptr = dst_index_base;
        let dst_acme_ptr = dst_index_base;
        base_byte \<leftarrow> get_byte dst dst_base_ptr;
        acme_byte \<leftarrow> get_byte dst dst_acme_ptr;
        let dst_first_ext = base_byte AND (push_bit (dst_bit_index mod 8) 1 - 1);
        acme_mask \<leftarrow> checked_shr (0xFF :: u8) (8 - (dst_bit_index + len) mod 8);
        let dst_last_ext = acme_byte AND NOT acme_mask;
        let diff_wraps = dst_bit_index mod 8 < src_bit_index mod 8;
        let bit_align_offset = (8 + dst_bit_index mod 8 - src_bit_index mod 8) mod 8;
        let bit_carry_mask = push_bit bit_align_offset 1 - 1;
        first \<leftarrow> get_byte src src_index_base;
        let carry = (if diff_wraps then word_rotl bit_align_offset first AND bit_carry_mask else 0);
        let src_index = (if diff_wraps then src_index_base + 1 else src_index_base);
        (dst_index, carry, dst) \<leftarrow>
          copy_loop src src_index_acme bit_align_offset bit_carry_mask src_index dst_index_base carry dst;
        dst \<leftarrow> (if \<not> (diff_wraps \<noteq> (dst_index_acme - dst_index_base = src_index_acme - src_index_base))
               then set_byte dst dst_index carry else Some dst);
        base_byte \<leftarrow> get_byte dst dst_base_ptr;
        dst \<leftarrow> set_byte dst dst_base_ptr
               ((base_byte AND push_bit (dst_bit_index mod 8) 0xFF) OR dst_first_ext);
        acme_byte \<leftarrow> get_byte dst dst_acme_ptr;
        set_byte dst dst_acme_ptr ((acme_byte AND acme_mask) OR dst_last_ext)
      })"

text \<open>The reference: bit \<open>i\<close> of a byte slice, and the slice a bit copy should produce.\<close>

definition slice_bit :: "u8 list \<Rightarrow> nat \<Rightarrow> bool" where
  "slice_bit xs i = bit (xs ! (i div 8)) (i mod 8)"

section \<open>Facts on the logarithms\<close>

lemma xor_63: "n \<le> 63 \<Longrightarrow> 63 XOR n = 63 - (n::nat)"
proof -
  have "\<forall>n\<in>set [0..<64]. 63 XOR n = 63 - (n::nat)" by code_simp
  then show "n \<le> 63 \<Longrightarrow> 63 XOR n = 63 - (n::nat)" by (auto simp: atLeast0LessThan)
qed

lemma bit_len_u64: "bit_len (unat (w :: u64)) \<le> 64"
  by (rule bit_len_le) (use unsigned_less [of w] in simp)

lemma fast_non0_log2_eq: "val \<noteq> 0 \<Longrightarrow> fast_non0_log2 val = bit_len (unat val) - 1"
proof -
  assume "val \<noteq> 0"
  then have "0 < bit_len (unat val)" by (simp add: bit_len_pos unat_gt_0)
  with bit_len_u64 [of val] show ?thesis
    by (simp add: fast_non0_log2_def leading_zeros_def xor_63)
qed

lemma fast_non0_log2_less: "val \<noteq> 0 \<Longrightarrow> fast_non0_log2 val < 64"
  using bit_len_u64 [of val] by (simp add: fast_non0_log2_eq bit_len_pos unat_gt_0 less_eq_Suc_le)

lemma fast_non0_log2_bounds:
  "val \<noteq> 0 \<Longrightarrow> 2 ^ fast_non0_log2 val \<le> unat val \<and> unat val < 2 ^ Suc (fast_non0_log2 val)"
  using bit_len_bounds [of "unat val"] bit_len_pos [of "unat val"]
  by (simp add: fast_non0_log2_eq unat_gt_0)

lemma fast_non0_log2_unique:
  "2 ^ k \<le> unat val \<Longrightarrow> unat val < 2 ^ Suc k \<Longrightarrow> fast_non0_log2 val = k"
  by (subst fast_non0_log2_eq) (auto simp: bit_len_eq)

lemma fast_non0_log2_pow2 [simp]: "k < 64 \<Longrightarrow> fast_non0_log2 (2 ^ k) = k"
  by (rule fast_non0_log2_unique) (simp_all add: unat_pow2)

lemma fast_non0_prev_pow2_eq: "fast_non0_prev_pow2 val = 2 ^ fast_non0_log2 val"
  by (simp add: fast_non0_prev_pow2_def push_bit_eq_mult)

lemma unat_prev_pow2: "val \<noteq> 0 \<Longrightarrow> unat (fast_non0_prev_pow2 val) = 2 ^ fast_non0_log2 val"
  by (simp add: fast_non0_prev_pow2_eq unat_pow2 fast_non0_log2_less)

lemma fast_non0_next_pow2_eq:
  "val \<noteq> 0 \<Longrightarrow> unat val \<le> 2 ^ 63 \<Longrightarrow> fast_non0_next_pow2 val = Some (2 ^ bit_len (unat val - 1))
    \<and> bit_len (unat val - 1) < 64"
proof -
  assume v: "val \<noteq> 0" "unat val \<le> 2 ^ 63"
  define c where "c = bit_len (unat val - 1)"
  have "unat (val - 1) = unat val - 1" using v(1) by (simp add: unat_minus_one)
  moreover have "c \<le> 63" unfolding c_def using v by (intro bit_len_le) (simp add: unat_gt_0)
  ultimately show ?thesis
    by (simp add: fast_non0_next_pow2_def leading_zeros_def checked_shl_def push_bit_eq_mult c_def)
qed

lemma next_pow2_le_iff:
  "0 < n \<Longrightarrow> n \<le> 2 ^ j \<longleftrightarrow> bit_len (n - 1) \<le> j"
proof
  assume "0 < n" "n \<le> 2 ^ j"
  then show "bit_len (n - 1) \<le> j" by (intro bit_len_le) simp
next
  assume n: "0 < n" "bit_len (n - 1) \<le> j"
  show "n \<le> 2 ^ j"
  proof (cases "n = 1")
    case False
    then have "n - 1 < 2 ^ bit_len (n - 1)" using n bit_len_bounds [of "n - 1"] by simp
    also have "\<dots> \<le> 2 ^ j" using n by (intro power_increasing) auto
    finally show ?thesis by simp
  qed simp
qed

lemma log2_bit: "bit w (fast_non0_log2 w)" if "w \<noteq> 0" for w :: u64
proof -
  have "unat w div 2 ^ fast_non0_log2 w = 1"
    using fast_non0_log2_bounds [OF that] by (simp add: div_nat_eqI)
  then have "odd (unat w div 2 ^ fast_non0_log2 w)" by simp
  then show ?thesis by (simp add: bit_iff_odd [of "unat w", symmetric] bit_unsigned_iff)
qed

lemma log2_highest: "\<lbrakk>bit w k; \<And>n. bit w n \<Longrightarrow> n \<le> k\<rbrakk> \<Longrightarrow> fast_non0_log2 w = k" for w :: u64
proof -
  assume k: "bit w k" and hi: "\<And>n. bit w n \<Longrightarrow> n \<le> k"
  then have w: "w \<noteq> 0" by auto
  have "fast_non0_log2 w \<le> k" by (rule hi [OF log2_bit [OF w]])
  moreover have "k \<le> fast_non0_log2 w"
  proof (rule ccontr)
    assume "\<not> k \<le> fast_non0_log2 w"
    then have "(2::nat) ^ Suc (fast_non0_log2 w) \<le> 2 ^ k" by (intro power_increasing) auto
    then have "unat w < 2 ^ k" using fast_non0_log2_bounds [OF w] by linarith
    then have "unat w div 2 ^ k = 0" by simp
    then have "\<not> bit (unat w) k" by (simp add: bit_iff_odd)
    with k show False by (simp add: bit_unsigned_iff bit_imp_le_length)
  qed
  ultimately show ?thesis by simp
qed

lemma prev_pow2_or:
  "c < 64 \<Longrightarrow> k < 64 \<Longrightarrow> s < 64 \<Longrightarrow> fast_non0_prev_pow2 (2 ^ c OR 2 ^ k OR 2 ^ s) = 2 ^ max c (max k s)"
  unfolding fast_non0_prev_pow2_eq
  by (subst log2_highest [of _ "max c (max k s)"]) (auto simp: bit_simps max_def)
section \<open>Facts on the bit copy\<close>

lemma get_byte_Some [simp]: "i < length xs \<Longrightarrow> get_byte xs i = Some (xs ! i)"
  by (simp add: get_byte_def)

lemma set_byte_Some [simp]: "i < length xs \<Longrightarrow> set_byte xs i v = Some (xs[i := v])"
  by (simp add: set_byte_def)

lemma low_mask: "push_bit k 1 - 1 = (mask k :: u8)"
  by (simp add: mask_eq_exp_minus_1)

lemma all_ones: "(0xFF :: u8) = NOT 0"
  by simp

text \<open>
  The final byte of a one-byte destination: the bits of the aligned value inside
  \<open>d ..< n\<close>, the old bits outside.
\<close>

lemma byte_restore:
  fixes old v :: u8
  assumes "n < 8" "d \<le> n" "0 < n"
  shows "bit ((((v AND push_bit d 0xFF) OR (old AND (push_bit d 1 - 1))) AND drop_bit (8 - n) 0xFF)
              OR (old AND NOT (drop_bit (8 - n) 0xFF))) k
         \<longleftrightarrow> (if d \<le> k \<and> k < n then bit v k else bit old k)"
  unfolding low_mask all_ones
  using assms by (auto simp: bit_simps bit_mask_iff dest: bit_imp_le_length)

text \<open>The aligned value before the restore, on the three ways a copy into one byte can run.\<close>

definition aligned_value :: "u8 list \<Rightarrow> nat \<Rightarrow> nat \<Rightarrow> nat \<Rightarrow> u8" where
  "aligned_value src d s len =
     (let off = (8 + d mod 8 - s mod 8) mod 8;
          lo = word_rotl off (src ! (s div 8));
          hi = word_rotl off (src ! ((s + len - 1) div 8))
      in if d mod 8 < s mod 8
         then (if s div 8 = (s + len - 1) div 8 then lo AND mask off
               else (hi AND NOT (mask off)) OR (lo AND mask off))
         else lo AND NOT (mask off))"

lemma bit_rotl_u8: "bit (word_rotl m (w :: u8)) n \<longleftrightarrow> n < 8 \<and> bit w ((n + (8 - m mod 8)) mod 8)"
  by (simp add: bit_word_rotl_iff)

lemma div_mod8: "r < 8 \<Longrightarrow> (r + 8 * q) div 8 = q \<and> (r + 8 * q) mod 8 = r" for q r :: nat
  by simp

lemma mod8_same:
  fixes s i :: nat
  assumes "s mod 8 + i < 8"
  shows "(s + i) div 8 = s div 8 \<and> (s + i) mod 8 = s mod 8 + i"
proof -
  have eq: "s + i = (s mod 8 + i) + 8 * (s div 8)" by simp
  show ?thesis by (subst (1 2) eq) (rule div_mod8 [OF assms])
qed

lemma mod8_next:
  fixes s i :: nat
  assumes "8 \<le> s mod 8 + i" "i < 8"
  shows "(s + i) div 8 = Suc (s div 8) \<and> (s + i) mod 8 = s mod 8 + i - 8"
proof -
  have lt: "s mod 8 + i - 8 < 8" using assms mod_less_divisor [of 8 s] by linarith
  define q r where "q = s div 8" and "r = s mod 8"
  have s: "s = r + 8 * q" by (simp add: q_def r_def)
  have eq: "s + i = (s mod 8 + i - 8) + 8 * Suc (s div 8)"
    using assms(1) s unfolding q_def [symmetric] r_def [symmetric] by simp
  show ?thesis unfolding eq by (rule div_mod8 [OF lt])
qed

lemma aligned_value_bit:
  assumes "0 < len" "d mod 8 + len < 8" "d mod 8 \<le> k" "k < d mod 8 + len"
  shows "bit (aligned_value src d s len) k \<longleftrightarrow> slice_bit src (s + (k - d mod 8))"
proof -
  define i where "i = k - d mod 8"
  define a where "a = s mod 8"
  define b where "b = d mod 8"
  have k: "k = b + i" and i: "i < len" and ab: "a < 8" "b + len < 8"
    using assms by (auto simp: i_def a_def b_def)
  have off: "(8 + b - a) mod 8 = (if b < a then 8 + b - a else b - a)"
  proof (cases "b < a")
    case False
    then have "8 + b - a = (b - a) + 8" by simp
    then have "(8 + b - a) mod 8 = (b - a) mod 8" by (simp only: mod_add_self2)
    then show ?thesis using False ab by simp
  qed simp
  show ?thesis
  proof (cases "a + i < 8")
    case True
    then have src: "slice_bit src (s + i) = bit (src ! (s div 8)) (a + i)"
      using mod8_same [of s i] by (simp add: slice_bit_def a_def)
    consider "b < a" | "a \<le> b" by linarith
    then show ?thesis
    proof cases
      case 1
      have "(b + i + (8 - (8 + b - a))) mod 8 = a + i"
        using 1 True ab i by simp
      then show ?thesis
        using 1 True ab i src unfolding k aligned_value_def Let_def i_def [symmetric]
        by (auto simp: a_def [symmetric] b_def [symmetric] off k bit_simps bit_rotl_u8 bit_mask_iff
            add.commute [of i a])
    next
      case 2
      have "b + i + (8 - (b - a)) = (a + i) + 8" using 2 ab by simp
      then have "(b + i + (8 - (b - a))) mod 8 = a + i"
        using True by (simp only: mod_add_self2 mod_less)
      then show ?thesis
        using 2 True ab i src unfolding k aligned_value_def Let_def i_def [symmetric]
        by (auto simp: a_def [symmetric] b_def [symmetric] off k bit_simps bit_rotl_u8 bit_mask_iff)
    qed
  next
    case False
    then have ba: "b < a" using ab i by linarith
    have nxt: "(s + i) div 8 = Suc (s div 8)" "(s + i) mod 8 = a + i - 8"
      using False i ab mod8_next [of s i] by (auto simp: a_def)
    have last: "(s + len - 1) div 8 = Suc (s div 8)"
      using mod8_next [of s "len - 1"] False i ab by (simp add: a_def)
    have rot: "(b + i + (8 - (8 + b - a))) mod 8 = a + i - 8"
      using ba False ab i by (simp add: mod_if add.commute)
    define off where "off = 8 + b - a"
    define lo hi where "lo = src ! (s div 8)" and "hi = src ! Suc (s div 8)"
    have o8: "off < 8" and ko: "off \<le> b + i" "b + i < 8"
      using ba False ab i by (auto simp: off_def)
    have "aligned_value src d s len = (word_rotl off hi AND NOT (mask off)) OR (word_rotl off lo AND mask off)"
      unfolding aligned_value_def Let_def a_def [symmetric] b_def [symmetric] off last
      by (simp add: ba off_def lo_def hi_def)
    then have "bit (aligned_value src d s len) (b + i) \<longleftrightarrow> bit hi (a + i - 8)"
      using o8 ko rot [folded off_def] by (simp add: bit_simps bit_rotl_u8 bit_mask_iff)
    then show ?thesis
      unfolding k by (simp add: slice_bit_def b_def [symmetric] nxt hi_def)
  qed
qed

lemma copy_loop_stop: "acme < i \<Longrightarrow> copy_loop src acme off m i j c dst = Some (j, c, dst)"
  by (simp add: copy_loop.simps)

lemma copy_loop_one:
  assumes "i < length src" "j < length dst"
  shows "copy_loop src i off m i j c dst =
    Some (Suc j, word_rotl off (src ! i) AND m, dst[j := (word_rotl off (src ! i) AND NOT m) OR c])"
  using assms by (subst copy_loop.simps) (simp add: copy_loop_stop Let_def)

text \<open>
  A copy into one byte that does not end on a byte boundary runs to completion in bounds, and
  writes exactly the restored aligned value.
\<close>

lemma copy_slice_bits_one_byte:
  assumes len: "0 < len" "d mod 8 + len < 8"
    and src: "s + len \<le> 8 * length src" and dst: "d div 8 < length dst"
  defines "old \<equiv> dst ! (d div 8)" and "m \<equiv> drop_bit (8 - (d mod 8 + len)) 0xFF :: u8"
  shows "copy_slice_bits dst src d s len =
    Some (dst[d div 8 :=
      (((aligned_value src d s len AND push_bit (d mod 8) 0xFF) OR (old AND (push_bit (d mod 8) 1 - 1)))
        AND m) OR (old AND NOT m)])"
proof -
  have d: "(d + len - 1) div 8 = d div 8" "(d + len) mod 8 = d mod 8 + len"
    using mod8_same [of d "len - 1"] mod8_same [of d len] len by auto
  have s0: "s div 8 < length src" and s1: "(s + len - 1) div 8 < length src"
    using src len by (auto simp: less_mult_imp_div_less mult.commute)
  have sle: "s div 8 \<le> (s + len - 1) div 8"
    using len by (intro div_le_mono) simp
  have snxt: "(s + len - 1) div 8 = s div 8 \<or>
      (s + len - 1) div 8 = Suc (s div 8) \<and> d mod 8 < s mod 8"
    using mod8_same [of s "len - 1"] mod8_next [of s "len - 1"] len by (cases "s mod 8 + (len - 1) < 8") auto
  define off where "off = (8 + d mod 8 - s mod 8) mod 8"
  define D S n where "D = d div 8" and "S = s div 8" and "n = d mod 8 + len"
  define wrap where "wrap \<longleftrightarrow> d mod 8 < s mod 8"
  note folds = off_def [symmetric] D_def [symmetric] S_def [symmetric] n_def [symmetric]
    wrap_def [symmetric]
  note pre = len(1) dst [folded D_def] s0 [folded S_def] s1 len(2) [folded n_def]
  have n: "0 < n" using len by (simp add: n_def)
  consider (fwd) "\<not> wrap" "(s + len - 1) div 8 = S"
    | (wrap1) "wrap" "(s + len - 1) div 8 = S"
    | (wrap2) "wrap" "(s + len - 1) div 8 = Suc S"
    using snxt by (auto simp: wrap_def S_def)
  then show ?thesis
  proof cases
    case fwd
    show ?thesis
      unfolding copy_slice_bits_def Let_def aligned_value_def old_def m_def low_mask d folds fwd(2)
      using pre n fwd by (simp add: checked_shr_def copy_loop_one)
  next
    case wrap1
    show ?thesis
      unfolding copy_slice_bits_def Let_def aligned_value_def old_def m_def low_mask d folds wrap1(2)
      using pre n wrap1 by (simp add: checked_shr_def copy_loop_stop)
  next
    case wrap2
    show ?thesis
      unfolding copy_slice_bits_def Let_def aligned_value_def old_def m_def low_mask d folds wrap2(2)
      using pre n wrap2 by (simp add: checked_shr_def copy_loop_one)
  qed
qed

lemma copy_slice_bits_bits:
  assumes "0 < len" "d mod 8 + len < 8"
    and "s + len \<le> 8 * length src" "d div 8 < length dst"
  shows "\<exists>out. copy_slice_bits dst src d s len = Some out \<and> length out = length dst \<and>
    (\<forall>i < 8 * length dst. slice_bit out i =
       (if d \<le> i \<and> i < d + len then slice_bit src (s + (i - d)) else slice_bit dst i))"
proof -
  define v where "v = aligned_value src d s len"
  define old where "old = dst ! (d div 8)"
  define m where "m = (drop_bit (8 - (d mod 8 + len)) 0xFF :: u8)"
  define b where "b = (((v AND push_bit (d mod 8) 0xFF) OR (old AND (push_bit (d mod 8) 1 - 1)))
        AND m) OR (old AND NOT m)"
  define out where "out = dst[d div 8 := b]"
  have run: "copy_slice_bits dst src d s len = Some out"
    using copy_slice_bits_one_byte [OF assms] by (simp only: out_def b_def v_def old_def m_def)
  have bits: "bit b k \<longleftrightarrow> (if d mod 8 \<le> k \<and> k < d mod 8 + len then bit v k else bit old k)" for k
    unfolding b_def m_def using assms by (intro byte_restore) auto
  have "slice_bit out i =
     (if d \<le> i \<and> i < d + len then slice_bit src (s + (i - d)) else slice_bit dst i)"
    if i: "i < 8 * length dst" for i
  proof (cases "i div 8 = d div 8")
    case True
    then have eqs: "d \<le> i \<longleftrightarrow> d mod 8 \<le> i mod 8" "i < d + len \<longleftrightarrow> i mod 8 < d mod 8 + len"
        "i - d = i mod 8 - d mod 8"
      using div_mult_mod_eq [of i 8] div_mult_mod_eq [of d 8] by linarith+
    have "slice_bit out i = bit b (i mod 8)"
      using True assms(4) by (simp add: slice_bit_def out_def)
    then show ?thesis
      using assms aligned_value_bit [OF assms(1,2), of "i mod 8" src s, folded v_def]
      by (simp add: bits eqs) (simp add: slice_bit_def old_def True)
  next
    case False
    have "\<not> (d \<le> i \<and> i < d + len)"
    proof
      assume "d \<le> i \<and> i < d + len"
      then have "i = d + (i - d)" "d mod 8 + (i - d) < 8" using assms(2) by auto
      with mod8_same [of d "i - d"] False show False by simp
    qed
    with False show ?thesis by (auto simp: slice_bit_def out_def)
  qed
  with run show ?thesis by (intro exI [of _ out]) (simp add: out_def)
qed

text \<open>
  C22. A copy whose destination lies inside one byte and ends before the byte's end succeeds without
  touching memory outside the slices; the destination bits in the range are the source bits, every
  other bit of the destination is unchanged.
\<close>

theorem copy_slice_bits_correct:
  assumes "0 < len" "d mod 8 + len < 8"
    and "s + len \<le> 8 * length src" "d div 8 < length dst"
  shows "\<exists>out. copy_slice_bits dst src d s len = Some out \<and> length out = length dst \<and>
    (\<forall>i < 8 * length dst. slice_bit out i =
       (if d \<le> i \<and> i < d + len then slice_bit src (s + (i - d)) else slice_bit dst i))"
  by (rule copy_slice_bits_bits [OF assms])

theorem copy_slice_bits_correct_witness:
  "\<exists>out. copy_slice_bits [0x81, 0x00] [0xB4, 0x03] 2 6 4 = Some out \<and> length out = length [0x81 :: u8, 0x00] \<and>
    (\<forall>i < 8 * length [0x81 :: u8, 0x00]. slice_bit out i =
       (if 2 \<le> i \<and> i < 2 + 4 then slice_bit [0xB4, 0x03] (6 + (i - 2)) else slice_bit [0x81, 0x00] i))"
  by (rule copy_slice_bits_correct) simp_all

lemma copy_slice_bits_byte_end:
  assumes "0 < len" "(d + len) mod 8 = 0"
  shows "copy_slice_bits dst src d s len = None"
  using assms
  by (simp add: copy_slice_bits_def Let_def checked_shr_def rust_assert_def get_byte_def)

text \<open>
  On a destination of two bytes the last byte is not protected: the code takes the pointer to the
  last destination byte from \<open>dst_index_base\<close>. Copying eight zero bits to bit 4 clears the four
  bits above the copied range as well.
\<close>

lemma copy_slice_bits_two_bytes_clobbers:
  "copy_slice_bits [0, 0xFF] [0, 0] 4 0 8 = Some [0, 0]"
  by code_simp

end
