(* ===== verification/Llist.thy ===== *)
theory Llist
  imports Prelude
begin

text \<open>
  Model of \<^verbatim>\<open>kernel/src/utils/llist.rs\<close>: the intrusive, circular, doubly linked list
  with a sentinel on which the allocator keeps its free blocks. The nodes live in an explicit heap
  from addresses to nodes, so that the aliasing the source comments warn about (a node linked to
  itself, \<open>prev\<close> and \<open>next\<close> the same node) is part of the model. \<open>dllist h s xs\<close> says
  that the heap holds the list \<open>xs\<close> behind the sentinel \<open>s\<close>; each operation is proved to
  implement the operation on \<open>xs\<close> and to leave every other list alone. The locale
  \<open>free_list\<close> is the interface that the allocator relies on; it carries the lemmas on a family
  of pairwise disjoint lists and is interpreted on the code's definitions.
\<close>

section \<open>Nodes and operations\<close>

record 'a llist_node =
  node_data :: 'a
  node_next :: ptr
  node_prev :: ptr

type_synonym 'a node_heap = "ptr \<Rightarrow> 'a llist_node"

text \<open>The two \<open>Cell::set\<close> calls on a node behind a raw pointer.\<close>

definition set_next :: "ptr \<Rightarrow> ptr \<Rightarrow> 'a node_heap \<Rightarrow> 'a node_heap" where
  "set_next p q h = h(p := (h p)\<lparr>node_next := q\<rparr>)"

definition set_prev :: "ptr \<Rightarrow> ptr \<Rightarrow> 'a node_heap \<Rightarrow> 'a node_heap" where
  "set_prev p q h = h(p := (h p)\<lparr>node_prev := q\<rparr>)"

definition new_llist :: "ptr \<Rightarrow> 'a \<Rightarrow> 'a node_heap \<Rightarrow> 'a node_heap" where
  "new_llist node d h = h(node := \<lparr>node_data = d, node_next = node, node_prev = node\<rparr>)"

definition llist_new :: "ptr \<Rightarrow> ptr \<Rightarrow> ptr \<Rightarrow> 'a \<Rightarrow> 'a node_heap \<Rightarrow> 'a node_heap" where
  "llist_new node prev nxt d h =
     (let h = h(node := \<lparr>node_data = d, node_next = nxt, node_prev = prev\<rparr>);
          h = set_prev nxt node h
      in set_next prev node h)"

definition mov :: "ptr \<Rightarrow> ptr \<Rightarrow> 'a node_heap \<Rightarrow> 'a node_heap" where
  "mov src dst h =
     (let src_prev = node_prev (h src);
          src_next = node_next (h src);
          h = set_next src_prev dst h;
          h = set_prev src_next dst h;
          h = h(dst := h src);
          h = set_prev src 0xabc h
      in set_next src 0xabc h)"

definition llist_remove :: "ptr \<Rightarrow> 'a node_heap \<Rightarrow> 'a \<times> 'a node_heap" where
  "llist_remove node h =
     (let prev = node_prev (h node);
          nxt = node_next (h node);
          h = set_next prev nxt h;
          h = set_prev nxt prev h;
          h = set_prev node 0xdef h;
          h = set_next node 0xdef h
      in (node_data (h node), h))"

definition relink :: "ptr \<Rightarrow> ptr \<Rightarrow> ptr \<Rightarrow> ptr \<Rightarrow> 'a node_heap \<Rightarrow> 'a node_heap" where
  "relink start ende prev nxt h =
     (let start_prev = node_prev (h start);
          end_next = node_next (h ende);
          h = set_next start_prev end_next h;
          h = set_prev end_next start_prev h;
          h = set_prev start prev h;
          h = set_next ende nxt h;
          h = set_next prev start h
      in set_prev nxt ende h)"

section \<open>The iterator\<close>

record iter_mut =
  it_forward :: ptr
  it_backward :: ptr
  it_ongoing :: bool

definition iter_mut_new :: "ptr \<Rightarrow> 'a node_heap \<Rightarrow> iter_mut" where
  "iter_mut_new sentinel h =
     \<lparr>it_forward = node_next (h sentinel), it_backward = node_prev (h sentinel),
      it_ongoing = (sentinel \<noteq> node_next (h sentinel))\<rparr>"

definition iter_next :: "'a node_heap \<Rightarrow> iter_mut \<Rightarrow> ptr option \<times> iter_mut" where
  "iter_next h it =
     (if it_ongoing it then
        (let ret = it_forward it;
             it = (if it_forward it = it_backward it then it\<lparr>it_ongoing := False\<rparr> else it);
             it = it\<lparr>it_forward := node_next (h (it_forward it))\<rparr>
         in (Some ret, it))
      else (None, it))"

definition iter_next_back :: "'a node_heap \<Rightarrow> iter_mut \<Rightarrow> ptr option \<times> iter_mut" where
  "iter_next_back h it =
     (if it_ongoing it then
        (let ret = it_backward it;
             it = (if it_forward it = it_backward it then it\<lparr>it_ongoing := False\<rparr> else it);
             it = it\<lparr>it_backward := node_prev (h (it_backward it))\<rparr>
         in (Some ret, it))
      else (None, it))"

text \<open>
  A client that drives the iterator: \<open>True\<close> calls \<open>next\<close>, \<open>False\<close> calls
  \<open>next_back\<close>.
\<close>

fun iter_run :: "'a node_heap \<Rightarrow> bool list \<Rightarrow> iter_mut \<Rightarrow> ptr option list" where
  "iter_run h [] it = []"
| "iter_run h (True # cs) it = (let (r, it) = iter_next h it in r # iter_run h cs it)"
| "iter_run h (False # cs) it = (let (r, it) = iter_next_back h it in r # iter_run h cs it)"

text \<open>The specification of such a run: taking from the two ends of a list.\<close>

fun deque_run :: "bool list \<Rightarrow> ptr list \<Rightarrow> ptr option list" where
  "deque_run [] xs = []"
| "deque_run (c # cs) [] = None # deque_run cs []"
| "deque_run (True # cs) (x # xs) = Some x # deque_run cs xs"
| "deque_run (False # cs) (x # xs) = Some (last (x # xs)) # deque_run cs (butlast (x # xs))"

section \<open>The list in the heap\<close>

fun linked :: "'a node_heap \<Rightarrow> ptr list \<Rightarrow> bool" where
  "linked h (a # b # ps) \<longleftrightarrow> node_next (h a) = b \<and> node_prev (h b) = a \<and> linked h (b # ps)"
| "linked h _ \<longleftrightarrow> True"

definition dllist :: "'a node_heap \<Rightarrow> ptr \<Rightarrow> ptr list \<Rightarrow> bool" where
  "dllist h s xs \<longleftrightarrow> distinct (s # xs) \<and> linked h (s # xs @ [s])"

lemma node_set_next [simp]:
  "node_next (set_next p q h a) = (if a = p then q else node_next (h a))"
  "node_prev (set_next p q h a) = node_prev (h a)"
  "node_data (set_next p q h a) = node_data (h a)"
  by (simp_all add: set_next_def)

lemma node_set_prev [simp]:
  "node_prev (set_prev p q h a) = (if a = p then q else node_prev (h a))"
  "node_next (set_prev p q h a) = node_next (h a)"
  "node_data (set_prev p q h a) = node_data (h a)"
  by (simp_all add: set_prev_def)

lemma linked_append:
  assumes "xs \<noteq> []" "ys \<noteq> []"
  shows "linked h (xs @ ys) \<longleftrightarrow>
    linked h xs \<and> linked h ys \<and> node_next (h (last xs)) = hd ys \<and> node_prev (h (hd ys)) = last xs"
  using assms
  by (induction h xs rule: linked.induct; cases ys) auto

lemma linked_frame:
  assumes "linked h ps"
    and "\<And>a. a \<in> set (butlast ps) \<Longrightarrow> node_next (h' a) = node_next (h a)"
    and "\<And>a. a \<in> set (tl ps) \<Longrightarrow> node_prev (h' a) = node_prev (h a)"
  shows "linked h' ps"
  using assms
proof (induction h ps rule: linked.induct)
  case (1 h a b ps)
  show ?case
    using 1 by (auto split: if_splits)
qed simp_all

text \<open>A circular list opened at any of its links.\<close>

lemma dllist_append:
  "dllist h s (xs @ ys) \<longleftrightarrow> distinct (s # xs @ ys) \<and> linked h (s # xs) \<and> linked h (ys @ [s]) \<and>
    node_next (h (last (s # xs))) = hd (ys @ [s]) \<and> node_prev (h (hd (ys @ [s]))) = last (s # xs)"
  using linked_append [of "s # xs" "ys @ [s]" h] by (simp add: dllist_def)

lemma dllist_open: "dllist h s xs \<Longrightarrow> linked h xs"
  using linked_append [of "[s]" xs h] linked_append [of "s # xs" "[s]" h]
  by (cases "xs = []") (auto simp: dllist_def)

lemma dllist_mid:
  "dllist h s (xs @ n # ys) \<longleftrightarrow> distinct (s # xs @ n # ys) \<and> linked h (s # xs) \<and> linked h (ys @ [s]) \<and>
    node_next (h (last (s # xs))) = n \<and> node_prev (h n) = last (s # xs) \<and>
    node_next (h n) = hd (ys @ [s]) \<and> node_prev (h (hd (ys @ [s]))) = n"
  using dllist_append [of h s xs "n # ys"] linked_append [of "[n]" "ys @ [s]" h] by auto

lemma hd_end_in: "hd (ys @ [s]) \<in> insert s (set ys)"
  by (cases ys) auto

lemma last_start_in: "last (s # xs) \<in> insert s (set xs)"
  by (cases xs) auto

lemma dllist_frame:
  assumes "dllist h s xs" "\<And>a. a \<in> set (s # xs) \<Longrightarrow> h' a = h a"
  shows "dllist h' s xs"
proof -
  have "linked h' (s # xs @ [s])"
    by (rule linked_frame [of h]) (use assms in \<open>auto simp: dllist_def butlast_append\<close>)
  with assms(1) show ?thesis by (simp add: dllist_def)
qed

section \<open>What the operations do to the list\<close>

lemma new_llist_dllist: "dllist (new_llist s d h) s []"
  by (simp add: dllist_def new_llist_def)

lemma llist_new_other:
  "a \<noteq> node \<Longrightarrow> a \<noteq> prev \<Longrightarrow> a \<noteq> nxt \<Longrightarrow> llist_new node prev nxt d h a = h a"
  by (simp add: llist_new_def set_next_def set_prev_def Let_def)

lemma llist_new_next:
  "node \<noteq> prev \<Longrightarrow> node_next (llist_new node prev nxt d h a) =
    (if a = prev then node else if a = node then nxt else node_next (h a))"
  by (simp add: llist_new_def Let_def)

lemma llist_new_prev:
  "node \<noteq> nxt \<Longrightarrow> node_prev (llist_new node prev nxt d h a) =
    (if a = nxt then node else if a = node then prev else node_prev (h a))"
  by (simp add: llist_new_def Let_def)

text \<open>
  Changing the list at one of its links: the two open segments survive when only the \<open>next\<close> of
  the last node before the link and the \<open>prev\<close> of the first node after it change.
\<close>

lemma segments_frame:
  assumes d: "distinct (s # xs @ ys)" and l: "linked h (s # xs)" "linked h (ys @ [s])"
    and nx: "\<And>a. a \<in> set (s # xs @ ys) \<Longrightarrow> a \<noteq> last (s # xs) \<Longrightarrow> node_next (h' a) = node_next (h a)"
    and pv: "\<And>a. a \<in> set (s # xs @ ys) \<Longrightarrow> a \<noteq> hd (ys @ [s]) \<Longrightarrow> node_prev (h' a) = node_prev (h a)"
  shows "linked h' (s # xs)" "linked h' (ys @ [s])"
proof -
  show "linked h' (s # xs)"
  proof (rule linked_frame [OF l(1)])
    fix a assume a: "a \<in> set (butlast (s # xs))"
    have "distinct (butlast (s # xs) @ [last (s # xs)])"
      using d by (subst append_butlast_last_id) auto
    with a have "a \<noteq> last (s # xs)" by auto
    then show "node_next (h' a) = node_next (h a)" by (rule nx [rotated]) (use in_set_butlastD [OF a] in auto)
  next
    fix a assume "a \<in> set (tl (s # xs))"
    then show "node_prev (h' a) = node_prev (h a)" using d hd_end_in [of ys s] by (intro pv) auto
  qed
  show "linked h' (ys @ [s])"
  proof (rule linked_frame [OF l(2)])
    fix a assume "a \<in> set (butlast (ys @ [s]))"
    then show "node_next (h' a) = node_next (h a)" using d last_start_in [of s xs] by (intro nx) auto
  next
    fix a assume "a \<in> set (tl (ys @ [s]))"
    then show "node_prev (h' a) = node_prev (h a)" using d by (intro pv; cases ys) auto
  qed
qed

lemma dllist_insert:
  assumes l: "dllist h s (xs @ ys)" and n: "n \<notin> set (s # xs @ ys)"
  shows "dllist (llist_new n (last (s # xs)) (hd (ys @ [s])) d h) s (xs @ n # ys)"
proof -
  define p q where "p = last (s # xs)" and "q = hd (ys @ [s])"
  define h' where "h' = llist_new n p q d h"
  have np: "n \<noteq> p" and nq: "n \<noteq> q"
    using n last_start_in [of s xs] hd_end_in [of ys s] by (auto simp: p_def q_def)
  note upd = llist_new_next [OF np] llist_new_prev [OF nq]
  have segs: "linked h' (s # xs)" "linked h' (ys @ [s])"
    by (rule segments_frame [of s xs ys h, folded p_def q_def];
        use l [unfolded dllist_append] n in \<open>auto simp: h'_def upd\<close>)+
  have links: "node_next (h' p) = n" "node_prev (h' n) = p" "node_next (h' n) = q" "node_prev (h' q) = n"
    using np nq by (auto simp: h'_def upd)
  have "dllist h' s (xs @ n # ys)"
    unfolding dllist_mid p_def [symmetric] q_def [symmetric]
    using l n segs links by (auto simp: dllist_def)
  then show ?thesis by (simp only: h'_def p_def q_def)
qed

corollary dllist_push:
  assumes "dllist h s xs" "n \<notin> set (s # xs)"
  shows "dllist (llist_new n s (node_next (h s)) d h) s (n # xs)"
  using dllist_insert [of h s "[]" xs n] assms by (simp add: dllist_append [of _ _ "[]" xs, simplified])

lemma dllist_ends:
  assumes "dllist h s xs"
  shows "node_next (h s) = hd (xs @ [s])" "node_prev (h s) = last (s # xs)"
proof -
  show "node_next (h s) = hd (xs @ [s])"
    using assms dllist_append [of h s "[]" xs] by simp
  show "node_prev (h s) = last (s # xs)"
    using assms dllist_append [of h s xs "[]"] by simp
qed

text \<open>A node has the same neighbour on both sides exactly when the list has at most one element.\<close>

lemma dllist_prev_eq_next:
  assumes l: "dllist h s xs" and a: "a \<in> set (s # xs)"
  shows "node_prev (h a) = node_next (h a) \<longleftrightarrow> length xs \<le> 1"
proof (cases "a = s")
  case True
  show ?thesis
  proof (cases xs)
    case (Cons x xs')
    then have "xs' \<noteq> [] \<Longrightarrow> last xs' \<noteq> x" using l by (metis dllist_def distinct.simps(2) last_in_set)
    then show ?thesis using True Cons dllist_ends [OF l] by (cases xs') auto
  qed (use True dllist_ends [OF l] in simp)
next
  case False
  with a obtain us vs where xs: "xs = us @ a # vs" by (auto simp: in_set_conv_decomp)
  have d: "distinct (s # us @ a # vs)" using l by (simp add: dllist_def xs)
  have "last (s # us) = hd (vs @ [s]) \<longleftrightarrow> us = [] \<and> vs = []"
    using d hd_end_in [of vs s] last_start_in [of s us] last_in_set [of us] by (cases us; cases vs) auto
  then show ?thesis using l [unfolded xs dllist_mid] by (auto simp: xs)
qed

lemma llist_remove_next:
  "node_next (snd (llist_remove n h) a) =
    (if a = n then 0xdef else if a = node_prev (h n) then node_next (h n) else node_next (h a))"
  by (simp add: llist_remove_def Let_def)

lemma llist_remove_prev:
  "node_prev (snd (llist_remove n h) a) =
    (if a = n then 0xdef else if a = node_next (h n) then node_prev (h n) else node_prev (h a))"
  by (simp add: llist_remove_def Let_def)

lemma llist_remove_other:
  "a \<noteq> n \<Longrightarrow> a \<noteq> node_prev (h n) \<Longrightarrow> a \<noteq> node_next (h n) \<Longrightarrow> snd (llist_remove n h) a = h a"
  by (simp add: llist_remove_def set_next_def set_prev_def Let_def)

lemma llist_remove_data: "fst (llist_remove n h) = node_data (h n)"
  by (simp add: llist_remove_def Let_def)

lemma dllist_remove:
  assumes l: "dllist h s (xs @ n # ys)"
  shows "dllist (snd (llist_remove n h)) s (xs @ ys)"
proof -
  define p q where "p = last (s # xs)" and "q = hd (ys @ [s])"
  define h' where "h' = snd (llist_remove n h)"
  note l' = l [unfolded dllist_mid, folded p_def q_def]
  have np: "n \<noteq> p" and nq: "n \<noteq> q"
    using l' last_start_in [of s xs] hd_end_in [of ys s] by (auto simp: p_def q_def)
  have segs: "linked h' (s # xs)" "linked h' (ys @ [s])"
    by (rule segments_frame [of s xs ys h, folded p_def q_def];
        use l' in \<open>auto simp: h'_def llist_remove_next llist_remove_prev\<close>)+
  have "node_next (h' p) = q" "node_prev (h' q) = p"
    using l' np nq by (auto simp: h'_def llist_remove_next llist_remove_prev)
  then have "dllist h' s (xs @ ys)"
    unfolding dllist_append p_def [symmetric] q_def [symmetric] using l' segs by simp
  then show ?thesis by (simp only: h'_def)
qed

lemma mov_other:
  "a \<noteq> src \<Longrightarrow> a \<noteq> dst \<Longrightarrow> a \<noteq> node_prev (h src) \<Longrightarrow> a \<noteq> node_next (h src) \<Longrightarrow> mov src dst h a = h a"
  by (simp add: mov_def set_next_def set_prev_def Let_def)

text \<open>Moving the sentinel relocates the whole list behind it.\<close>

lemma dllist_mov:
  assumes l: "dllist h s xs" and d: "d \<notin> set (s # xs)"
  shows "dllist (mov s d h) d xs"
proof (cases xs rule: rev_cases)
  case Nil
  then show ?thesis using l d by (simp add: dllist_def mov_def Let_def)
next
  case (snoc zs z)
  obtain y ws where y: "xs = y # ws" by (metis snoc neq_Nil_conv snoc_eq_iff_butlast)
  have ends: "node_next (h s) = y" "node_prev (h s) = z"
    using dllist_ends(1) [OF l, unfolded y] dllist_ends(2) [OF l, unfolded snoc] by simp_all
  have dist: "distinct (s # xs)" using l by (simp add: dllist_def)
  have lk': "linked (mov s d h) xs"
  proof (rule linked_frame [OF dllist_open [OF l]])
    fix a assume a: "a \<in> set (butlast xs)"
    then have "a \<noteq> z" "a \<noteq> s" "a \<noteq> d" using dist d snoc by auto
    then show "node_next (mov s d h a) = node_next (h a)" by (simp add: mov_def Let_def ends)
  next
    fix a assume "a \<in> set (tl xs)"
    then have "a \<noteq> y" "a \<noteq> s" "a \<noteq> d" using dist d y by auto
    then show "node_prev (mov s d h a) = node_prev (h a)" by (simp add: mov_def Let_def ends)
  qed
  have "y \<in> set xs" "z \<in> set xs" by (simp add: y) (simp add: snoc)
  then have "s \<noteq> y" "s \<noteq> z" "d \<noteq> y" "d \<noteq> z" "d \<noteq> s" using dist d by auto
  then have "node_next (mov s d h d) = y" "node_prev (mov s d h y) = d"
    "node_next (mov s d h z) = d" "node_prev (mov s d h d) = z"
    by (auto simp: mov_def Let_def ends)
  moreover have "hd xs = y" "xs \<noteq> []" by (simp_all add: y)
  moreover have "last xs = z" by (simp add: snoc)
  ultimately have "linked (mov s d h) ([d] @ xs @ [d])"
    using lk' by (subst linked_append; simp add: linked_append)
  with dist d show ?thesis by (simp add: dllist_def)
qed

text \<open>\<open>relink\<close> cuts a chain out of one list and splices it into another.\<close>

lemma dllist_three:
  assumes "zs \<noteq> []"
  shows "dllist h s (xs @ zs @ ys) \<longleftrightarrow> distinct (s # xs @ zs @ ys) \<and> linked h (s # xs) \<and> linked h zs \<and>
    linked h (ys @ [s]) \<and> node_next (h (last (s # xs))) = hd zs \<and> node_prev (h (hd zs)) = last (s # xs) \<and>
    node_next (h (last zs)) = hd (ys @ [s]) \<and> node_prev (h (hd (ys @ [s]))) = last zs"
  using dllist_append [of h s xs "zs @ ys"] linked_append [of zs "ys @ [s]" h] assms by auto

lemma dllist_relink:
  assumes l: "dllist h s (xs @ zs @ ys)" "dllist h t (us @ vs)" and zs: "zs \<noteq> []"
    and disj: "set (s # xs @ zs @ ys) \<inter> set (t # us @ vs) = {}"
  defines "h' \<equiv> relink (hd zs) (last zs) (last (t # us)) (hd (vs @ [t])) h"
  shows "dllist h' s (xs @ ys)" "dllist h' t (us @ zs @ vs)"
proof -
  define p q where "p = last (s # xs)" and "q = hd (ys @ [s])"
  define p' q' where "p' = last (t # us)" and "q' = hd (vs @ [t])"
  define a b where "a = hd zs" and "b = last zs"
  note l1 = l(1) [unfolded dllist_three [OF zs], folded p_def q_def a_def b_def]
  note l2 = l(2) [unfolded dllist_append, folded p'_def q'_def]
  have ins: "p \<in> set (s # xs)" "q \<in> set (s # ys)" "p' \<in> set (t # us)" "q' \<in> set (t # vs)"
      "a \<in> set zs" "b \<in> set zs"
    using last_start_in [of s xs] hd_end_in [of ys s] last_start_in [of t us] hd_end_in [of vs t] zs
    by (auto simp: p_def q_def p'_def q'_def a_def b_def)
  have h': "h' = relink a b p' q' h" by (simp add: h'_def a_def b_def p'_def q'_def)
  have nx: "node_next (h' x) = (if x = p' then a else if x = b then q' else if x = p then q else node_next (h x))"
    and pv: "node_prev (h' x) = (if x = q' then b else if x = a then p' else if x = q then p else node_prev (h x))" for x
    using l1 by (simp_all add: h' relink_def Let_def)
  have neq: "p \<noteq> p'" "p \<noteq> b" "q \<noteq> q'" "q \<noteq> a" "b \<noteq> p'" "a \<noteq> q'"
    and off: "x \<in> set (s # xs @ ys) \<Longrightarrow> x \<noteq> p' \<and> x \<noteq> q' \<and> x \<noteq> a \<and> x \<noteq> b"
      "x \<in> set (t # us @ vs) \<Longrightarrow> x \<noteq> p \<and> x \<noteq> q \<and> x \<noteq> a \<and> x \<noteq> b"
      "x \<in> set zs \<Longrightarrow> x \<noteq> p \<and> x \<noteq> q \<and> x \<noteq> p' \<and> x \<noteq> q'" for x
  proof -
    have D: "x \<in> set (s # xs @ ys) \<Longrightarrow> y \<in> set zs \<Longrightarrow> x \<noteq> y" for x y
      using conjunct1 [OF l1] by auto
    have E: "x \<in> set (s # xs @ zs @ ys) \<Longrightarrow> y \<in> set (t # us @ vs) \<Longrightarrow> x \<noteq> y" for x y
      using disj by blast
    have P: "p \<in> set (s # xs @ ys)" "q \<in> set (s # xs @ ys)" "p' \<in> set (t # us @ vs)" "q' \<in> set (t # us @ vs)"
      using ins by auto
    have incl: "x \<in> set (s # xs @ ys) \<Longrightarrow> x \<in> set (s # xs @ zs @ ys)"
        "x \<in> set zs \<Longrightarrow> x \<in> set (s # xs @ zs @ ys)" for x by auto
    show s: "x \<in> set (s # xs @ ys) \<Longrightarrow> x \<noteq> p' \<and> x \<noteq> q' \<and> x \<noteq> a \<and> x \<noteq> b" for x
      using D E P ins(5,6) incl(1) by blast
    show t: "x \<in> set (t # us @ vs) \<Longrightarrow> x \<noteq> p \<and> x \<noteq> q \<and> x \<noteq> a \<and> x \<noteq> b" for x
      using E P ins(5,6) incl by blast
    show "x \<in> set zs \<Longrightarrow> x \<noteq> p \<and> x \<noteq> q \<and> x \<noteq> p' \<and> x \<noteq> q'" for x
      using D E P incl(2) by blast
    show "p \<noteq> p'" "p \<noteq> b" "q \<noteq> q'" "q \<noteq> a" "b \<noteq> p'" "a \<noteq> q'"
      using s [OF P(1)] s [OF P(2)] t [OF P(3)] t [OF P(4)] by auto
  qed
  have s: "linked h' (s # xs)" "linked h' (ys @ [s])"
    by (rule segments_frame [of s xs ys h, folded p_def q_def]; use l1 in \<open>simp add: nx pv off(1) Int_Un_distrib\<close>)+
  have t: "linked h' (t # us)" "linked h' (vs @ [t])"
    by (rule segments_frame [of t us vs h, folded p'_def q'_def]; use l2 in \<open>simp add: nx pv off(2)\<close>)+
  have dz: "x \<in> set (butlast zs) \<Longrightarrow> x \<noteq> b" "x \<in> set (tl zs) \<Longrightarrow> x \<noteq> a" for x
  proof -
    have "distinct (butlast zs @ [b])" "distinct (a # tl zs)" using l1 zs by (simp_all add: a_def b_def)
    then show "x \<in> set (butlast zs) \<Longrightarrow> x \<noteq> b" "x \<in> set (tl zs) \<Longrightarrow> x \<noteq> a" by auto
  qed
  have z: "linked h' zs"
  proof (rule linked_frame [of h])
    fix x assume x: "x \<in> set (butlast zs)"
    then have "x \<in> set zs" by (rule in_set_butlastD)
    then show "node_next (h' x) = node_next (h x)" using dz(1) [OF x] off(3) by (simp add: nx)
  next
    fix x assume x: "x \<in> set (tl zs)"
    then have "x \<in> set zs" by (cases zs) auto
    then show "node_prev (h' x) = node_prev (h x)" using dz(2) [OF x] off(3) by (simp add: pv)
  qed (use l1 in simp)
  show "dllist h' s (xs @ ys)"
    unfolding dllist_append p_def [symmetric] q_def [symmetric]
    using s l1 neq by (simp add: nx pv Int_Un_distrib)
  show "dllist h' t (us @ zs @ vs)"
    unfolding dllist_three [OF zs] p'_def [symmetric] q'_def [symmetric] a_def [symmetric] b_def [symmetric]
    using t z l1 l2 neq disj by (auto simp: nx pv)
qed

section \<open>Iteration\<close>

text \<open>The iterator stands on a segment of the list that it has yet to return.\<close>

definition iter_on :: "'a node_heap \<Rightarrow> iter_mut \<Rightarrow> ptr list \<Rightarrow> bool" where
  "iter_on h it xs \<longleftrightarrow> (if xs = [] then \<not> it_ongoing it
     else it_ongoing it \<and> it_forward it = hd xs \<and> it_backward it = last xs \<and> distinct xs \<and> linked h xs)"

lemma iter_on_new:
  assumes "dllist h s xs"
  shows "iter_on h (iter_mut_new s h) xs"
proof (cases xs)
  case Nil
  then show ?thesis using dllist_ends [OF assms] by (simp add: iter_on_def iter_mut_new_def)
next
  case (Cons x ys)
  have "linked h xs" by (rule dllist_open [OF assms])
  then show ?thesis
    using dllist_ends [OF assms] assms Cons by (auto simp: iter_on_def iter_mut_new_def dllist_def)
qed

lemma iter_next_on:
  "iter_on h it (x # xs) \<Longrightarrow> fst (iter_next h it) = Some x \<and> iter_on h (snd (iter_next h it)) xs"
  by (cases xs) (auto simp: iter_on_def iter_next_def Let_def)

lemma iter_next_back_on:
  assumes "iter_on h it (xs @ [x])"
  shows "fst (iter_next_back h it) = Some x \<and> iter_on h (snd (iter_next_back h it)) xs"
proof (cases "xs = []")
  case True
  then show ?thesis using assms by (auto simp: iter_on_def iter_next_back_def Let_def)
next
  case False
  then have "hd xs \<noteq> x" "linked h xs \<and> node_prev (h x) = last xs"
    using assms linked_append [of xs "[x]" h] hd_in_set [OF False]
    unfolding iter_on_def by (force, simp)
  then show ?thesis using assms False by (auto simp: iter_on_def iter_next_back_def Let_def)
qed

lemma iter_end:
  "iter_on h it [] \<Longrightarrow> iter_next h it = (None, it) \<and> iter_next_back h it = (None, it)"
  by (simp add: iter_on_def iter_next_def iter_next_back_def)

lemma iter_run_on: "iter_on h it xs \<Longrightarrow> iter_run h cs it = deque_run cs xs"
proof (induction cs xs arbitrary: it rule: deque_run.induct)
  case (2 c cs)
  then show ?case using iter_end [of h it] by (cases c) auto
next
  case (3 cs x xs)
  then show ?case using iter_next_on [of h it x xs] by (auto simp: case_prod_beta)
next
  case (4 cs x xs)
  have "iter_on h it (butlast (x # xs) @ [last (x # xs)])"
    using 4 by (simp only: append_butlast_last_id list.distinct not_False_eq_True)
  then show ?case using 4 iter_next_back_on [of h it "butlast (x # xs)" "last (x # xs)"]
    by (simp add: case_prod_beta)
qed simp

lemma deque_run_forward: "deque_run (replicate (length xs + k) True) xs = map Some xs @ replicate k None"
  by (induction xs) (induction k, auto)

section \<open>Properties of the list operations\<close>

text \<open>A list of two nodes behind the sentinel \<open>0x100\<close>, for the examples.\<close>

definition demo_heap :: "u8 node_heap" where
  "demo_heap = llist_new 0x300 0x200 0x100 8 (llist_new 0x200 0x100 0x100 7
     (new_llist 0x100 0 (\<lambda>_. \<lparr>node_data = 0, node_next = 0, node_prev = 0\<rparr>)))"

lemma demo_heap_list: "dllist demo_heap 0x100 [0x200, 0x300]"
  by code_simp

text \<open>
  \<open>LlistNode::new\<close> between any two neighbours of a circular list inserts the node there, with
  its data, in both directions of the links, also when the two neighbours are the sentinel itself;
  no other node changes.
\<close>

lemma llist_new_correct:
  assumes "dllist h s (xs @ ys)" "n \<notin> set (s # xs @ ys)"
    and "p = last (s # xs)" "q = hd (ys @ [s])"
  shows "dllist (llist_new n p q d h) s (xs @ n # ys) \<and> node_data (llist_new n p q d h n) = d \<and>
    {a. llist_new n p q d h a \<noteq> h a} \<subseteq> {n, p, q}"
proof (intro conjI)
  show "dllist (llist_new n p q d h) s (xs @ n # ys)"
    using dllist_insert [OF assms(1,2), of d] by (simp add: assms(3,4))
  show "node_data (llist_new n p q d h n) = d" by (simp add: llist_new_def Let_def)
  show "{a. llist_new n p q d h a \<noteq> h a} \<subseteq> {n, p, q}"
    using llist_new_other [of _ n p q d h] by blast
qed

text \<open>
  \<open>LlistNode::remove\<close> takes the node out of its list, returns its data and changes no node but
  the removed one and its two neighbours.
\<close>

lemma llist_remove_correct:
  assumes "dllist h s (xs @ n # ys)"
  shows "fst (llist_remove n h) = node_data (h n) \<and> dllist (snd (llist_remove n h)) s (xs @ ys) \<and>
    {a. snd (llist_remove n h) a \<noteq> h a} \<subseteq> {n, last (s # xs), hd (ys @ [s])}"
proof -
  have "node_prev (h n) = last (s # xs)" "node_next (h n) = hd (ys @ [s])"
    using assms unfolding dllist_mid by blast+
  then have "{a. snd (llist_remove n h) a \<noteq> h a} \<subseteq> {n, last (s # xs), hd (ys @ [s])}"
    using llist_remove_other [of _ n h] by (simp only:) blast
  then show ?thesis
    using dllist_remove [OF assms] llist_remove_data [of n h] by blast
qed

text \<open>
  \<open>LlistNode::mov\<close> of a sentinel to a fresh address moves the whole list: the same nodes in the
  same order hang behind the new address, also when the list is empty and the sentinel is linked to
  itself.
\<close>

lemma llist_mov_correct:
  assumes "dllist h s xs" "d \<notin> set (s # xs)"
  shows "dllist (mov s d h) d xs \<and> node_data (mov s d h d) = node_data (h s)"
  using dllist_mov [OF assms] by (simp add: mov_def Let_def)

text \<open>
  \<open>LlistNode::relink\<close> cuts the chain from \<open>start\<close> to \<open>end\<close> out of its list and splices it,
  in order, between two neighbours of another list; both lists stay well linked.
\<close>

lemma llist_relink_correct:
  assumes "dllist h s (xs @ zs @ ys)" "dllist h t (us @ vs)" "zs \<noteq> []"
    and "set (s # xs @ zs @ ys) \<inter> set (t # us @ vs) = {}"
  shows "dllist (relink (hd zs) (last zs) (last (t # us)) (hd (vs @ [t])) h) s (xs @ ys) \<and>
    dllist (relink (hd zs) (last zs) (last (t # us)) (hd (vs @ [t])) h) t (us @ zs @ vs)"
  using dllist_relink [OF assms] by blast

text \<open>
  C21. The double-ended iterator over a list of any length yields, for every interleaving of
  \<open>next\<close> and \<open>next_back\<close>, what taking from the two ends of the list of its nodes yields: each
  node once, the sentinel never, and then \<open>None\<close> for ever.
\<close>

theorem llist_iter_correct:
  assumes "dllist h s xs"
  shows "iter_run h cs (iter_mut_new s h) = deque_run cs xs"
  by (rule iter_run_on) (rule iter_on_new [OF assms])

theorem llist_iter_correct_witness:
  "iter_run demo_heap [False, True, True, False] (iter_mut_new 0x100 demo_heap) =
   deque_run [False, True, True, False] [0x200, 0x300]"
  by (rule llist_iter_correct [OF demo_heap_list])

section \<open>The interface for families of free lists\<close>

text \<open>
  \<open>N\<close> lists with the sentinels \<open>sent 0, \<dots>, sent (N - 1)\<close>, no two of which share a node.
\<close>

definition list_family ::
  "('h \<Rightarrow> ptr \<Rightarrow> ptr list \<Rightarrow> bool) \<Rightarrow> 'h \<Rightarrow> nat \<Rightarrow> (nat \<Rightarrow> ptr) \<Rightarrow> (nat \<Rightarrow> ptr list) \<Rightarrow> bool" where
  "list_family rep h N sent F \<longleftrightarrow> (\<forall>i<N. rep h (sent i) (F i)) \<and>
     (\<forall>i<N. \<forall>j<N. i \<noteq> j \<longrightarrow> set (sent i # F i) \<inter> set (sent j # F j) = {})"

locale free_list =
  fixes rep :: "'h \<Rightarrow> ptr \<Rightarrow> ptr list \<Rightarrow> bool"
    and init :: "ptr \<Rightarrow> 'h \<Rightarrow> 'h"
    and push :: "ptr \<Rightarrow> ptr \<Rightarrow> 'h \<Rightarrow> 'h"
    and del :: "ptr \<Rightarrow> 'h \<Rightarrow> 'h"
    and head :: "'h \<Rightarrow> ptr \<Rightarrow> ptr"
    and lone :: "'h \<Rightarrow> ptr \<Rightarrow> bool"
  assumes rep_distinct: "rep h s xs \<Longrightarrow> distinct (s # xs)"
    and init_rep: "rep (init s h) s []"
    and init_frame: "rep h t ys \<Longrightarrow> s \<notin> set (t # ys) \<Longrightarrow> rep (init s h) t ys"
    and push_rep: "rep h s xs \<Longrightarrow> n \<notin> set (s # xs) \<Longrightarrow> rep (push n s h) s (n # xs)"
    and push_frame: "rep h s xs \<Longrightarrow> rep h t ys \<Longrightarrow> set (s # xs) \<inter> set (t # ys) = {} \<Longrightarrow>
          n \<notin> set (t # ys) \<Longrightarrow> rep (push n s h) t ys"
    and del_rep: "rep h s xs \<Longrightarrow> n \<in> set xs \<Longrightarrow> rep (del n h) s (remove1 n xs)"
    and del_frame: "rep h s xs \<Longrightarrow> n \<in> set xs \<Longrightarrow> rep h t ys \<Longrightarrow>
          set (s # xs) \<inter> set (t # ys) = {} \<Longrightarrow> rep (del n h) t ys"
    and head_rep: "rep h s xs \<Longrightarrow> head h s = hd (xs @ [s])"
    and lone_rep: "rep h s xs \<Longrightarrow> a \<in> set (s # xs) \<Longrightarrow> lone h a \<longleftrightarrow> length xs \<le> 1"
begin

lemma family_rep: "list_family rep h N sent F \<Longrightarrow> i < N \<Longrightarrow> rep h (sent i) (F i)"
  by (simp add: list_family_def)

lemma family_disj:
  "list_family rep h N sent F \<Longrightarrow> i < N \<Longrightarrow> j < N \<Longrightarrow> i \<noteq> j \<Longrightarrow>
   set (sent i # F i) \<inter> set (sent j # F j) = {}"
  by (simp only: list_family_def) blast

lemma family_distinct: "list_family rep h N sent F \<Longrightarrow> i < N \<Longrightarrow> distinct (F i)"
  using rep_distinct [OF family_rep] by simp

lemma family_unique:
  "list_family rep h N sent F \<Longrightarrow> i < N \<Longrightarrow> j < N \<Longrightarrow> x \<in> set (F i) \<Longrightarrow> x \<in> set (F j) \<Longrightarrow> i = j"
  using family_disj [of h N sent F i j] by auto

lemma family_push:
  assumes fam: "list_family rep h N sent F" and i: "i < N"
    and n: "\<And>j. j < N \<Longrightarrow> n \<notin> set (sent j # F j)"
  shows "list_family rep (push n (sent i) h) N sent (F(i := n # F i))"
  unfolding list_family_def
proof (intro conjI allI impI)
  fix j assume j: "j < N"
  show "rep (push n (sent i) h) (sent j) ((F(i := n # F i)) j)"
  proof (cases "j = i")
    case True
    then show ?thesis using push_rep [OF family_rep [OF fam i]] n [OF i] by simp
  next
    case False
    then show ?thesis
      using push_frame [OF family_rep [OF fam i] family_rep [OF fam j] family_disj [OF fam i j]] n [OF j]
      by simp
  qed
next
  fix j k assume "j < N" "k < N" "j \<noteq> k"
  then show "set (sent j # (F(i := n # F i)) j) \<inter> set (sent k # (F(i := n # F i)) k) = {}"
    using family_disj [OF fam, of j k] n [of j] n [of k] by auto
qed

lemma family_del:
  assumes fam: "list_family rep h N sent F" and i: "i < N" and n: "n \<in> set (F i)"
  shows "list_family rep (del n h) N sent (F(i := remove1 n (F i)))"
  unfolding list_family_def
proof (intro conjI allI impI)
  fix j assume j: "j < N"
  show "rep (del n h) (sent j) ((F(i := remove1 n (F i))) j)"
    using del_rep [OF family_rep [OF fam i] n]
      del_frame [OF family_rep [OF fam i] n family_rep [OF fam j] family_disj [OF fam i j]]
    by (cases "j = i") auto
next
  fix j k assume "j < N" "k < N" "j \<noteq> k"
  then show "set (sent j # (F(i := remove1 n (F i))) j) \<inter> set (sent k # (F(i := remove1 n (F i))) k) = {}"
    using family_disj [OF fam, of j k] set_remove1_subset [of n "F i"] by auto
qed

lemma family_head:
  "list_family rep h N sent F \<Longrightarrow> i < N \<Longrightarrow> F i = x # xs \<Longrightarrow> head h (sent i) = x"
  using head_rep [OF family_rep] by simp

lemma family_lone_sentinel:
  "list_family rep h N sent F \<Longrightarrow> i < N \<Longrightarrow> lone h (sent i) \<longleftrightarrow> length (F i) \<le> 1"
  using lone_rep [OF family_rep, of h N sent F i "sent i"] by simp

lemma family_lone_node:
  "list_family rep h N sent F \<Longrightarrow> i < N \<Longrightarrow> x \<in> set (F i) \<Longrightarrow> lone h x \<longleftrightarrow> F i = [x]"
  using lone_rep [OF family_rep, of h N sent F i x] by (cases "F i") auto

text \<open>Initialising the sentinels one after the other gives the empty family.\<close>

lemma family_init:
  assumes "inj_on sent {..<N}" "n \<le> N"
  shows "list_family rep (fold (\<lambda>i. init (sent i)) [0..<n] h) n sent (\<lambda>_. [])"
  using assms(2)
proof (induction n)
  case 0
  then show ?case by (simp add: list_family_def)
next
  case (Suc n)
  then have IH: "list_family rep (fold (\<lambda>i. init (sent i)) [0..<n] h) n sent (\<lambda>_. [])" by simp
  have ne: "i < n \<Longrightarrow> sent i \<noteq> sent n" for i
    using inj_onD [OF assms(1), of i n] Suc.prems by auto
  show ?case unfolding list_family_def
  proof (intro conjI allI impI)
    fix i assume "i < Suc n"
    then show "rep (fold (\<lambda>i. init (sent i)) [0..<Suc n] h) (sent i) []"
      using family_rep [OF IH, of i] init_rep init_frame ne [of i] by (cases "i = n") auto
  next
    fix i j assume "i < Suc n" "j < Suc n" "i \<noteq> j"
    then show "set [sent i] \<inter> set [sent j] = {}"
      using inj_onD [OF assms(1), of i j] Suc.prems by auto
  qed
qed

end

text \<open>The code's operations, as \<^verbatim>\<open>talloc.rs\<close> calls them, fulfil the contract.\<close>

definition llist_push :: "ptr \<Rightarrow> ptr \<Rightarrow> unit node_heap \<Rightarrow> unit node_heap" where
  "llist_push node sentinel h = llist_new node sentinel (node_next (h sentinel)) () h"

definition llist_lone :: "unit node_heap \<Rightarrow> ptr \<Rightarrow> bool" where
  "llist_lone h node \<longleftrightarrow> node_prev (h node) = node_next (h node)"

lemma llist_push_frame:
  assumes "dllist h s xs" "dllist h t ys" "set (s # xs) \<inter> set (t # ys) = {}" "n \<notin> set (t # ys)"
  shows "dllist (llist_push n s h) t ys"
proof (rule dllist_frame [OF assms(2)])
  fix a assume a: "a \<in> set (t # ys)"
  have "node_next (h s) \<in> set (s # xs)" using dllist_ends(1) [OF assms(1)] hd_end_in [of xs s] by simp
  then show "llist_push n s h a = h a" using a assms(3,4)
    unfolding llist_push_def by (intro llist_new_other) auto
qed

lemma llist_remove_rep:
  assumes "dllist h s xs" "n \<in> set xs"
  shows "dllist (snd (llist_remove n h)) s (remove1 n xs)"
proof -
  obtain us vs where xs: "xs = us @ n # vs" using assms(2) by (auto simp: in_set_conv_decomp)
  have "n \<notin> set us" using assms(1) by (simp add: dllist_def xs)
  then have "remove1 n xs = us @ vs" by (simp add: xs remove1_append)
  then show ?thesis using dllist_remove assms(1) xs by simp
qed

lemma llist_remove_frame:
  assumes "dllist h s xs" "n \<in> set xs" "dllist h t ys" "set (s # xs) \<inter> set (t # ys) = {}"
  shows "dllist (snd (llist_remove n h)) t ys"
proof (rule dllist_frame [OF assms(3)])
  fix a assume a: "a \<in> set (t # ys)"
  obtain us vs where xs: "xs = us @ n # vs" using assms(2) by (auto simp: in_set_conv_decomp)
  have "node_prev (h n) \<in> set (s # xs)" "node_next (h n) \<in> set (s # xs)"
    using assms(1) last_start_in [of s us] hd_end_in [of vs s] unfolding xs dllist_mid by auto
  then show "snd (llist_remove n h) a = h a" using a assms(2,4) by (intro llist_remove_other) auto
qed

interpretation fl: free_list dllist "\<lambda>s. new_llist s ()" llist_push "\<lambda>n h. snd (llist_remove n h)"
  "\<lambda>h s. node_next (h s)" llist_lone
proof unfold_locales
  show "dllist h s xs \<Longrightarrow> distinct (s # xs)" for h :: "unit node_heap" and s xs
    by (simp add: dllist_def)
  show "dllist h t ys \<Longrightarrow> s \<notin> set (t # ys) \<Longrightarrow> dllist (new_llist s () h) t ys" for h t ys s
    by (erule dllist_frame) (auto simp: new_llist_def)
  show "dllist h s xs \<Longrightarrow> n \<notin> set (s # xs) \<Longrightarrow> dllist (llist_push n s h) s (n # xs)" for h s xs n
    unfolding llist_push_def by (rule dllist_push)
  show "dllist h s xs \<Longrightarrow> a \<in> set (s # xs) \<Longrightarrow> llist_lone h a \<longleftrightarrow> length xs \<le> 1" for h s xs a
    unfolding llist_lone_def by (rule dllist_prev_eq_next)
qed (fact new_llist_dllist llist_push_frame llist_remove_rep llist_remove_frame dllist_ends(1))+

end
