(* ===== verification/Talloc.thy ===== *)
theory Talloc
  imports Utils Llist
begin

text \<open>
  Model of \<^verbatim>\<open>kernel/src/memm/talloc.rs\<close>: the buddy allocator \<open>Talloc\<close> with its free
  lists (one per granularity), its availability word and its bitmap. The memory behind the raw
  pointers of the struct is part of the state: \<open>nodes\<close> is the heap of list nodes (the sentinels
  of \<open>llists\<close> and the nodes inside free blocks) and \<open>bitmap\<close> the contents of the bitmap slice.
  Every operation returns an option: \<open>None\<close> is a panic (an overflow, a failed assertion) or an
  access outside the slices, which the code leaves undefined. This theory holds the definitions
  only; the proofs are in the theories that follow.
\<close>

section \<open>State\<close>

record talloc =
  arena_base :: isize
  arena_size :: usize
  arena_size_pow2 :: usize
  smlst_block :: usize
  avails :: usize
  llists_ptr :: ptr
  llists_len :: nat
  bitmap_ptr :: ptr
  bitmap :: "u8 list"
  nodes :: "unit node_heap"

text \<open>\<open>core::alloc::Layout\<close> and \<open>AllocError\<close>.\<close>

record layout =
  layout_size :: usize
  layout_align :: usize

datatype alloc_error = AllocError

type_synonym 'a alloc_result = "alloc_error + 'a"

text \<open>
  The handler is a function pointer in the struct; it may change the allocator (by extending it),
  and may panic. It is an argument of \<open>talloc_alloc\<close>.
\<close>

type_synonym oom_handler = "talloc \<Rightarrow> layout \<Rightarrow> (unit alloc_result \<times> talloc) option"

definition MAXIMUM_ARENA_SIZE :: usize where "MAXIMUM_ARENA_SIZE = push_bit 48 1"
definition MINIMUM_ARENA_SIZE :: usize where "MINIMUM_ARENA_SIZE = push_bit 6 1"

text \<open>\<open>size_of::<LlistNode<()>>()\<close>: two pointers.\<close>

definition llist_node_size :: usize where "llist_node_size = 16"

definition sentinel :: "talloc \<Rightarrow> nat \<Rightarrow> ptr" where
  "sentinel t g = llists_ptr t + 16 * of_nat g"

definition get_sentinel :: "talloc \<Rightarrow> nat \<Rightarrow> ptr option" where
  "get_sentinel t g = (if g < llists_len t then Some (sentinel t g) else None)"

section \<open>Block arithmetic\<close>

definition is_lower_buddy :: "ptr \<Rightarrow> usize \<Rightarrow> bool" where
  "is_lower_buddy block_base sz \<longleftrightarrow> block_base AND sz = 0"

definition block_granularity :: "talloc \<Rightarrow> usize \<Rightarrow> nat option" where
  "block_granularity t sz =
     (if leading_zeros (arena_size_pow2 t) \<le> leading_zeros sz
      then Some (leading_zeros sz - leading_zeros (arena_size_pow2 t)) else None)"

definition bitmap_offset :: "talloc \<Rightarrow> ptr \<Rightarrow> usize \<Rightarrow> usize option" where
  "bitmap_offset t base sz = do {
     low \<leftarrow> checked_ssub (push_bit 1 sz) 1;
     let aligned_arena_base = arena_base t AND NOT low;
     field_offset \<leftarrow> checked_ssub base aligned_arena_base;
     sum \<leftarrow> checked_add (arena_size_pow2 t) field_offset;
     checked_shr sum (fast_non0_log2 sz + 1)
   }"

definition read_bitflag :: "talloc \<Rightarrow> usize \<Rightarrow> bool option" where
  "read_bitflag t offset = do {
     let index = drop_bit 3 offset;
     data \<leftarrow> get_byte (bitmap t) (unat index);
     let bit_mask = push_bit (unat (offset AND 7)) 1;
     Some (data AND bit_mask \<noteq> 0)
   }"

definition toggle_bitflag :: "talloc \<Rightarrow> usize \<Rightarrow> talloc option" where
  "toggle_bitflag t offset = do {
     let index = drop_bit 3 offset;
     data \<leftarrow> get_byte (bitmap t) (unat index);
     let bit_mask = push_bit (unat (offset AND 7)) 1;
     bm \<leftarrow> set_byte (bitmap t) (unat index) (data XOR bit_mask);
     Some (t\<lparr>bitmap := bm\<rparr>)
   }"

section \<open>Registering and unregistering blocks\<close>

definition add_block_next :: "talloc \<Rightarrow> nat \<Rightarrow> usize \<Rightarrow> ptr \<Rightarrow> talloc option" where
  "add_block_next t granularity offset node = do {
     flag \<leftarrow> checked_shl 1 granularity;
     let t = t\<lparr>avails := avails t OR flag\<rparr>;
     snt \<leftarrow> get_sentinel t granularity;
     let t = t\<lparr>nodes := llist_new node snt (node_next (nodes t snt)) () (nodes t)\<rparr>;
     toggle_bitflag t offset
   }"

definition remove_block_next :: "talloc \<Rightarrow> nat \<Rightarrow> usize \<Rightarrow> (ptr \<times> talloc) option" where
  "remove_block_next t granularity sz = do {
     snt \<leftarrow> get_sentinel t granularity;
     flag \<leftarrow> checked_shl 1 granularity;
     let t = (if node_prev (nodes t snt) = node_next (nodes t snt)
              then t\<lparr>avails := avails t AND NOT flag\<rparr> else t);
     let node = node_next (nodes t snt);
     let t = t\<lparr>nodes := snd (llist_remove node (nodes t))\<rparr>;
     offset \<leftarrow> bitmap_offset t node sz;
     t \<leftarrow> toggle_bitflag t offset;
     Some (node, t)
   }"

definition remove_block :: "talloc \<Rightarrow> nat \<Rightarrow> usize \<Rightarrow> ptr \<Rightarrow> talloc option" where
  "remove_block t granularity offset node = do {
     flag \<leftarrow> checked_shl 1 granularity;
     let t = (if node_prev (nodes t node) = node_next (nodes t node)
              then t\<lparr>avails := avails t AND NOT flag\<rparr> else t);
     let t = t\<lparr>nodes := snd (llist_remove node (nodes t))\<rparr>;
     toggle_bitflag t offset
   }"

section \<open>Arena parameters\<close>

definition validate_arena_args :: "usize \<Rightarrow> usize \<Rightarrow> unit option" where
  "validate_arena_args sz smallest = do {
     rust_assert (MINIMUM_ARENA_SIZE \<le> sz);
     rust_assert (sz \<le> MAXIMUM_ARENA_SIZE);
     rust_assert (is_power_of_two smallest);
     rust_assert (llist_node_size \<le> smallest)
   }"

definition slice_bytes :: "usize \<Rightarrow> usize \<Rightarrow> (usize \<times> usize) option" where
  "slice_bytes sz smallest = do {
     validate_arena_args sz smallest;
     tp \<leftarrow> int_log2 (sz - 1);
     low \<leftarrow> int_log2 smallest;
     len \<leftarrow> (if low \<le> tp + 1 then Some (tp + 1 - low + 1) else None);
     bits \<leftarrow> checked_shl (1 :: usize) len;
     let bitmap_len = drop_bit 3 bits;
     ll \<leftarrow> checked_mul (of_nat len) llist_node_size;
     Some (ll, if bitmap_len \<noteq> 0 then bitmap_len else 1)
   }"

definition new_invalid :: "usize \<Rightarrow> unit node_heap \<Rightarrow> talloc" where
  "new_invalid smallest h =
     \<lparr>arena_base = 0, arena_size = 0, arena_size_pow2 = 0, smlst_block = smallest, avails = 0,
      llists_ptr = 0, llists_len = 0, bitmap_ptr = 0, bitmap = [], nodes = h\<rparr>"

definition get_arena :: "talloc \<Rightarrow> isize \<times> usize" where
  "get_arena t = (arena_base t, arena_size t)"

definition req_free_mem :: "talloc \<Rightarrow> isize \<Rightarrow> usize \<Rightarrow> usize option" where
  "req_free_mem t base sz = do {
     (ll_bytes, bm_bytes) \<leftarrow> slice_bytes sz (smlst_block t);
     n \<leftarrow> checked_add (base mod 16) ll_bytes;
     checked_add n bm_bytes
   }"

section \<open>Block sizes\<close>

definition layout_to_size :: "talloc \<Rightarrow> layout \<Rightarrow> usize option" where
  "layout_to_size t l = do {
     n \<leftarrow> fast_non0_next_pow2 (layout_size l);
     Some (fast_non0_prev_pow2 (n OR layout_align l OR smlst_block t))
   }"

section \<open>Deallocation\<close>

text \<open>The loop that merges the block with its buddy as long as the buddy is free.\<close>

fun dealloc_loop :: "talloc \<Rightarrow> ptr \<Rightarrow> usize \<Rightarrow> nat \<Rightarrow> usize \<Rightarrow> talloc option" where
  "dealloc_loop t p sz granularity offset = do {
     het \<leftarrow> read_bitflag t offset;
     if het then do {
       let (buddy_ptr, next_ptr) =
         (if is_lower_buddy p sz then (p + sz, p) else (p - sz, p - sz));
       t \<leftarrow> remove_block t granularity offset buddy_ptr;
       let sz = push_bit 1 sz;
       (case granularity of
          0 \<Rightarrow> None
        | Suc g \<Rightarrow> do {
            offset \<leftarrow> bitmap_offset t next_ptr sz;
            dealloc_loop t next_ptr sz g offset
          })
     } else add_block_next t granularity offset p
   }"

declare dealloc_loop.simps [simp del]

definition talloc_dealloc :: "talloc \<Rightarrow> ptr \<Rightarrow> layout \<Rightarrow> talloc option" where
  "talloc_dealloc t p l = do {
     sz \<leftarrow> layout_to_size t l;
     granularity \<leftarrow> block_granularity t sz;
     offset \<leftarrow> bitmap_offset t p sz;
     dealloc_loop t p sz granularity offset
   }"

section \<open>Splitting and allocation\<close>

text \<open>
  The loop over the granularities \<open>lgr_granularity + 1 ..= granularity\<close>, shared by \<open>alloc\<close>
  and \<open>shrink\<close>: the upper half of the block becomes free, the lower half is split further.
\<close>

fun split_loop :: "talloc \<Rightarrow> ptr \<Rightarrow> usize \<Rightarrow> nat list \<Rightarrow> talloc option" where
  "split_loop t base hi_block_size [] = Some t"
| "split_loop t base hi_block_size (hi_granularity # gs) = do {
     let hi_block_base = base + hi_block_size;
     offset \<leftarrow> bitmap_offset t hi_block_base hi_block_size;
     t \<leftarrow> add_block_next t hi_granularity offset hi_block_base;
     split_loop t base (drop_bit 1 hi_block_size) gs
   }"

text \<open>The two loops of \<open>alloc\<close> that call the handler until memory is found or it gives up.\<close>

partial_function (option) oom_while_small ::
  "oom_handler \<Rightarrow> talloc \<Rightarrow> layout \<Rightarrow> usize \<Rightarrow> (unit alloc_result \<times> talloc) option" where
  "oom_while_small oom t l sz =
     (if arena_size t < sz then do {
        (r, t) \<leftarrow> oom t l;
        (case r of Inl e \<Rightarrow> Some (Inl e, t) | Inr u \<Rightarrow> oom_while_small oom t l sz)
      } else Some (Inr (), t))"

partial_function (option) find_larger ::
  "oom_handler \<Rightarrow> talloc \<Rightarrow> layout \<Rightarrow> usize \<Rightarrow> nat \<Rightarrow> ((usize \<times> nat) alloc_result \<times> talloc) option" where
  "find_larger oom t l sz granularity = do {
     msk \<leftarrow> checked_shl (-1) granularity;
     let larger_avl = avails t AND NOT msk;
     if larger_avl = 0 then do {
       (r, t) \<leftarrow> oom t l;
       (case r of
          Inl e \<Rightarrow> Some (Inl e, t)
        | Inr u \<Rightarrow> do {
            granularity \<leftarrow> block_granularity t sz;
            find_larger oom t l sz granularity
          })
     } else Some (Inr (larger_avl, granularity), t)
   }"

declare oom_while_small.simps [code] find_larger.simps [code]

definition split_larger :: "talloc \<Rightarrow> usize \<Rightarrow> nat \<Rightarrow> (ptr \<times> talloc) option" where
  "split_larger t larger_avl granularity = do {
     let lgr_granularity = fast_non0_log2 larger_avl;
     lgr_size \<leftarrow> checked_shr (arena_size_pow2 t) lgr_granularity;
     (lgr_base, t) \<leftarrow> remove_block_next t lgr_granularity lgr_size;
     t \<leftarrow> split_loop t lgr_base (drop_bit 1 lgr_size) [lgr_granularity + 1 ..< granularity + 1];
     Some (lgr_base, t)
   }"

definition talloc_alloc ::
  "oom_handler \<Rightarrow> talloc \<Rightarrow> layout \<Rightarrow> (ptr alloc_result \<times> talloc) option" where
  "talloc_alloc oom t l = do {
     sz \<leftarrow> layout_to_size t l;
     (r, t) \<leftarrow> oom_while_small oom t l sz;
     (case r of Inl e \<Rightarrow> Some (Inl e, t) | Inr u \<Rightarrow> do {
       granularity \<leftarrow> block_granularity t sz;
       flag \<leftarrow> checked_shl 1 granularity;
       if avails t AND flag \<noteq> 0 then do {
         (p, t) \<leftarrow> remove_block_next t granularity sz;
         Some (Inr p, t)
       } else do {
         (r, t) \<leftarrow> find_larger oom t l sz granularity;
         (case r of Inl e \<Rightarrow> Some (Inl e, t) | Inr (larger_avl, granularity) \<Rightarrow> do {
           (p, t) \<leftarrow> split_larger t larger_avl granularity;
           Some (Inr p, t)
         })
       }
     })
   }"

definition talloc_shrink :: "talloc \<Rightarrow> ptr \<Rightarrow> layout \<Rightarrow> layout \<Rightarrow> talloc option" where
  "talloc_shrink t p old_layout new_layout = do {
     old_size \<leftarrow> layout_to_size t old_layout;
     new_size \<leftarrow> layout_to_size t new_layout;
     if old_size = new_size then Some t else do {
       old_granularity \<leftarrow> block_granularity t old_size;
       new_granularity \<leftarrow> block_granularity t new_size;
       split_loop t p (drop_bit 1 old_size) [old_granularity + 1 ..< new_granularity + 1]
     }
   }"

section \<open>Releasing memory\<close>

partial_function (option) release_loop :: "talloc \<Rightarrow> isize \<Rightarrow> isize \<Rightarrow> bool \<Rightarrow> talloc option" where
  "release_loop t block_base acme asc_block_sizes =
     (if asc_block_sizes then do {
        block_size \<leftarrow> checked_shl (1 :: usize) (trailing_zeros block_base);
        tp \<leftarrow> checked_sadd block_base block_size;
        if tp \<le>s acme then do {
          t \<leftarrow> talloc_dealloc t block_base \<lparr>layout_size = block_size, layout_align = 1\<rparr>;
          release_loop t tp acme True
        } else release_loop t block_base acme False
      } else do {
        delta \<leftarrow> checked_ssub acme block_base;
        if smlst_block t \<le> delta then do {
          let block_size = fast_non0_prev_pow2 delta;
          t \<leftarrow> talloc_dealloc t block_base \<lparr>layout_size = block_size, layout_align = 1\<rparr>;
          block_base \<leftarrow> checked_sadd block_base block_size;
          release_loop t block_base acme False
        } else Some t
      })"

declare release_loop.simps [code]

partial_function (option) talloc_release :: "talloc \<Rightarrow> ptr \<Rightarrow> usize \<Rightarrow> talloc option" where
  "talloc_release t mem mem_len = do {
     sbm1 \<leftarrow> checked_ssub (smlst_block t) 1;
     mem_up \<leftarrow> checked_sadd mem sbm1;
     let base = mem_up AND NOT sbm1;
     mem_end \<leftarrow> checked_sadd mem mem_len;
     let acme = mem_end AND NOT sbm1;
     rust_assert (arena_base t \<le>s base);
     arena_acme \<leftarrow> checked_sadd (arena_base t) (arena_size t);
     rust_assert (acme \<le>s arena_acme);
     if base = acme then Some t
     else if base \<le>s 0 \<and> 0 <s acme then do {
       below \<leftarrow> checked_ssub 0 base;
       above \<leftarrow> checked_ssub (smlst_block t) base;
       t \<leftarrow> (if below \<le> mem_len then talloc_release t mem below else None);
       (if above \<le> mem_len then talloc_release t (mem + above) (mem_len - above) else None)
     } else release_loop t base acme True
   }"

declare talloc_release.simps [code]

section \<open>Extending the arena\<close>

text \<open>The loop that initialises the sentinels of the new granularities and moves the old ones.\<close>

definition extend_llists :: "talloc \<Rightarrow> talloc \<Rightarrow> nat \<Rightarrow> unit node_heap" where
  "extend_llists old new gra_diff =
     fold (\<lambda>i h. if i < gra_diff then new_llist (sentinel new i) () h
                 else mov (sentinel old (i - gra_diff)) (sentinel new i) h)
       [0..<llists_len new] (nodes new)"

text \<open>\<open>copy_from_nonoverlapping\<close> on bytes of the bitmaps.\<close>

definition copy_bytes :: "u8 list \<Rightarrow> nat \<Rightarrow> u8 list \<Rightarrow> nat \<Rightarrow> nat \<Rightarrow> u8 list option" where
  "copy_bytes dst d src s n =
     (if s + n \<le> length src \<and> d + n \<le> length dst
      then Some (take d dst @ take n (drop s src) @ drop (d + n) dst) else None)"

fun extend_bitmap :: "talloc \<Rightarrow> talloc \<Rightarrow> nat list \<Rightarrow> u8 list \<Rightarrow> u8 list option" where
  "extend_bitmap old new [] bm = Some bm"
| "extend_bitmap old new (g # gs) bm = do {
     one \<leftarrow> checked_shl (1 :: usize) g;
     let old_bmp_bit_offst_sz = max (drop_bit 1 one) 1;
     sz \<leftarrow> checked_shr (arena_size_pow2 old) g;
     new_bmp_bit_offst \<leftarrow> bitmap_offset new (arena_base old) sz;
     bm \<leftarrow> (if g < 4
            then copy_slice_bits bm (bitmap old) (unat new_bmp_bit_offst)
                   (unat old_bmp_bit_offst_sz) (unat old_bmp_bit_offst_sz)
            else copy_bytes bm (unat new_bmp_bit_offst div 8) (bitmap old)
                   (unat old_bmp_bit_offst_sz div 8) (unat old_bmp_bit_offst_sz div 8));
     extend_bitmap old new gs bm
   }"

definition talloc_extend :: "talloc \<Rightarrow> isize \<Rightarrow> usize \<Rightarrow> ptr \<Rightarrow> usize \<Rightarrow> talloc option" where
  "talloc_extend t base sz free_mem free_len = do {
     (ll_bytes, bm_bytes) \<leftarrow> slice_bytes sz (smlst_block t);
     arena_acme \<leftarrow> checked_sadd base sz;
     rust_assert (base \<le>s free_mem);
     rust_assert (free_mem + free_len \<le>s arena_acme);
     (if length (bitmap t) \<noteq> 0 then do {
        rust_assert (base \<le>s arena_base t);
        old_acme \<leftarrow> checked_sadd (arena_base t) (arena_size t);
        rust_assert (old_acme \<le>s arena_acme)
      } else Some ());
     let ll_align_offset = llist_node_size - (free_mem AND (llist_node_size - 1));
     off \<leftarrow> checked_add ll_align_offset ll_bytes;
     mem_offset \<leftarrow> checked_add off bm_bytes;
     let llp = free_mem + ll_align_offset;
     let bmp = llp + ll_bytes;
     pow2 \<leftarrow> next_power_of_two sz;
     let new = \<lparr>arena_base = base, arena_size = sz, arena_size_pow2 = pow2,
                smlst_block = smlst_block t, avails = 0,
                llists_ptr = llp, llists_len = unat (ll_bytes div llist_node_size),
                bitmap_ptr = bmp, bitmap = replicate (unat bm_bytes) 0, nodes = nodes t\<rparr>;
     gra_diff \<leftarrow> (if llists_len t \<le> llists_len new then Some (llists_len new - llists_len t) else None);
     let new = new\<lparr>nodes := extend_llists t new gra_diff\<rparr>;
     avl \<leftarrow> checked_shl (avails t) gra_diff;
     let new = new\<lparr>avails := avl\<rparr>;
     new \<leftarrow> (if length (bitmap t) \<noteq> 0 then do {
         bm \<leftarrow> extend_bitmap t new [0..<llists_len t] (bitmap new);
         Some (new\<lparr>bitmap := bm\<rparr>)
       } else Some new);
     new \<leftarrow> (if length (bitmap t) \<noteq> 0 then do {
         bytes \<leftarrow> checked_add (16 * of_nat (llists_len t)) (of_nat (length (bitmap t)));
         sum \<leftarrow> checked_add bytes (smlst_block t);
         up \<leftarrow> checked_sub sum 1;
         let size_ceild = up AND NOT (smlst_block t - 1);
         talloc_release new (llists_ptr t) size_ceild
       } else Some new);
     (if mem_offset \<le> free_len
      then talloc_release new (free_mem + mem_offset) (free_len - mem_offset) else None)
   }"

definition talloc_new ::
  "isize \<Rightarrow> usize \<Rightarrow> usize \<Rightarrow> ptr \<Rightarrow> usize \<Rightarrow> unit node_heap \<Rightarrow> talloc option" where
  "talloc_new base sz smallest free_mem free_len h =
     talloc_extend (new_invalid smallest h) base sz free_mem free_len"

end
