(* ===== verification/Buddy.thy ===== *)
theory Buddy
  imports Prelude
begin

text \<open>
  The buddy system without machine words: an arena of integer addresses, blocks of size \<open>2 ^ m\<close>
  at multiples of \<open>2 ^ m\<close>, their buddies, and the position of a buddy pair in the allocator's
  bitmap. A set of free blocks is \<open>buddy_ok\<close> when its blocks lie in the arena, do not overlap
  and no two buddies are both free. The main facts are that the bitmap position identifies a free
  block, and that the bit of a block which is not free says whether its buddy is free; they are
  what the bitmap of \<^verbatim>\<open>kernel/src/memm/talloc.rs\<close> relies on.
\<close>

lemma int_div_less:
  fixes x c P :: int
  assumes "x < c * P" "0 < P"
  shows "x div P < c"
proof (rule ccontr)
  assume "\<not> x div P < c"
  then have "c * P \<le> x div P * P" using assms(2) by (intro mult_right_mono) auto
  also have "\<dots> \<le> x" using div_mult_mod_eq [of x P] pos_mod_sign [OF assms(2), of x] by linarith
  finally show False using assms(1) by simp
qed

section \<open>Blocks and buddies\<close>

text \<open>
  The arena starts at \<open>geo_base\<close> and has \<open>geo_size\<close> bytes; the largest block has
  \<open>2 ^ geo_top\<close> bytes, the smallest \<open>2 ^ geo_min\<close>.
\<close>

record geometry =
  geo_base :: int
  geo_size :: int
  geo_top :: nat
  geo_min :: nat

text \<open>
  The base may lie above a multiple of the largest block size by less than two smallest blocks;
  without a bound of this kind bitmap positions of different granularities coincide.
\<close>

definition geo_ok :: "geometry \<Rightarrow> bool" where
  "geo_ok G \<longleftrightarrow> 4 \<le> geo_min G \<and> geo_min G \<le> geo_top G \<and> geo_top G \<le> 48 \<and>
     0 < geo_size G \<and> geo_size G \<le> 2 ^ geo_top G \<and>
     geo_base G mod 2 ^ geo_top G < 2 ^ (geo_min G + 1) \<and>
     - (2 ^ 47) \<le> geo_base G \<and> geo_base G + geo_size G \<le> 2 ^ 47"

type_synonym block = "nat \<times> int"

definition blk_bytes :: "block \<Rightarrow> int set" where
  "blk_bytes b = {snd b ..< snd b + 2 ^ fst b}"

definition blk_valid :: "geometry \<Rightarrow> block \<Rightarrow> bool" where
  "blk_valid G b \<longleftrightarrow> geo_min G \<le> fst b \<and> fst b \<le> geo_top G \<and> 2 ^ fst b dvd snd b \<and>
     geo_base G \<le> snd b \<and> snd b + 2 ^ fst b \<le> geo_base G + geo_size G"

definition lower_half :: "block \<Rightarrow> bool" where
  "lower_half b \<longleftrightarrow> even (snd b div 2 ^ fst b)"

definition buddy :: "block \<Rightarrow> block" where
  "buddy b = (fst b, if lower_half b then snd b + 2 ^ fst b else snd b - 2 ^ fst b)"

definition parent :: "block \<Rightarrow> block" where
  "parent b = (Suc (fst b), if lower_half b then snd b else snd b - 2 ^ fst b)"

definition blk_index :: "geometry \<Rightarrow> block \<Rightarrow> int" where
  "blk_index G b =
     (2 ^ geo_top G + (snd b - geo_base G div 2 ^ (fst b + 1) * 2 ^ (fst b + 1))) div 2 ^ (fst b + 1)"

definition free_bytes :: "block set \<Rightarrow> int set" where
  "free_bytes B = (\<Union>b\<in>B. blk_bytes b)"

definition buddy_ok :: "geometry \<Rightarrow> block set \<Rightarrow> bool" where
  "buddy_ok G B \<longleftrightarrow> (\<forall>b\<in>B. blk_valid G b) \<and>
     (\<forall>b\<in>B. \<forall>c\<in>B. b \<noteq> c \<longrightarrow> blk_bytes b \<inter> blk_bytes c = {}) \<and>
     (\<forall>b\<in>B. buddy b \<notin> B)"

lemma blk_base_in [simp]: "snd b \<in> blk_bytes b"
  by (simp add: blk_bytes_def)

lemma parent_dvd:
  assumes "2 ^ fst b dvd snd b"
  shows "2 ^ fst (parent b) dvd snd (parent b)"
proof -
  obtain q where q: "snd b = 2 ^ fst b * q" using assms by (elim dvdE)
  then have d: "snd b div 2 ^ fst b = q" by simp
  show ?thesis
  proof (cases "even q")
    case True
    then obtain r where "q = 2 * r" by (elim evenE)
    with q d True show ?thesis by (simp add: parent_def lower_half_def)
  next
    case False
    then obtain r where "q = 2 * r + 1" by (elim oddE)
    then have "snd b - 2 ^ fst b = 2 ^ Suc (fst b) * r" using q by (simp add: algebra_simps)
    with False d show ?thesis by (simp add: parent_def lower_half_def)
  qed
qed

lemma parent_div:
  assumes "2 ^ fst b dvd snd b"
  shows "snd b div 2 ^ Suc (fst b) = snd (parent b) div 2 ^ Suc (fst b)"
    "snd (buddy b) div 2 ^ Suc (fst b) = snd (parent b) div 2 ^ Suc (fst b)"
proof -
  define P where "P = (2 :: int) ^ fst b"
  have P: "0 < P" by (simp add: P_def)
  obtain q where q: "snd (parent b) = 2 * P * q"
    using parent_dvd [OF assms] by (auto simp: P_def parent_def elim: dvdE)
  have half: "(2 * P * q + P) div (2 * P) = q"
    using P div_mult_self4 [of "2 * P" q P] by simp
  have "snd b \<in> {2 * P * q, 2 * P * q + P}" "snd (buddy b) \<in> {2 * P * q, 2 * P * q + P}"
    using q by (auto simp: parent_def buddy_def P_def split: if_splits)
  then have "snd b div (2 * P) = q" "snd (buddy b) div (2 * P) = q" using half P by auto
  then show "snd b div 2 ^ Suc (fst b) = snd (parent b) div 2 ^ Suc (fst b)"
    "snd (buddy b) div 2 ^ Suc (fst b) = snd (parent b) div 2 ^ Suc (fst b)"
    using P by (simp_all add: q P_def)
qed

lemma parent_bytes: "blk_bytes (parent b) = blk_bytes b \<union> blk_bytes (buddy b)"
  by (auto simp: blk_bytes_def parent_def buddy_def)

lemma buddy_disjoint: "blk_bytes b \<inter> blk_bytes (buddy b) = {}"
  by (auto simp: blk_bytes_def buddy_def)

lemma fst_buddy [simp]: "fst (buddy b) = fst b"
  by (simp add: buddy_def)

lemma buddy_neq [simp]: "buddy b \<noteq> b" "b \<noteq> buddy b"
  by (auto simp: buddy_def prod_eq_iff)

lemma buddy_lower_half:
  assumes "2 ^ fst b dvd snd b"
  shows "lower_half (buddy b) \<longleftrightarrow> \<not> lower_half b"
proof -
  obtain q where q: "snd b = 2 ^ fst b * q" using assms by (elim dvdE)
  have "snd b + 2 ^ fst b = 2 ^ fst b * (q + 1)" "snd b - 2 ^ fst b = 2 ^ fst b * (q - 1)"
    by (simp_all add: q algebra_simps)
  then have "(snd b + 2 ^ fst b) div 2 ^ fst b = q + 1" "(snd b - 2 ^ fst b) div 2 ^ fst b = q - 1"
    "snd b div 2 ^ fst b = q"
    by (simp_all only: nonzero_mult_div_cancel_left power_not_zero) (simp_all add: q)
  then show ?thesis by (simp add: lower_half_def buddy_def)
qed

lemma buddy_buddy [simp]: "2 ^ fst b dvd snd b \<Longrightarrow> buddy (buddy b) = b"
  using buddy_lower_half [of b] by (auto simp: buddy_def [of "buddy b"]) (auto simp: buddy_def prod_eq_iff)

text \<open>Two aligned blocks of one size in the same parent are equal or buddies.\<close>

lemma same_parent:
  assumes "fst b = fst c" "2 ^ fst b dvd snd b" "2 ^ fst c dvd snd c"
    and "snd b div 2 ^ Suc (fst b) = snd c div 2 ^ Suc (fst c)"
  shows "c = b \<or> c = buddy b"
proof -
  define m where "m = fst b"
  obtain q where q: "snd b = 2 ^ m * q" using assms(2) by (auto simp: m_def elim: dvdE)
  obtain r where r: "snd c = 2 ^ m * r" using assms(1,3) by (auto simp: m_def elim: dvdE)
  have "snd b div 2 ^ Suc m = q div 2" "snd c div 2 ^ Suc m = r div 2"
    by (simp_all add: q r div_mult2_eq mult.commute [of 2])
  with assms(1,4) have eq: "q div 2 = r div 2" by (simp add: m_def)
  have lh: "lower_half b \<longleftrightarrow> even q" by (simp add: lower_half_def q m_def [symmetric])
  have "r = q \<or> even q \<and> r = q + 1 \<or> odd q \<and> r = q - 1" using eq by presburger
  then show ?thesis
    using assms(1) lh by (elim disjE) (auto simp: buddy_def prod_eq_iff q r m_def [symmetric] algebra_simps)
qed

section \<open>Bitmap positions\<close>

lemma geo_okD:
  assumes "geo_ok G"
  shows "4 \<le> geo_min G" "geo_min G \<le> geo_top G" "geo_top G \<le> 48" "geo_size G \<le> 2 ^ geo_top G"
    "geo_base G mod 2 ^ geo_top G < 2 ^ (geo_min G + 1)"
    "- (2 ^ 47) \<le> geo_base G" "geo_base G + geo_size G \<le> 2 ^ 47" "0 < geo_size G"
  using assms by (simp_all add: geo_ok_def)

text \<open>Below the top level the position is the pair's number plus the offset of the field.\<close>

lemma blk_index_below_top:
  assumes "fst b < geo_top G"
  shows "blk_index G b =
    2 ^ (geo_top G - Suc (fst b)) + snd b div 2 ^ Suc (fst b) - geo_base G div 2 ^ Suc (fst b)"
proof -
  define P where "P = (2 :: int) ^ Suc (fst b)"
  have top: "(2 :: int) ^ geo_top G = 2 ^ (geo_top G - Suc (fst b)) * P"
    using assms by (simp add: P_def power_add [symmetric] del: power_Suc)
  have "2 ^ geo_top G + (snd b - geo_base G div P * P) =
      snd b + (2 ^ (geo_top G - Suc (fst b)) - geo_base G div P) * P"
    by (simp add: top algebra_simps)
  moreover have "P \<noteq> 0" by (simp add: P_def)
  ultimately have "(2 ^ geo_top G + (snd b - geo_base G div P * P)) div P =
      2 ^ (geo_top G - Suc (fst b)) - geo_base G div P + snd b div P"
    by (metis div_mult_self1)
  then show ?thesis by (simp add: blk_index_def P_def)
qed

lemma blk_index_ge:
  assumes "fst b < geo_top G" "geo_base G \<le> snd b"
  shows "2 ^ (geo_top G - Suc (fst b)) \<le> blk_index G b"
  using zdiv_mono1 [OF assms(2), of "2 ^ Suc (fst b)"] by (simp add: blk_index_below_top [OF assms(1)])

lemma blk_index_le:
  assumes "fst b < geo_top G" "snd b \<le> geo_base G + 2 ^ geo_top G"
  shows "blk_index G b \<le> 2 ^ (geo_top G - fst b)"
proof -
  define P where "P = (2 :: int) ^ Suc (fst b)"
  define k where "k = geo_top G - Suc (fst b)"
  have top: "(2 :: int) ^ geo_top G = 2 ^ k * P"
    using assms by (simp add: P_def k_def power_add [symmetric] del: power_Suc)
  have "snd b div P \<le> (geo_base G + 2 ^ k * P) div P"
    using assms(2) by (intro zdiv_mono1) (simp_all add: top P_def)
  also have "\<dots> = 2 ^ k + geo_base G div P" by (simp add: P_def)
  finally have "blk_index G b \<le> 2 ^ k + 2 ^ k"
    unfolding blk_index_below_top [OF assms(1)] P_def [symmetric] k_def [symmetric] by simp
  also have "\<dots> = 2 ^ Suc k" by simp
  also have "Suc k = geo_top G - fst b" using assms by (simp add: k_def)
  finally show ?thesis .
qed

text \<open>Above the smallest size, the field of a granularity is not left.\<close>

lemma blk_index_less:
  assumes G: "geo_ok G" and b: "blk_valid G b" "geo_min G < fst b" "fst b < geo_top G"
  shows "blk_index G b < 2 ^ (geo_top G - fst b)"
proof -
  define P where "P = (2 :: int) ^ Suc (fst b)"
  define k where "k = geo_top G - Suc (fst b)"
  define q r where "q = geo_base G div 2 ^ geo_top G" and "r = geo_base G mod 2 ^ geo_top G"
  have top: "(2 :: int) ^ geo_top G = 2 ^ k * P"
    using b by (simp add: P_def k_def power_add [symmetric] del: power_Suc)
  have P: "0 < P" by (simp add: P_def)
  have base: "geo_base G = q * (2 ^ k * P) + r"
    by (simp only: q_def r_def top [symmetric] div_mult_mod_eq)
  have r: "0 \<le> r" "r < 2 ^ Suc (geo_min G)" using geo_okD(5) [OF G] by (simp_all add: r_def)
  have "(2 :: int) ^ Suc (geo_min G) \<le> 2 ^ fst b" using b by (intro power_increasing) auto
  with r have rb: "r < 2 ^ fst b" by linarith
  moreover have "0 < (2 :: int) ^ fst b" by simp
  ultimately have "r < P" unfolding P_def power_Suc by linarith
  then have bdiv: "geo_base G div P = q * 2 ^ k"
    using r P by (simp add: base mult.assoc [symmetric] div_pos_pos_trivial)
  have "snd b < (q * 2 ^ k + 2 ^ k) * P"
    using b(1) geo_okD(4) [OF G] rb unfolding blk_valid_def base top by (simp add: algebra_simps)
  then have "snd b div P < q * 2 ^ k + 2 ^ k" using P by (rule int_div_less)
  then have "blk_index G b < 2 ^ k + 2 ^ k"
    unfolding blk_index_below_top [OF b(3)] P_def [symmetric] k_def [symmetric] by (simp add: bdiv)
  also have "\<dots> = 2 ^ Suc k" by simp
  also have "Suc k = geo_top G - fst b" using b by (simp add: k_def)
  finally show ?thesis .
qed

lemma top_block:
  assumes "geo_ok G" "blk_valid G b" "fst b = geo_top G"
  shows "snd b = geo_base G" "geo_size G = 2 ^ geo_top G" "blk_index G b = 0 \<or> blk_index G b = 1"
proof -
  show base: "snd b = geo_base G" and "geo_size G = 2 ^ geo_top G"
    using assms geo_okD(4) [OF assms(1)] by (auto simp: blk_valid_def)
  define P where "P = (2 :: int) ^ geo_top G"
  have P: "0 < P" by (simp add: P_def)
  define r where "r = geo_base G mod (2 * P)"
  have r: "0 \<le> r" "r < 2 * P" using P by (simp_all add: r_def)
  have "blk_index G b = (P + r) div (2 * P)"
    by (simp add: blk_index_def base assms(3) P_def [symmetric] r_def minus_mult_div_eq_mod mult.commute)
  moreover have "(P + r) div (2 * P) \<in> {0, 1}"
  proof (cases "P + r < 2 * P")
    case True
    then show ?thesis using r P by (simp add: div_pos_pos_trivial)
  next
    case False
    then have "(P + r) div (2 * P) = 1 + (P + r - 2 * P) div (2 * P)"
      using P div_add_self1 [of "2 * P" "P + r - 2 * P"] by simp
    then show ?thesis using r P False by (simp add: div_pos_pos_trivial)
  qed
  ultimately show "blk_index G b = 0 \<or> blk_index G b = 1" by simp
qed

lemma buddy_below_top:
  assumes "geo_ok G" "blk_valid G b" "blk_valid G (buddy b)"
  shows "fst b < geo_top G"
proof (rule ccontr)
  assume "\<not> fst b < geo_top G"
  then have "fst b = geo_top G" using assms(2) by (simp add: blk_valid_def)
  then have "snd (buddy b) = snd b" using top_block(1) assms by auto
  moreover have "(0 :: int) < 2 ^ fst b" by simp
  ultimately show False by (simp add: buddy_def split: if_splits)
qed

lemma blk_index_buddy:
  assumes "geo_ok G" "blk_valid G b" "blk_valid G (buddy b)"
  shows "blk_index G (buddy b) = blk_index G b"
proof -
  have lt: "fst b < geo_top G" by (rule buddy_below_top [OF assms])
  have "2 ^ fst b dvd snd b" using assms(2) by (simp add: blk_valid_def)
  then have "snd (buddy b) div 2 ^ Suc (fst b) = snd b div 2 ^ Suc (fst b)" by (simp only: parent_div)
  then show ?thesis using lt by (simp add: blk_index_below_top)
qed

text \<open>Every position is a bit of the bitmap.\<close>

lemma blk_index_range:
  assumes G: "geo_ok G" and b: "blk_valid G b"
  shows "0 \<le> blk_index G b" "blk_index G b < 2 ^ (geo_top G - geo_min G + 1)"
proof -
  have "0 \<le> blk_index G b \<and> blk_index G b \<le> 2 ^ (geo_top G - geo_min G)"
  proof (cases "fst b = geo_top G")
    case True
    moreover have "(1 :: int) \<le> 2 ^ (geo_top G - geo_min G)" by simp
    ultimately show ?thesis using top_block(3) [OF G b] by auto
  next
    case False
    then have lt: "fst b < geo_top G" using b by (simp add: blk_valid_def)
    have "snd b \<le> geo_base G + 2 ^ geo_top G"
      using b geo_okD(4) [OF G] zero_le_power [of "2 :: int" "fst b"] unfolding blk_valid_def by linarith
    then have "blk_index G b \<le> 2 ^ (geo_top G - fst b)" by (rule blk_index_le [OF lt])
    also have "\<dots> \<le> 2 ^ (geo_top G - geo_min G)"
      using b by (intro power_increasing) (auto simp: blk_valid_def)
    finally have "blk_index G b \<le> 2 ^ (geo_top G - geo_min G)" .
    moreover have "(0 :: int) < 2 ^ (geo_top G - Suc (fst b))" by simp
    ultimately show ?thesis using blk_index_ge [OF lt] b unfolding blk_valid_def by linarith
  qed
  moreover have "(2 :: int) ^ (geo_top G - geo_min G) < 2 ^ (geo_top G - geo_min G + 1)" by simp
  ultimately show "0 \<le> blk_index G b" "blk_index G b < 2 ^ (geo_top G - geo_min G + 1)" by linarith+
qed

text \<open>
  Equal positions: the blocks are equal or buddies, or one of them is the whole arena and contains
  the other.
\<close>

lemma blk_index_levels:
  assumes G: "geo_ok G" and b: "blk_valid G b" "blk_valid G c"
    and eq: "blk_index G b = blk_index G c" and lt: "fst b < fst c"
  shows "blk_bytes b \<subseteq> blk_bytes c"
proof (cases "fst c = geo_top G")
  case True
  then show ?thesis
    using b top_block(1,2) [OF G b(2) True] by (auto simp: blk_bytes_def blk_valid_def)
next
  case False
  then have c: "geo_min G < fst c" "fst c < geo_top G" "fst b < geo_top G"
    using b lt by (auto simp: blk_valid_def)
  have "blk_index G c < 2 ^ (geo_top G - fst c)" by (rule blk_index_less [OF G b(2) c(1,2)])
  also have "\<dots> \<le> 2 ^ (geo_top G - Suc (fst b))" using lt by (intro power_increasing) auto
  also have "\<dots> \<le> blk_index G b" using b(1) by (intro blk_index_ge c) (simp add: blk_valid_def)
  finally show ?thesis using eq by simp
qed

lemma blk_index_eq:
  assumes G: "geo_ok G" and b: "blk_valid G b" "blk_valid G c" and eq: "blk_index G b = blk_index G c"
  shows "c = b \<or> c = buddy b \<or> blk_bytes b \<subseteq> blk_bytes c \<or> blk_bytes c \<subseteq> blk_bytes b"
proof (cases "fst b = fst c")
  case True
  show ?thesis
  proof (cases "fst b = geo_top G")
    case True
    then have "snd c = snd b" using top_block(1) [OF G] b \<open>fst b = fst c\<close> by auto
    then show ?thesis using \<open>fst b = fst c\<close> by (simp add: prod_eq_iff)
  next
    case False
    then have "fst b < geo_top G" using b by (simp add: blk_valid_def)
    then have "snd b div 2 ^ Suc (fst b) = snd c div 2 ^ Suc (fst c)"
      using eq True by (simp add: blk_index_below_top)
    then show ?thesis using same_parent [OF True] b by (auto simp: blk_valid_def)
  qed
next
  case False
  then show ?thesis
    using blk_index_levels [OF G b eq] blk_index_levels [OF G b(2,1) eq [symmetric]] by linarith
qed

section \<open>Sets of free blocks\<close>

lemma buddy_okD:
  assumes "buddy_ok G B"
  shows "b \<in> B \<Longrightarrow> blk_valid G b"
    "b \<in> B \<Longrightarrow> c \<in> B \<Longrightarrow> b \<noteq> c \<Longrightarrow> blk_bytes b \<inter> blk_bytes c = {}"
    "b \<in> B \<Longrightarrow> buddy b \<notin> B"
  using assms unfolding buddy_ok_def by blast+

lemma blk_bytes_nonempty [simp]: "blk_bytes b \<noteq> {}"
  using blk_base_in [of b] by blast

lemma blk_index_unique:
  assumes G: "geo_ok G" and B: "buddy_ok G B" and b: "b \<in> B" "c \<in> B" "blk_index G b = blk_index G c"
  shows "b = c"
proof (rule ccontr)
  assume "b \<noteq> c"
  then have disj: "blk_bytes b \<inter> blk_bytes c = {}" using buddy_okD(2) [OF B b(1,2)] by simp
  have "c = b \<or> c = buddy b \<or> blk_bytes b \<subseteq> blk_bytes c \<or> blk_bytes c \<subseteq> blk_bytes b"
    using buddy_okD(1) [OF B] b by (intro blk_index_eq [OF G]) auto
  then show False
    using \<open>b \<noteq> c\<close> disj buddy_okD(3) [OF B b(1)] b(2) blk_bytes_nonempty [of b] blk_bytes_nonempty [of c]
    by (elim disjE) blast+
qed

text \<open>The bit of a block that is not free tells whether its buddy is free.\<close>

lemma blk_index_tells_buddy:
  assumes G: "geo_ok G" and B: "buddy_ok G B"
    and b: "blk_valid G b" "blk_bytes b \<inter> free_bytes B = {}"
  shows "(\<exists>c\<in>B. blk_index G c = blk_index G b) \<longleftrightarrow> buddy b \<in> B"
proof
  assume "\<exists>c\<in>B. blk_index G c = blk_index G b"
  then obtain c where c: "c \<in> B" "blk_index G c = blk_index G b" by blast
  have disj: "blk_bytes b \<inter> blk_bytes c = {}" using b(2) c(1) by (auto simp: free_bytes_def)
  have "c = b \<or> c = buddy b \<or> blk_bytes b \<subseteq> blk_bytes c \<or> blk_bytes c \<subseteq> blk_bytes b"
    using buddy_okD(1) [OF B c(1)] c(2) by (intro blk_index_eq [OF G b(1)]) auto
  then show "buddy b \<in> B"
    using disj c(1) blk_bytes_nonempty [of b] blk_bytes_nonempty [of c] by (elim disjE) blast+
next
  assume bb: "buddy b \<in> B"
  then have v: "blk_valid G (buddy b)" by (rule buddy_okD(1) [OF B])
  have "blk_index G (buddy b) = blk_index G b" by (rule blk_index_buddy [OF G b(1) v])
  with bb show "\<exists>c\<in>B. blk_index G c = blk_index G b" by blast
qed

lemma buddy_ok_insert:
  assumes B: "buddy_ok G B" and b: "blk_valid G b" "blk_bytes b \<inter> free_bytes B = {}" "buddy b \<notin> B"
  shows "buddy_ok G (insert b B)"
proof -
  have d: "2 ^ fst b dvd snd b" using b by (simp add: blk_valid_def)
  have "buddy c \<noteq> b" if "c \<in> B" for c
  proof
    assume "buddy c = b"
    then have "buddy b = c" using buddy_okD(1) [OF B that] buddy_buddy [of c] by (auto simp: blk_valid_def)
    with b(3) that show False by simp
  qed
  then show ?thesis using B b unfolding buddy_ok_def free_bytes_def by fastforce
qed

lemma buddy_ok_remove: "buddy_ok G B \<Longrightarrow> buddy_ok G (B - {b})"
  unfolding buddy_ok_def by blast

lemma free_bytes_insert: "free_bytes (insert b B) = free_bytes B \<union> blk_bytes b"
  by (auto simp: free_bytes_def)

lemma free_bytes_remove:
  assumes "buddy_ok G B" "b \<in> B"
  shows "free_bytes (B - {b}) = free_bytes B - blk_bytes b"
  using buddy_okD(2) [OF assms(1)] assms(2) unfolding free_bytes_def by blast

lemma free_bytes_empty [simp]: "free_bytes {} = {}"
  by (simp add: free_bytes_def)

text \<open>Merging a block with its free buddy.\<close>

lemma parent_valid:
  assumes G: "geo_ok G" and B: "buddy_ok G B" and b: "blk_valid G b" "blk_bytes b \<inter> free_bytes B = {}"
    and bb: "buddy b \<in> B"
  shows "blk_valid G (parent b)" "blk_bytes (parent b) \<inter> free_bytes (B - {buddy b}) = {}"
    "free_bytes (B - {buddy b}) \<union> blk_bytes (parent b) = free_bytes B \<union> blk_bytes b"
    "fst b < geo_top G"
proof -
  note v = buddy_okD(1) [OF B bb]
  show lt: "fst b < geo_top G" by (rule buddy_below_top [OF G b(1) v])
  show "blk_valid G (parent b)"
    using b(1) v lt parent_dvd [of b] by (auto simp: blk_valid_def parent_def buddy_def split: if_splits)
  have sub: "blk_bytes (buddy b) \<subseteq> free_bytes B" using bb by (auto simp: free_bytes_def)
  show "blk_bytes (parent b) \<inter> free_bytes (B - {buddy b}) = {}"
    "free_bytes (B - {buddy b}) \<union> blk_bytes (parent b) = free_bytes B \<union> blk_bytes b"
    unfolding free_bytes_remove [OF B bb] parent_bytes using b(2) sub by blast+
qed

text \<open>Splitting: the upper half of a block.\<close>

definition upper_child :: "block \<Rightarrow> block" where
  "upper_child b = (fst b - 1, snd b + 2 ^ (fst b - 1))"

definition lower_child :: "block \<Rightarrow> block" where
  "lower_child b = (fst b - 1, snd b)"

lemma children:
  assumes "2 ^ fst b dvd snd b" "0 < fst b"
  shows "blk_bytes b = blk_bytes (lower_child b) \<union> blk_bytes (upper_child b)"
    "blk_bytes (lower_child b) \<inter> blk_bytes (upper_child b) = {}"
    "buddy (upper_child b) = lower_child b"
    "2 ^ fst (upper_child b) dvd snd (upper_child b)" "2 ^ fst (lower_child b) dvd snd (lower_child b)"
proof -
  obtain m where m: "fst b = Suc m" using assms(2) by (cases "fst b") auto
  obtain q where q: "snd b = 2 ^ Suc m * q" using assms(1) m by (auto elim: dvdE)
  have up: "snd b + 2 ^ m = 2 ^ m * (2 * q + 1)" by (simp add: q algebra_simps)
  show "blk_bytes b = blk_bytes (lower_child b) \<union> blk_bytes (upper_child b)"
    "blk_bytes (lower_child b) \<inter> blk_bytes (upper_child b) = {}"
    by (auto simp: blk_bytes_def lower_child_def upper_child_def m)
  have "\<not> lower_half (upper_child b)"
    unfolding lower_half_def upper_child_def m by (simp add: up)
  then show "buddy (upper_child b) = lower_child b"
    by (simp add: buddy_def) (simp add: upper_child_def lower_child_def m)
  show "2 ^ fst (upper_child b) dvd snd (upper_child b)" "2 ^ fst (lower_child b) dvd snd (lower_child b)"
    by (simp_all add: upper_child_def lower_child_def m up q)
qed

lemma children_valid:
  assumes "blk_valid G b" "geo_min G < fst b"
  shows "blk_valid G (upper_child b)" "blk_valid G (lower_child b)"
proof -
  obtain m where m: "fst b = Suc m" using assms(2) by (cases "fst b") auto
  define P where "P = (2 :: int) ^ m"
  have P: "0 < P" by (simp add: P_def)
  have d: "2 ^ fst b dvd snd b" using assms(1) by (simp add: blk_valid_def)
  note ch = children(4,5) [OF d]
  show "blk_valid G (upper_child b)" "blk_valid G (lower_child b)"
    using assms P ch m unfolding blk_valid_def
    by (simp_all add: upper_child_def lower_child_def P_def [symmetric])
qed

section \<open>Free bytes and free blocks\<close>

text \<open>Of two aligned blocks that overlap, the larger contains the smaller.\<close>

lemma aligned_nested:
  assumes "(2 :: int) ^ m dvd x" "2 ^ n dvd y" "m \<le> n" "b \<in> {x..<x + 2 ^ m}" "b \<in> {y..<y + 2 ^ n}"
  shows "{x..<x + 2 ^ m} \<subseteq> {y..<y + 2 ^ n}"
proof -
  obtain q where q: "x = 2 ^ m * q" using assms(1) by (elim dvdE)
  have "(2 :: int) ^ m dvd 2 ^ n" using assms(3) by (rule le_imp_power_dvd)
  then obtain k where k: "(2 :: int) ^ n = 2 ^ m * k" by (elim dvdE)
  then obtain r where r: "y = 2 ^ m * r" using assms(2) by (metis dvd_def mult.assoc)
  have "2 ^ m * q < 2 ^ m * (r + k)" "2 ^ m * r < 2 ^ m * (q + 1)"
    using assms(4,5) by (simp_all add: q r k distrib_left)
  then have "q < r + k" "r < q + 1" by simp_all
  then have "2 ^ m * (q + 1) \<le> 2 ^ m * (r + k)" "2 ^ m * r \<le> 2 ^ m * q" by (intro mult_left_mono; simp)+
  then show ?thesis by (auto simp: q r k distrib_left)
qed

text \<open>
  Because free buddies are always merged, an aligned range of free bytes lies within a single free block.
\<close>

lemma buddy_ok_covers:
  assumes ok: "buddy_ok G B" and "geo_min G \<le> n" "2 ^ n dvd x" "{x..<x + 2 ^ n} \<subseteq> free_bytes B"
  shows "\<exists>c\<in>B. {x..<x + 2 ^ n} \<subseteq> blk_bytes c"
  using assms(2-4)
proof (induction n arbitrary: x rule: nat_induct_at_least)
  case base
  then have "x \<in> free_bytes B" by auto
  then obtain c where c: "c \<in> B" "x \<in> blk_bytes c" by (auto simp: free_bytes_def)
  then have "geo_min G \<le> fst c" "2 ^ fst c dvd snd c" using ok by (auto simp: buddy_ok_def blk_valid_def)
  then show ?case using c base.prems(1) aligned_nested [of "geo_min G" x "fst c" "snd c" x] by (auto simp: blk_bytes_def)
next
  case (Suc n)
  have d: "2 ^ n dvd x" "2 ^ n dvd x + 2 ^ n" using Suc.prems(1) by (auto elim: dvd_trans [rotated])
  have lo: "{x..<x + 2 ^ n} \<subseteq> {x..<x + 2 ^ Suc n}" and hi: "{x + 2 ^ n..<x + 2 ^ n + 2 ^ n} \<subseteq> {x..<x + 2 ^ Suc n}" by auto
  obtain c where c: "c \<in> B" "{x..<x + 2 ^ n} \<subseteq> blk_bytes c" using Suc.IH [OF d(1)] lo Suc.prems(2) by blast
  obtain c' where c': "c' \<in> B" "{x + 2 ^ n..<x + 2 ^ n + 2 ^ n} \<subseteq> blk_bytes c'" using Suc.IH [OF d(2)] hi Suc.prems(2) by blast
  have al: "2 ^ fst b dvd snd b" if "b \<in> B" for b using that ok by (auto simp: buddy_ok_def blk_valid_def)
  have big: "{x..<x + 2 ^ Suc n} \<subseteq> blk_bytes b" if "b \<in> B" "n < fst b" "y \<in> {x..<x + 2 ^ Suc n}" "y \<in> blk_bytes b" for b y
    using aligned_nested [OF Suc.prems(1) al [OF that(1)], of y] that by (auto simp: blk_bytes_def)
  have same: "n < fst b \<or> b = (n, y)" if "b \<in> B" "{y..<y + 2 ^ n} \<subseteq> blk_bytes b" for b y
  proof -
    have "{y..<y + 2 ^ n} \<subseteq> {snd b..<snd b + 2 ^ fst b}" using that(2) by (simp add: blk_bytes_def)
    then have le: "snd b \<le> y" "y + 2 ^ n \<le> snd b + 2 ^ fst b" by (simp_all add: ivl_subset)
    then have "(2 :: int) ^ n \<le> 2 ^ fst b" by linarith
    then have "n \<le> fst b" by (simp add: power_le_imp_le_exp)
    then show ?thesis using le by (cases b) auto
  qed
  show ?case
  proof (cases "n < fst c \<or> n < fst c'")
    case True
    moreover have "x \<in> blk_bytes c" "x + 2 ^ n \<in> blk_bytes c'" using c(2) c'(2) by auto
    ultimately show ?thesis using big [of c x] big [of c' "x + 2 ^ n"] c(1) c'(1) by auto
  next
    case False
    then have "c = (n, x)" "c' = (n, x + 2 ^ n)" using same [OF c] same [OF c'] by auto
    moreover have "even (x div 2 ^ n)" using Suc.prems(1) by (auto elim!: dvdE simp: mult.assoc)
    ultimately have "buddy c = c'" by (simp add: buddy_def lower_half_def)
    then show ?thesis using ok c(1) c'(1) by (auto simp: buddy_ok_def)
  qed
qed

end
