(* ===== verification/Talloc_Inv.thy ===== *)
theory Talloc_Inv
  imports Talloc Buddy
begin

text \<open>
  The invariant of the allocator and what its primitive steps do to it. \<open>talloc_inv t F\<close>
  relates the state \<open>t\<close> to the contents \<open>F g\<close> of its free lists: the lists are linked
  behind their sentinels, the availability word and the bitmap agree with them, and the blocks they
  hold are a \<open>buddy_ok\<close> set of blocks that avoids the allocator's own data and the null address.
  The machine-word computations of granularity and bitmap offset are shown to be the arithmetic of
  the theory on buddies.
\<close>

section \<open>Abstraction\<close>

definition talloc_geo :: "talloc \<Rightarrow> geometry" where
  "talloc_geo t = \<lparr>geo_base = sint (arena_base t), geo_size = uint (arena_size t),
     geo_top = fast_non0_log2 (arena_size_pow2 t), geo_min = fast_non0_log2 (smlst_block t)\<rparr>"

definition list_blocks :: "nat \<Rightarrow> nat \<Rightarrow> (nat \<Rightarrow> ptr list) \<Rightarrow> block set" where
  "list_blocks K N F = {(K - g, sint p) | g p. g < N \<and> p \<in> set (F g)}"

abbreviation talloc_blocks :: "talloc \<Rightarrow> (nat \<Rightarrow> ptr list) \<Rightarrow> block set" where
  "talloc_blocks t F \<equiv> list_blocks (geo_top (talloc_geo t)) (llists_len t) F"

text \<open>The memory that holds the sentinels and the bitmap.\<close>

definition status_bytes :: "talloc \<Rightarrow> int set" where
  "status_bytes t = {sint (llists_ptr t) ..< sint (llists_ptr t) + 16 * int (llists_len t)} \<union>
     {sint (bitmap_ptr t) ..< sint (bitmap_ptr t) + int (length (bitmap t))}"

text \<open>What does not change while the arena stays the same.\<close>

definition talloc_frame :: "talloc \<Rightarrow> bool" where
  "talloc_frame t \<longleftrightarrow> geo_ok (talloc_geo t) \<and>
     arena_size_pow2 t = 2 ^ geo_top (talloc_geo t) \<and> smlst_block t = 2 ^ geo_min (talloc_geo t) \<and>
     llists_len t = geo_top (talloc_geo t) - geo_min (talloc_geo t) + 1 \<and>
     2 ^ llists_len t \<le> 8 * length (bitmap t) \<and>
     - (2 ^ 47) \<le> sint (llists_ptr t) \<and> sint (llists_ptr t) + 16 * int (llists_len t) \<le> 2 ^ 47"

definition talloc_inv :: "talloc \<Rightarrow> (nat \<Rightarrow> ptr list) \<Rightarrow> bool" where
  "talloc_inv t F \<longleftrightarrow> talloc_frame t \<and>
     list_family dllist (nodes t) (llists_len t) (sentinel t) F \<and>
     (\<forall>g<64. bit (avails t) g \<longleftrightarrow> g < llists_len t \<and> F g \<noteq> []) \<and>
     (\<forall>i<8 * length (bitmap t). slice_bit (bitmap t) i \<longleftrightarrow>
        (\<exists>b\<in>talloc_blocks t F. blk_index (talloc_geo t) b = int i)) \<and>
     buddy_ok (talloc_geo t) (talloc_blocks t F) \<and>
     free_bytes (talloc_blocks t F) \<inter> status_bytes t = {} \<and> 0 \<notin> free_bytes (talloc_blocks t F)"

text \<open>\<open>t'\<close> has the arena and the status memory of \<open>t\<close>.\<close>

definition same_arena :: "talloc \<Rightarrow> talloc \<Rightarrow> bool" where
  "same_arena t t' \<longleftrightarrow> arena_base t' = arena_base t \<and> arena_size t' = arena_size t \<and>
     arena_size_pow2 t' = arena_size_pow2 t \<and> smlst_block t' = smlst_block t \<and>
     llists_ptr t' = llists_ptr t \<and> llists_len t' = llists_len t \<and> bitmap_ptr t' = bitmap_ptr t \<and>
     length (bitmap t') = length (bitmap t)"

lemma same_arena_refl [simp]: "same_arena t t"
  by (simp add: same_arena_def)

lemma same_arena_trans: "same_arena t t' \<Longrightarrow> same_arena t' t'' \<Longrightarrow> same_arena t t''"
  by (simp add: same_arena_def)

lemma same_arenaD:
  assumes "same_arena t t'"
  shows "talloc_geo t' = talloc_geo t" "llists_len t' = llists_len t" "sentinel t' = sentinel t"
    "status_bytes t' = status_bytes t" "talloc_frame t' = talloc_frame t"
    "length (bitmap t') = length (bitmap t)"
proof -
  show geo: "talloc_geo t' = talloc_geo t" "llists_len t' = llists_len t" "status_bytes t' = status_bytes t"
    "length (bitmap t') = length (bitmap t)"
    using assms by (simp_all add: same_arena_def talloc_geo_def status_bytes_def)
  show "sentinel t' = sentinel t" using assms by (auto simp: same_arena_def sentinel_def fun_eq_iff)
  show "talloc_frame t' = talloc_frame t" using assms geo by (simp add: talloc_frame_def same_arena_def)
qed

section \<open>The frame in machine arithmetic\<close>

lemma frame_geo: "talloc_frame t \<Longrightarrow> geo_ok (talloc_geo t)"
  by (simp add: talloc_frame_def)

lemma frame_len: "talloc_frame t \<Longrightarrow> llists_len t \<le> 45"
  using geo_okD(1-3) [of "talloc_geo t"] by (simp add: talloc_frame_def)

lemma frame_level:
  "talloc_frame t \<Longrightarrow> blk_valid (talloc_geo t) b \<Longrightarrow>
   fst b \<le> 48 \<and> geo_top (talloc_geo t) - fst b < llists_len t"
  using geo_okD(1-3) [of "talloc_geo t"] by (auto simp: talloc_frame_def blk_valid_def)

text \<open>Canonical addresses.\<close>

lemma valid_range:
  assumes "talloc_frame t" "blk_valid (talloc_geo t) b"
  shows "- (2 ^ 47) \<le> snd b" "snd b + 2 ^ fst b \<le> 2 ^ 47" "0 < (2 :: int) ^ fst b" "(2 :: int) ^ fst b \<le> 2 ^ 48"
proof -
  note G = geo_okD(6,7) [OF frame_geo [OF assms(1)]]
  show "- (2 ^ 47) \<le> snd b" "snd b + 2 ^ fst b \<le> 2 ^ 47"
    using G assms(2) by (simp_all add: blk_valid_def)
  show "0 < (2 :: int) ^ fst b" by simp
  show "(2 :: int) ^ fst b \<le> 2 ^ 48"
    using frame_level [OF assms] by (intro power_increasing) auto
qed

lemma block_granularity_level:
  assumes "talloc_frame t" "m \<le> geo_top (talloc_geo t)"
  shows "block_granularity t (2 ^ m) = Some (geo_top (talloc_geo t) - m)"
proof -
  define K where "K = geo_top (talloc_geo t)"
  have "arena_size_pow2 t = 2 ^ K" "K \<le> 48" "m \<le> K"
    using assms geo_okD(3) [OF frame_geo [OF assms(1)]] by (auto simp: talloc_frame_def K_def)
  then show ?thesis
    unfolding K_def [symmetric] by (simp add: block_granularity_def leading_zeros_pow2)
qed

lemma block_granularity_eq:
  "talloc_frame t \<Longrightarrow> blk_valid (talloc_geo t) (m, x) \<Longrightarrow>
   block_granularity t (2 ^ m) = Some (geo_top (talloc_geo t) - m)"
  by (rule block_granularity_level) (simp_all add: blk_valid_def)

lemma bitmap_offset_eq:
  assumes fr: "talloc_frame t" and v: "blk_valid (talloc_geo t) (m, sint p)"
  obtains w where "bitmap_offset t p (2 ^ m) = Some w" "uint w = blk_index (talloc_geo t) (m, sint p)"
proof -
  define a where "a = sint (arena_base t)"
  define K where "K = geo_top (talloc_geo t)"
  define P where "P = (2 :: int) ^ Suc m"
  have G: "- (2 ^ 47) \<le> a" "K \<le> 48" "arena_size_pow2 t = 2 ^ K"
    using geo_okD [OF frame_geo [OF fr]] fr by (auto simp: a_def K_def talloc_geo_def talloc_frame_def)
  have m: "m \<le> 48" using frame_level [OF fr v] by simp
  have P: "0 < P" "P \<le> 2 ^ 49" using m power_increasing [of "Suc m" 49 "2 :: int"] by (auto simp: P_def)
  have x: "a \<le> sint p" using v by (simp add: blk_valid_def a_def talloc_geo_def)
  have x': "sint p < 2 ^ 47" using valid_range(2,3) [OF fr v] by (simp only: fst_conv snd_conv)
  have two: "push_bit 1 (2 ^ m :: usize) = 2 ^ Suc m" by (simp add: push_bit_eq_mult)
  have "sint (1 :: 64 word) = 1" by simp
  have low: "checked_ssub (push_bit 1 (2 ^ m :: usize)) 1 = Some (mask (Suc m))"
  proof -
    have "sint (2 ^ Suc m :: usize) = P" unfolding P_def using m by (intro sint_pow2) simp
    then have "checked_ssub (2 ^ Suc m :: usize) 1 = Some (2 ^ Suc m - 1)"
      using P by (intro checked_ssub_Some) (simp_all only: \<open>sint (1 :: 64 word) = 1\<close>, simp_all)
    then show ?thesis by (simp only: two mask_eq_exp_minus_1)
  qed
  define al where "al = arena_base t AND NOT (mask (Suc m))"
  have al: "sint al = a div P * P"
    unfolding al_def a_def P_def using m by (intro sint_align) simp
  have "a div P * P = a - a mod P" by (simp add: minus_mod_eq_div_mult)
  then have alb: "a - P \<le> sint al" "sint al \<le> a"
    using pos_mod_sign [OF P(1), of a] pos_mod_bound [OF P(1), of a] unfolding al by linarith+
  have fo: "sint (p - al) = sint p - sint al"
    using x x' G P alb by (intro sint_sub_eq) simp_all
  have fo': "checked_ssub p al = Some (p - al)"
    using x x' G P alb by (subst checked_ssub_Some) simp_all
  have ufo: "uint (p - al) = sint p - sint al"
    using uint_eq_sint [of "p - al"] fo alb x by simp
  have uK: "uint (2 ^ K :: usize) = 2 ^ K" "(2 :: int) ^ K \<le> 2 ^ 48"
    using G power_increasing [of K 48 "2 :: int"] by (simp_all add: uint_pow2)
  have sum: "uint ((2 :: usize) ^ K) + uint (p - al) < 2 ^ 64"
    unfolding ufo uK(1) using uK(2) x x' G P alb by simp
  then have add: "checked_add (2 ^ K) (p - al) = Some (2 ^ K + (p - al))"
    by (simp add: checked_add_code)
  have usum: "uint ((2 :: usize) ^ K + (p - al)) = 2 ^ K + (sint p - sint al)"
    using sum uint_plus_simple_iff [of "(2 :: usize) ^ K" "p - al"] ufo uK(1)
    by (simp add: uint_word_ariths take_bit_int_eq_self take_bit_eq_mod)
  define w where "w = drop_bit (m + 1) ((2 :: usize) ^ K + (p - al))"
  have "bitmap_offset t p (2 ^ m) = Some w"
    using m unfolding bitmap_offset_def low by (simp add: Let_def al_def [symmetric] fo' G add checked_shr_def w_def)
  moreover have "uint w = blk_index (talloc_geo t) (m, sint p)"
    unfolding w_def uint_drop_bit usum al blk_index_def
    by (simp add: P_def K_def a_def talloc_geo_def)
  ultimately show ?thesis by (rule that)
qed

section \<open>Flags\<close>

definition toggle_bit :: "u8 list \<Rightarrow> nat \<Rightarrow> u8 list" where
  "toggle_bit bm i = bm[i div 8 := bm ! (i div 8) XOR push_bit (i mod 8) 1]"

lemma length_toggle_bit [simp]: "length (toggle_bit bm i) = length bm"
  by (simp add: toggle_bit_def)

lemma slice_bit_toggle:
  assumes "i < 8 * length bm" "j < 8 * length bm"
  shows "slice_bit (toggle_bit bm i) j \<longleftrightarrow> (if j = i then \<not> slice_bit bm i else slice_bit bm j)"
proof (cases "j div 8 = i div 8")
  case True
  then have "j = i \<longleftrightarrow> j mod 8 = i mod 8"
    using div_mult_mod_eq [of i 8] div_mult_mod_eq [of j 8] by auto
  then show ?thesis
    using True assms by (auto simp: slice_bit_def toggle_bit_def bit_simps less_mult_imp_div_less mult.commute)
next
  case False
  then show ?thesis by (auto simp: slice_bit_def toggle_bit_def)
qed

lemma offset_parts:
  "unat (drop_bit 3 (w :: usize)) = unat w div 8" "unat (w AND 7) = unat w mod 8"
proof -
  show "unat (drop_bit 3 w) = unat w div 8"
    using arg_cong [OF uint_drop_bit [of 3 w], of nat] by (simp add: nat_div_distrib)
  have "w AND 7 = take_bit 3 w"
    by (simp add: take_bit_eq_mask mask_eq_exp_minus_1)
  then show "unat (w AND 7) = unat w mod 8"
    using unsigned_take_bit_eq [of 3 w, where 'a = nat] by (simp only: take_bit_eq_mod) simp
qed

lemma offset_in: "i < 8 * length bm \<Longrightarrow> i div 8 < length bm" for i :: nat
  by (simp add: less_mult_imp_div_less mult.commute)

lemma read_bitflag_eq:
  "unat w < 8 * length (bitmap t) \<Longrightarrow> read_bitflag t w = Some (slice_bit (bitmap t) (unat w))"
  using offset_in [of "unat w" "bitmap t"]
  by (simp add: read_bitflag_def Let_def offset_parts slice_bit_def bit_iff_and_push_bit_not_eq_0)

lemma toggle_bitflag_eq:
  "unat w < 8 * length (bitmap t) \<Longrightarrow> toggle_bitflag t w = Some (t\<lparr>bitmap := toggle_bit (bitmap t) (unat w)\<rparr>)"
  using offset_in [of "unat w" "bitmap t"]
  by (simp add: toggle_bitflag_def Let_def offset_parts toggle_bit_def)

section \<open>Free lists and blocks\<close>

lemma list_blocks_push:
  "g < N \<Longrightarrow> list_blocks K N (F(g := p # F g)) = insert (K - g, sint p) (list_blocks K N F)"
  by (auto simp: list_blocks_def)

lemma list_blocks_del:
  assumes "g < N" "N \<le> Suc K" "distinct (F g)"
  shows "list_blocks K N (F(g := remove1 p (F g))) = list_blocks K N F - {(K - g, sint p)}"
proof -
  have inj: "h < N \<Longrightarrow> K - h = K - g \<Longrightarrow> h = g" for h using assms(1,2) by linarith
  show ?thesis
    using assms(1,3) by (auto simp: list_blocks_def dest: inj split: if_splits)
qed

lemma list_blocks_mem:
  assumes "(m, x) \<in> list_blocks K N F" "N \<le> Suc K"
  obtains p where "p \<in> set (F (K - m))" "x = sint p" "K - m < N"
proof -
  from assms obtain g p where gp: "m = K - g" "x = sint p" "g < N" "p \<in> set (F g)"
    by (auto simp: list_blocks_def)
  then show ?thesis using assms(2) that by simp
qed

section \<open>Consequences of the invariant\<close>

lemma talloc_invD:
  assumes "talloc_inv t F"
  shows "talloc_frame t" "list_family dllist (nodes t) (llists_len t) (sentinel t) F"
    "g < 64 \<Longrightarrow> bit (avails t) g \<longleftrightarrow> g < llists_len t \<and> F g \<noteq> []"
    "i < 8 * length (bitmap t) \<Longrightarrow> slice_bit (bitmap t) i \<longleftrightarrow>
       (\<exists>b\<in>talloc_blocks t F. blk_index (talloc_geo t) b = int i)"
    "buddy_ok (talloc_geo t) (talloc_blocks t F)"
    "free_bytes (talloc_blocks t F) \<inter> status_bytes t = {}" "0 \<notin> free_bytes (talloc_blocks t F)"
    "geo_ok (talloc_geo t)"
  using assms frame_geo [of t] by (simp_all add: talloc_inv_def)

lemma frame_top: "talloc_frame t \<Longrightarrow> llists_len t \<le> Suc (geo_top (talloc_geo t))"
  by (simp add: talloc_frame_def)

lemma frame_bitmap: "talloc_frame t \<Longrightarrow> 2 ^ llists_len t \<le> 8 * length (bitmap t)"
  unfolding talloc_frame_def by blast

lemma sint_sentinel:
  assumes "talloc_frame t" "g < llists_len t"
  shows "sint (sentinel t g) = sint (llists_ptr t) + 16 * int g"
proof -
  have g: "g < 45" using frame_len [OF assms(1)] assms(2) by simp
  have "16 * of_nat g = (of_nat (16 * g) :: u64)" by simp
  moreover have "unat (of_nat (16 * g) :: u64) = 16 * g" using g by (subst unat_of_nat) simp
  ultimately have "uint (16 * of_nat g :: u64) = 16 * int g" by (simp only: uint_nat)
  then have "sint (16 * of_nat g :: u64) = 16 * int g" using g by (subst sint_eq_uint) simp_all
  then show ?thesis
    unfolding sentinel_def using assms g by (subst sint_add_eq) (simp_all add: talloc_frame_def)
qed

lemma sentinel_status:
  "talloc_frame t \<Longrightarrow> g < llists_len t \<Longrightarrow> sint (sentinel t g) \<in> status_bytes t"
  by (simp add: sint_sentinel status_bytes_def)

lemma block_offset:
  assumes "talloc_frame t" "blk_valid (talloc_geo t) (m, sint p)"
  obtains w where "bitmap_offset t p (2 ^ m) = Some w" "int (unat w) = blk_index (talloc_geo t) (m, sint p)"
    "unat w < 8 * length (bitmap t)"
proof -
  obtain w where w: "bitmap_offset t p (2 ^ m) = Some w" "uint w = blk_index (talloc_geo t) (m, sint p)"
    by (rule bitmap_offset_eq [OF assms])
  have "int (unat w) < 2 ^ llists_len t"
    using blk_index_range(2) [OF frame_geo [OF assms(1)] assms(2)] assms(1) w(2)
    by (simp add: talloc_frame_def)
  then have "unat w < 2 ^ llists_len t" by (simp only: unat_less_pow_int)
  also have "\<dots> \<le> 8 * length (bitmap t)" by (rule frame_bitmap [OF assms(1)])
  finally show ?thesis using w that by simp
qed

lemma block_not_listed:
  assumes inv: "talloc_inv t F" and g: "g < llists_len t"
    and disj: "blk_bytes (m, sint p) \<inter> free_bytes (talloc_blocks t F) = {}"
  shows "p \<notin> set (F g)"
proof
  assume "p \<in> set (F g)"
  then have "(geo_top (talloc_geo t) - g, sint p) \<in> talloc_blocks t F" using g by (auto simp: list_blocks_def)
  then have "sint p \<in> free_bytes (talloc_blocks t F)"
    using blk_base_in [of "(geo_top (talloc_geo t) - g, sint p)"] by (auto simp: free_bytes_def)
  then show False using disj blk_base_in [of "(m, sint p)"] by auto
qed

section \<open>Primitive steps\<close>

text \<open>A block may be registered when it is valid, not free, not status memory and not null.\<close>

definition can_add :: "talloc \<Rightarrow> (nat \<Rightarrow> ptr list) \<Rightarrow> block \<Rightarrow> bool" where
  "can_add t F b \<longleftrightarrow> blk_valid (talloc_geo t) b \<and> blk_bytes b \<inter> free_bytes (talloc_blocks t F) = {} \<and>
     blk_bytes b \<inter> status_bytes t = {} \<and> 0 \<notin> blk_bytes b"

lemma add_block_next_inv:
  assumes inv: "talloc_inv t F" and can: "can_add t F (m, sint p)"
    and nb: "buddy (m, sint p) \<notin> talloc_blocks t F"
    and w: "bitmap_offset t p (2 ^ m) = Some w"
  defines "g \<equiv> geo_top (talloc_geo t) - m"
  shows "\<exists>t'. add_block_next t g w p = Some t' \<and> same_arena t t' \<and> talloc_inv t' (F(g := p # F g)) \<and>
    talloc_blocks t' (F(g := p # F g)) = insert (m, sint p) (talloc_blocks t F)"
proof -
  define G where "G = talloc_geo t"
  define B where "B = talloc_blocks t F"
  note I = talloc_invD [OF inv, folded G_def B_def]
  have v: "blk_valid G (m, sint p)" and disj: "blk_bytes (m, sint p) \<inter> free_bytes B = {}"
    and st: "blk_bytes (m, sint p) \<inter> status_bytes t = {}" and nul: "0 \<notin> blk_bytes (m, sint p)"
    using can by (auto simp: can_add_def G_def B_def)
  have g: "g < llists_len t" "g < 45" "geo_top G - g = m"
    using frame_level [OF I(1) v [unfolded G_def]] frame_len [OF I(1)] v
    by (auto simp: g_def G_def blk_valid_def)
  obtain w' where "bitmap_offset t p (2 ^ m) = Some w'"
    "int (unat w') = blk_index G (m, sint p)" "unat w' < 8 * length (bitmap t)"
    using block_offset [OF I(1) v [unfolded G_def]] unfolding G_def by blast
  with w have wi: "int (unat w) = blk_index G (m, sint p)" and wl: "unat w < 8 * length (bitmap t)" by auto
  define F' where "F' = F(g := p # F g)"
  define t' where "t' = t\<lparr>avails := avails t OR push_bit g 1, nodes := llist_push p (sentinel t g) (nodes t),
    bitmap := toggle_bit (bitmap t) (unat w)\<rparr>"
  have run: "add_block_next t g w p = Some t'"
    using g wl by (simp add: add_block_next_def checked_shl_def get_sentinel_def Let_def toggle_bitflag_eq
        t'_def llist_push_def sentinel_def)
  have same: "same_arena t t'" by (simp add: same_arena_def t'_def)
  note S = same_arenaD [OF same, folded G_def]
  have blocks: "list_blocks (geo_top G) (llists_len t) F' = insert (m, sint p) B"
    using list_blocks_push [OF g(1), of "geo_top G" F p] g(3) by (simp add: F'_def B_def G_def)
  have ni: "\<not> (\<exists>c\<in>B. blk_index G c = blk_index G (m, sint p))"
    using blk_index_tells_buddy [OF I(8,5) v disj] nb by (simp add: B_def)
  have "talloc_inv t' F'"
    unfolding talloc_inv_def S blocks
  proof (intro conjI allI impI)
    show "talloc_frame t" by (rule I)
    show "list_family dllist (nodes t') (llists_len t) (sentinel t) F'"
    proof -
      have "p \<notin> set (sentinel t j # F j)" if j: "j < llists_len t" for j
        using sentinel_status [OF I(1) j] st blk_base_in [of "(m, sint p)"]
          block_not_listed [OF inv j disj [unfolded B_def]] by auto
      then show ?thesis using fl.family_push [OF I(2) g(1), of p] by (simp add: F'_def t'_def)
    qed
    fix h :: nat assume "h < 64"
    then show "bit (avails t') h \<longleftrightarrow> h < llists_len t \<and> F' h \<noteq> []"
      using I(3) [of h] g(1) by (auto simp: t'_def F'_def bit_simps)
  next
    fix i assume "i < 8 * length (bitmap t)"
    moreover have "blk_index G (m, sint p) = int i \<longleftrightarrow> i = unat w" using wi by (metis of_nat_eq_iff)
    ultimately show "slice_bit (bitmap t') i \<longleftrightarrow> (\<exists>b\<in>insert (m, sint p) B. blk_index G b = int i)"
      using I(4) [of i] wl ni by (cases "i = unat w") (auto simp: t'_def slice_bit_toggle)
  next
    show "buddy_ok G (insert (m, sint p) B)"
      using I(5) v disj nb by (intro buddy_ok_insert) (auto simp: B_def)
    show "free_bytes (insert (m, sint p) B) \<inter> status_bytes t = {}" "0 \<notin> free_bytes (insert (m, sint p) B)"
      using I(6,7) st nul by (auto simp: free_bytes_insert)
  qed
  then show ?thesis using run same blocks S by (auto simp: F'_def B_def)
qed

text \<open>Unregistering a free block, whatever way the code finds its node.\<close>

lemma remove_node_inv:
  assumes inv: "talloc_inv t F" and b: "g < llists_len t" "p \<in> set (F g)"
    and w: "bitmap_offset t p (2 ^ (geo_top (talloc_geo t) - g)) = Some w"
  defines "t' \<equiv> t\<lparr>avails := (if F g = [p] then avails t AND NOT (push_bit g 1) else avails t),
      nodes := snd (llist_remove p (nodes t)), bitmap := toggle_bit (bitmap t) (unat w)\<rparr>"
    and "F' \<equiv> F(g := remove1 p (F g))"
  shows "same_arena t t'" "talloc_inv t' F'"
    "talloc_blocks t' F' = talloc_blocks t F - {(geo_top (talloc_geo t) - g, sint p)}"
    "unat w < 8 * length (bitmap t)"
proof -
  define G where "G = talloc_geo t"
  define B where "B = talloc_blocks t F"
  define b where "b = (geo_top G - g, sint p)"
  note I = talloc_invD [OF inv, folded G_def B_def]
  have bB: "b \<in> B" using assms(2,3) by (auto simp: b_def B_def G_def list_blocks_def)
  have v: "blk_valid G b" by (rule buddy_okD(1) [OF I(5) bB])
  have g: "g < 45" using frame_len [OF I(1)] assms(2) by simp
  obtain w' where "bitmap_offset t p (2 ^ (geo_top G - g)) = Some w'"
    "int (unat w') = blk_index G b" "unat w' < 8 * length (bitmap t)"
    using block_offset [OF I(1), of "geo_top G - g" p] v unfolding G_def b_def by blast
  with w have wi: "int (unat w) = blk_index G b" and wl: "unat w < 8 * length (bitmap t)"
    by (auto simp: G_def)
  show "unat w < 8 * length (bitmap t)" by (rule wl)
  show same: "same_arena t t'" by (simp add: same_arena_def t'_def)
  note S = same_arenaD [OF same, folded G_def]
  have dist: "distinct (F g)" by (rule fl.family_distinct [OF I(2) assms(2)])
  have blocks: "list_blocks (geo_top G) (llists_len t) F' = B - {b}"
    unfolding F'_def B_def b_def G_def using dist assms(2) frame_top [OF I(1)] by (intro list_blocks_del) auto
  then show "talloc_blocks t' F' = talloc_blocks t F - {(geo_top (talloc_geo t) - g, sint p)}"
    unfolding S by (simp add: B_def b_def G_def)
  have empty: "remove1 p (F g) = [] \<longleftrightarrow> F g = [p]"
    using assms(3) by (cases "F g") (auto split: if_splits)
  show "talloc_inv t' F'"
    unfolding talloc_inv_def S blocks
  proof (intro conjI allI impI)
    show "talloc_frame t" by (rule I)
    show "list_family dllist (nodes t') (llists_len t) (sentinel t) F'"
      using fl.family_del [OF I(2) assms(2,3)] by (simp add: F'_def t'_def)
    fix h :: nat assume "h < 64"
    then show "bit (avails t') h \<longleftrightarrow> h < llists_len t \<and> F' h \<noteq> []"
      using I(3) [of h] assms(2,3) empty by (auto simp: t'_def F'_def bit_simps)
  next
    fix i assume i: "i < 8 * length (bitmap t)"
    have iw: "blk_index G b = int i \<longleftrightarrow> i = unat w" using wi by (metis of_nat_eq_iff)
    have uniq: "c \<in> B \<Longrightarrow> blk_index G c = blk_index G b \<Longrightarrow> c = b" for c
      using blk_index_unique [OF I(8,5)] bB by auto
    have "slice_bit (bitmap t') i \<longleftrightarrow> (if i = unat w then \<not> slice_bit (bitmap t) i else slice_bit (bitmap t) i)"
      using slice_bit_toggle [OF wl i] by (simp add: t'_def)
    also have "\<dots> \<longleftrightarrow> (\<exists>c\<in>B - {b}. blk_index G c = int i)"
    proof -
      define P where "P = (\<lambda>c. blk_index G c = int i)"
      have iff: "i = unat w \<longleftrightarrow> P b" using iw by (simp only: P_def)
      have "P b \<Longrightarrow> \<exists>c\<in>B. P c" using bB by blast
      moreover have "P b \<Longrightarrow> \<not> (\<exists>c\<in>B - {b}. P c)" using uniq unfolding P_def by fastforce
      moreover have "\<not> P b \<Longrightarrow> (\<exists>c\<in>B. P c) \<longleftrightarrow> (\<exists>c\<in>B - {b}. P c)" by blast
      ultimately show ?thesis unfolding I(4) [OF i] P_def [symmetric] iff by argo
    qed
    finally show "slice_bit (bitmap t') i \<longleftrightarrow> (\<exists>c\<in>B - {b}. blk_index G c = int i)" .
  next
    show "buddy_ok G (B - {b})" by (rule buddy_ok_remove [OF I(5)])
    show "free_bytes (B - {b}) \<inter> status_bytes t = {}" "0 \<notin> free_bytes (B - {b})"
      using I(6,7) by (auto simp: free_bytes_remove [OF I(5) bB])
  qed
qed

lemma remove_block_inv:
  assumes inv: "talloc_inv t F" and b: "g < llists_len t" "p \<in> set (F g)"
    and w: "bitmap_offset t p (2 ^ (geo_top (talloc_geo t) - g)) = Some w"
  shows "\<exists>t' F'. remove_block t g w p = Some t' \<and> same_arena t t' \<and> talloc_inv t' F' \<and>
    talloc_blocks t' F' = talloc_blocks t F - {(geo_top (talloc_geo t) - g, sint p)}"
proof -
  note I = talloc_invD [OF inv]
  have "g < 45" using frame_len [OF I(1)] b(1) by simp
  moreover have "node_prev (nodes t p) = node_next (nodes t p) \<longleftrightarrow> F g = [p]"
    using fl.family_lone_node [OF I(2) b] by (simp add: llist_lone_def)
  ultimately have "remove_block t g w p =
    Some (t\<lparr>avails := (if F g = [p] then avails t AND NOT (push_bit g 1) else avails t),
      nodes := snd (llist_remove p (nodes t)), bitmap := toggle_bit (bitmap t) (unat w)\<rparr>)"
    using remove_node_inv(4) [OF inv b w]
    by (simp add: remove_block_def checked_shl_def Let_def toggle_bitflag_eq)
  then show ?thesis using remove_node_inv(1-3) [OF inv b w] by blast
qed

lemma remove_block_next_inv:
  assumes inv: "talloc_inv t F" and g: "g < llists_len t" "F g = p # ps"
  shows "\<exists>t' F'. remove_block_next t g (2 ^ (geo_top (talloc_geo t) - g)) = Some (p, t') \<and>
    same_arena t t' \<and> talloc_inv t' F' \<and>
    talloc_blocks t' F' = talloc_blocks t F - {(geo_top (talloc_geo t) - g, sint p)}"
proof -
  note I = talloc_invD [OF inv]
  have b: "p \<in> set (F g)" by (simp add: g)
  have "(geo_top (talloc_geo t) - g, sint p) \<in> talloc_blocks t F" using g by (auto simp: list_blocks_def)
  then have v: "blk_valid (talloc_geo t) (geo_top (talloc_geo t) - g, sint p)" by (rule buddy_okD(1) [OF I(5)])
  obtain w where w: "bitmap_offset t p (2 ^ (geo_top (talloc_geo t) - g)) = Some w"
    using block_offset [OF I(1) v] by blast
  have off: "bitmap_offset (t\<lparr>avails := a, nodes := h\<rparr>) p sz = bitmap_offset t p sz" for a h sz
    by (simp add: bitmap_offset_def)
  have off': "bitmap_offset (t\<lparr>nodes := h\<rparr>) p sz = bitmap_offset t p sz" for h sz
    by (simp add: bitmap_offset_def)
  have "g < 45" using frame_len [OF I(1)] g(1) by simp
  moreover have "node_prev (nodes t (sentinel t g)) = node_next (nodes t (sentinel t g)) \<longleftrightarrow> F g = [p]"
    using fl.family_lone_sentinel [OF I(2) g(1)] g(2) by (simp add: llist_lone_def)
  moreover have "node_next (nodes t (sentinel t g)) = p" by (rule fl.family_head [OF I(2) g])
  ultimately have "remove_block_next t g (2 ^ (geo_top (talloc_geo t) - g)) =
    Some (p, t\<lparr>avails := (if F g = [p] then avails t AND NOT (push_bit g 1) else avails t),
      nodes := snd (llist_remove p (nodes t)), bitmap := toggle_bit (bitmap t) (unat w)\<rparr>)"
    using remove_node_inv(4) [OF inv g(1) b w] g(1)
    by (simp add: remove_block_next_def checked_shl_def Let_def toggle_bitflag_eq get_sentinel_def off off' w)
  then show ?thesis using remove_node_inv(1-3) [OF inv g(1) b w] by blast
qed

end
