(* ===== verification/Talloc_Ops.thy ===== *)
theory Talloc_Ops
  imports Talloc_Inv
begin

text \<open>
  Correctness of the allocator's operations against the set of free bytes: \<open>dealloc\<close> adds the
  block, \<open>alloc\<close> takes one away and returns it, \<open>shrink\<close> gives the tail of a block back,
  \<open>release\<close> adds a range. Each result is \<open>Some\<close>: no overflow check fails, no assertion
  fires and no access leaves the slices.
\<close>

section \<open>Deallocation\<close>

lemma is_lower_buddy_eq: "m < 64 \<Longrightarrow> is_lower_buddy p (2 ^ m) \<longleftrightarrow> lower_half (m, sint p)"
proof -
  assume m: "m < 64"
  have "p AND 2 ^ m = 0 \<longleftrightarrow> \<not> bit p m" by (rule and_exp_eq_0_iff_not_bit)
  also have "bit p m \<longleftrightarrow> bit (sint p) m" using m by (auto simp: bit_sint_iff)
  finally show ?thesis by (simp add: is_lower_buddy_def lower_half_def bit_iff_odd)
qed

lemma double_pow2: "push_bit 1 (2 ^ m :: usize) = 2 ^ Suc m"
  by (simp add: push_bit_eq_mult)

lemma buddy_ptr:
  assumes fr: "talloc_frame t" and v: "blk_valid (talloc_geo t) (m, sint p)"
    "blk_valid (talloc_geo t) (buddy (m, sint p))"
  defines "q \<equiv> (if is_lower_buddy p (2 ^ m) then p + 2 ^ m else p - 2 ^ m)"
    and "n \<equiv> (if is_lower_buddy p (2 ^ m) then p else p - 2 ^ m)"
  shows "buddy (m, sint p) = (m, sint q)" "parent (m, sint p) = (Suc m, sint n)"
proof -
  define P where "P = (2 :: int) ^ m"
  have r: "- (2 ^ 47) \<le> sint p" "sint p + P \<le> 2 ^ 47" "0 < P" "P \<le> 2 ^ 48" "- (2 ^ 47) \<le> snd (buddy (m, sint p))"
    "snd (buddy (m, sint p)) + P \<le> 2 ^ 47"
    using valid_range [OF fr v(1)] valid_range(1,2) [OF fr v(2)] by (simp_all add: P_def)
  have m: "m \<le> 48" using frame_level [OF fr v(1)] by simp
  have pw: "sint (2 ^ m :: usize) = 2 ^ m" using m by (intro sint_pow2) simp
  have up: "sint (p + 2 ^ m) = sint p + 2 ^ m" if "lower_half (m, sint p)"
    using r that by (subst sint_add_eq) (simp_all add: pw buddy_def P_def [symmetric])
  have dn: "sint (p - 2 ^ m) = sint p - 2 ^ m" if "\<not> lower_half (m, sint p)"
    using r that by (subst sint_sub_eq) (simp_all add: pw buddy_def P_def [symmetric])
  show "buddy (m, sint p) = (m, sint q)" "parent (m, sint p) = (Suc m, sint n)"
    using up dn m by (auto simp: q_def n_def is_lower_buddy_eq buddy_def parent_def)
qed

text \<open>One round of the merge loop: the bit is set exactly when the buddy is free.\<close>

lemma read_buddy_bit:
  assumes inv: "talloc_inv t F" and can: "can_add t F (m, sint p)"
    and w: "bitmap_offset t p (2 ^ m) = Some w"
  shows "read_bitflag t w = Some (buddy (m, sint p) \<in> talloc_blocks t F)"
proof -
  note I = talloc_invD [OF inv]
  have v: "blk_valid (talloc_geo t) (m, sint p)"
    and disj: "blk_bytes (m, sint p) \<inter> free_bytes (talloc_blocks t F) = {}"
    using can by (auto simp: can_add_def)
  obtain w' where w': "bitmap_offset t p (2 ^ m) = Some w'"
    "int (unat w') = blk_index (talloc_geo t) (m, sint p)" "unat w' < 8 * length (bitmap t)"
    using block_offset [OF I(1) v] by blast
  then have [simp]: "w' = w" using w by simp
  have "slice_bit (bitmap t) (unat w) \<longleftrightarrow>
      (\<exists>c\<in>talloc_blocks t F. blk_index (talloc_geo t) c = blk_index (talloc_geo t) (m, sint p))"
    using I(4) [of "unat w"] w'(2,3) by simp
  then show ?thesis
    using blk_index_tells_buddy [OF I(8,5) v disj] read_bitflag_eq [of w t] w'(3) by simp
qed

lemma dealloc_loop_stop:
  assumes inv: "talloc_inv t F" and can: "can_add t F (m, sint p)"
    and w: "bitmap_offset t p (2 ^ m) = Some w" and nb: "buddy (m, sint p) \<notin> talloc_blocks t F"
  shows "\<exists>t' F'. dealloc_loop t p (2 ^ m) (geo_top (talloc_geo t) - m) w = Some t' \<and> same_arena t t' \<and>
    talloc_inv t' F' \<and>
    free_bytes (talloc_blocks t' F') = free_bytes (talloc_blocks t F) \<union> blk_bytes (m, sint p)"
proof -
  define g where "g = geo_top (talloc_geo t) - m"
  obtain t' where t': "add_block_next t g w p = Some t'" "same_arena t t'" "talloc_inv t' (F(g := p # F g))"
    "talloc_blocks t' (F(g := p # F g)) = insert (m, sint p) (talloc_blocks t F)"
    using add_block_next_inv [OF inv can nb w] unfolding g_def by blast
  have "dealloc_loop t p (2 ^ m) g w = Some t'"
    using read_buddy_bit [OF inv can w] nb t'(1) by (subst dealloc_loop.simps) simp
  then show ?thesis using t'(2-4) by (auto simp: free_bytes_insert g_def)
qed

lemma dealloc_loop_merge:
  assumes inv: "talloc_inv t F" and can: "can_add t F (m, sint p)"
    and w: "bitmap_offset t p (2 ^ m) = Some w" and bb: "buddy (m, sint p) \<in> talloc_blocks t F"
  shows "\<exists>t' F' n w' g. geo_top (talloc_geo t) - m = Suc g \<and>
    dealloc_loop t p (2 ^ m) (Suc g) w = dealloc_loop t' n (2 ^ Suc m) g w' \<and>
    same_arena t t' \<and> talloc_inv t' F' \<and> can_add t' F' (Suc m, sint n) \<and>
    bitmap_offset t' n (2 ^ Suc m) = Some w' \<and> g = geo_top (talloc_geo t') - Suc m \<and>
    free_bytes (talloc_blocks t' F') \<union> blk_bytes (Suc m, sint n) =
      free_bytes (talloc_blocks t F) \<union> blk_bytes (m, sint p)"
proof -
  define G where "G = talloc_geo t"
  define B where "B = talloc_blocks t F"
  define b where "b = (m, sint p)"
  note I = talloc_invD [OF inv, folded G_def B_def]
  have v: "blk_valid G b" and disj: "blk_bytes b \<inter> free_bytes B = {}"
    and st: "blk_bytes b \<inter> status_bytes t = {}" "0 \<notin> blk_bytes b"
    using can by (auto simp: can_add_def G_def B_def b_def)
  have bb': "buddy b \<in> B" using bb by (simp add: b_def B_def)
  have vb: "blk_valid G (buddy b)" by (rule buddy_okD(1) [OF I(5) bb'])
  note par = parent_valid [OF I(8,5) v disj bb']
  define q where "q = (if is_lower_buddy p (2 ^ m) then p + 2 ^ m else p - 2 ^ m)"
  define n where "n = (if is_lower_buddy p (2 ^ m) then p else p - 2 ^ m)"
  have q: "buddy b = (m, sint q)" and n: "parent b = (Suc m, sint n)"
    using buddy_ptr [OF I(1), of m p] v vb by (simp_all add: b_def G_def q_def n_def)
  obtain g where g: "geo_top G - m = Suc g" "geo_top G - Suc g = m" "Suc g < llists_len t"
    using par(4) frame_level [OF I(1) v [unfolded G_def]]
    by (cases "geo_top G - m") (auto simp: b_def G_def)
  have qF: "q \<in> set (F (Suc g))"
    using list_blocks_mem [of m "sint q" "geo_top G" "llists_len t" F] frame_top [OF I(1)] bb' g(1)
    by (auto simp: q B_def G_def)
  have wq: "bitmap_offset t q (2 ^ m) = Some w"
  proof -
    obtain wp where wp: "bitmap_offset t p (2 ^ m) = Some wp" "uint wp = blk_index G b"
      using bitmap_offset_eq [OF I(1), of m p] v unfolding G_def b_def by blast
    obtain wq where wq: "bitmap_offset t q (2 ^ m) = Some wq" "uint wq = blk_index G (buddy b)"
      using bitmap_offset_eq [OF I(1), of m q] vb unfolding G_def q by blast
    have "uint wq = uint wp" using wp wq blk_index_buddy [OF I(8) v vb] by simp
    then have "wq = wp" by (metis word_of_int_uint)
    then show ?thesis using wp wq w by simp
  qed
  obtain t' F' where t': "remove_block t (Suc g) w q = Some t'" "same_arena t t'" "talloc_inv t' F'"
    "talloc_blocks t' F' = B - {buddy b}"
    using remove_block_inv [OF inv g(3) qF] g(2) wq unfolding G_def B_def q by auto
  note S = same_arenaD [OF t'(2), folded G_def]
  have can': "can_add t' F' (Suc m, sint n)"
    unfolding can_add_def t'(4) unfolding S(1,4) n [symmetric]
    using par(1,2) st I(6,7) bb' by (auto simp: parent_bytes free_bytes_def)
  have vn: "blk_valid (talloc_geo t') (Suc m, sint n)" using can' by (simp only: can_add_def)
  obtain w' where w': "bitmap_offset t' n (2 ^ Suc m) = Some w'"
    by (rule block_offset [OF talloc_invD(1) [OF t'(3)] vn])
  have "dealloc_loop t p (2 ^ m) (Suc g) w = dealloc_loop t' n (2 ^ Suc m) g w'"
    using read_buddy_bit [OF inv can w] bb t'(1) w'
    by (subst dealloc_loop.simps) (simp add: Let_def q_def n_def mult.commute [of _ 2] split: if_splits)
  then show ?thesis
    using g t' can' w' par(3) S(1) n b_def B_def G_def
    by (intro exI [of _ t'] exI [of _ F'] exI [of _ n] exI [of _ w'] exI [of _ g]) auto
qed

lemma dealloc_loop_correct:
  assumes "talloc_inv t F" "can_add t F (m, sint p)" "bitmap_offset t p (2 ^ m) = Some w"
    and "g = geo_top (talloc_geo t) - m"
  shows "\<exists>t' F'. dealloc_loop t p (2 ^ m) g w = Some t' \<and> same_arena t t' \<and> talloc_inv t' F' \<and>
    free_bytes (talloc_blocks t' F') = free_bytes (talloc_blocks t F) \<union> blk_bytes (m, sint p)"
  using assms
proof (induction g arbitrary: t F m p w)
  case (0 t F m p w)
  then have "buddy (m, sint p) \<notin> talloc_blocks t F" using dealloc_loop_merge [OF 0(1-3)] by auto
  then show ?case using dealloc_loop_stop [OF 0(1-3)] 0(4) by simp
next
  case (Suc g t F m p w)
  show ?case
  proof (cases "buddy (m, sint p) \<in> talloc_blocks t F")
    case True
    from dealloc_loop_merge [OF Suc.prems(1-3) True] Suc.prems(4) obtain t' F' n w' where
      eq: "dealloc_loop t p (2 ^ m) (Suc g) w = dealloc_loop t' n (2 ^ Suc m) g w'" and
      st: "same_arena t t'" "talloc_inv t' F'" "can_add t' F' (Suc m, sint n)"
      "bitmap_offset t' n (2 ^ Suc m) = Some w'" "g = geo_top (talloc_geo t') - Suc m"
      "free_bytes (talloc_blocks t' F') \<union> blk_bytes (Suc m, sint n) =
       free_bytes (talloc_blocks t F) \<union> blk_bytes (m, sint p)"
      by (auto simp del: power_Suc)
    show ?thesis using Suc.IH [OF st(2-5)] st(1,6) same_arena_trans unfolding eq by metis
  next
    case False
    then show ?thesis using dealloc_loop_stop [OF Suc.prems(1-3)] Suc.prems(4) by simp
  qed
qed

section \<open>Layouts\<close>

definition layout_ok :: "layout \<Rightarrow> bool" where
  "layout_ok l \<longleftrightarrow> layout_size l \<noteq> 0 \<and> unat (layout_size l) \<le> 2 ^ 62 \<and>
     is_power_of_two (layout_align l) \<and> unat (layout_align l) \<le> 2 ^ 62"

text \<open>The logarithm of the block size for a layout.\<close>

definition layout_level :: "talloc \<Rightarrow> layout \<Rightarrow> nat" where
  "layout_level t l = max (bit_len (unat (layout_size l) - 1))
     (max (fast_non0_log2 (layout_align l)) (geo_min (talloc_geo t)))"

lemma is_power_of_two_log2:
  assumes "is_power_of_two (w :: u64)"
  shows "w = 2 ^ fast_non0_log2 w"
proof -
  define k where "k = fast_non0_log2 w"
  have w: "w \<noteq> 0" and z: "w AND (w - 1) = 0" using assms by (auto simp: is_power_of_two_def)
  note b = fast_non0_log2_bounds [OF w, folded k_def]
  show ?thesis
  proof (rule ccontr)
    assume ne: "w \<noteq> 2 ^ fast_non0_log2 w"
    have k64: "k < 64" using fast_non0_log2_less [OF w] by (simp add: k_def)
    have "unat w \<noteq> 2 ^ k" using ne unat_pow2 [of k, where 'a = 64] k64 unfolding k_def
      by (metis len64(1) word_unat_eq_iff)
    then have lo: "2 ^ k \<le> unat (w - 1)" "unat (w - 1) < 2 ^ Suc k"
      using b w by (auto simp: unat_minus_one)
    then have "w - 1 \<noteq> 0" by (metis le_zero_eq power_not_zero unsigned_0 zero_neq_numeral)
    then have "bit (w - 1) k" using log2_bit [of "w - 1"] fast_non0_log2_unique [OF lo] by simp
    then have "bit (w AND (w - 1)) k" using log2_bit [OF w] by (simp add: bit_and_iff k_def)
    then show False using z by simp
  qed
qed

lemma layout_to_size_level:
  assumes "talloc_frame t" "layout_ok l"
  shows "layout_to_size t l = Some (2 ^ layout_level t l)" "layout_level t l < 63"
proof -
  define c where "c = bit_len (unat (layout_size l) - 1)"
  define k where "k = fast_non0_log2 (layout_align l)"
  define s where "s = geo_min (talloc_geo t)"
  have al: "layout_align l = 2 ^ k" "layout_align l \<noteq> 0"
    using assms(2) is_power_of_two_log2 by (auto simp: layout_ok_def k_def is_power_of_two_def)
  have sm: "smlst_block t = 2 ^ s" "s \<le> 48"
    using assms(1) geo_okD(2,3) [of "talloc_geo t"] by (auto simp: talloc_frame_def s_def)
  have c: "fast_non0_next_pow2 (layout_size l) = Some (2 ^ c)" "c \<le> 62"
    using assms(2) fast_non0_next_pow2_eq [of "layout_size l"] next_pow2_le_iff [of "unat (layout_size l)" 62]
    by (auto simp: layout_ok_def c_def unat_gt_0)
  have k: "k \<le> 62"
  proof (rule ccontr)
    assume "\<not> k \<le> 62"
    then have "(2 :: nat) ^ 63 \<le> 2 ^ k" by (intro power_increasing) auto
    moreover have "(2 :: nat) ^ k \<le> 2 ^ 62"
      using fast_non0_log2_bounds [OF al(2)] assms(2) by (auto simp: layout_ok_def k_def)
    ultimately show False by simp
  qed
  show "layout_to_size t l = Some (2 ^ layout_level t l)"
    unfolding layout_level_def c_def [symmetric] k_def [symmetric] s_def [symmetric]
    using c k sm prev_pow2_or [of c k s] by (simp add: layout_to_size_def al(1))
  show "layout_level t l < 63"
    unfolding layout_level_def c_def [symmetric] k_def [symmetric] s_def [symmetric]
    using c k sm by simp
qed

text \<open>The level is the least one whose blocks fit the size, the alignment and the smallest block.\<close>

lemma layout_level_least:
  assumes "layout_ok l"
  shows "layout_level t l \<le> j \<longleftrightarrow>
    unat (layout_size l) \<le> 2 ^ j \<and> unat (layout_align l) \<le> 2 ^ j \<and> geo_min (talloc_geo t) \<le> j"
proof -
  have "unat (layout_align l) = 2 ^ fast_non0_log2 (layout_align l)"
    using assms is_power_of_two_log2 [of "layout_align l"] fast_non0_log2_less [of "layout_align l"]
      unat_pow2 [of "fast_non0_log2 (layout_align l)", where 'a = 64]
    by (simp add: layout_ok_def is_power_of_two_def)
  then show ?thesis
    using assms next_pow2_le_iff [of "unat (layout_size l)" j] by (simp add: layout_level_def layout_ok_def unat_gt_0)
qed

lemma talloc_dealloc_step:
  assumes inv: "talloc_inv t F" and l: "layout_ok l" and can: "can_add t F (layout_level t l, sint p)"
  shows "\<exists>t' F'. talloc_dealloc t p l = Some t' \<and> same_arena t t' \<and> talloc_inv t' F' \<and>
    free_bytes (talloc_blocks t' F') =
      free_bytes (talloc_blocks t F) \<union> blk_bytes (layout_level t l, sint p)"
proof -
  define m where "m = layout_level t l"
  note I = talloc_invD [OF inv]
  have v: "blk_valid (talloc_geo t) (m, sint p)" using can by (simp add: can_add_def m_def)
  obtain w where w: "bitmap_offset t p (2 ^ m) = Some w" by (rule block_offset [OF I(1) v])
  have "talloc_dealloc t p l = dealloc_loop t p (2 ^ m) (geo_top (talloc_geo t) - m) w"
    using layout_to_size_level(1) [OF I(1) l] block_granularity_eq [OF I(1) v] w
    by (simp add: talloc_dealloc_def m_def)
  then show ?thesis
    using dealloc_loop_correct [OF inv can [folded m_def] w refl] by (simp add: m_def)
qed

section \<open>Splitting\<close>

lemma half_pow2: "drop_bit 1 (2 ^ Suc m :: usize) = (if Suc m < 64 then 2 ^ m else 0)"
  by (rule bit_word_eqI) (auto simp: bit_simps)

lemma split_loop_correct:
  assumes "talloc_inv t F" "can_add t F (M, sint p)" "geo_min (talloc_geo t) \<le> m" "m \<le> M"
  shows "\<exists>t' F'. split_loop t p (drop_bit 1 (2 ^ M))
      [geo_top (talloc_geo t) - M + 1 ..< geo_top (talloc_geo t) - m + 1] = Some t' \<and>
    same_arena t t' \<and> talloc_inv t' F' \<and>
    free_bytes (talloc_blocks t' F') =
      free_bytes (talloc_blocks t F) \<union> (blk_bytes (M, sint p) - blk_bytes (m, sint p))"
  using assms
proof (induction "M - m" arbitrary: t F M)
  case 0
  then show ?case by (intro exI [of _ t] exI [of _ F]) simp
next
  case (Suc d M t F)
  define G where "G = talloc_geo t"
  define B where "B = talloc_blocks t F"
  define K where "K = geo_top G"
  note I = talloc_invD [OF Suc.prems(1), folded G_def B_def]
  obtain n where M: "M = Suc n" "m \<le> n" "d = n - m" using Suc.hyps(2) by (cases M) auto
  have v: "blk_valid G (M, sint p)" and disj: "blk_bytes (M, sint p) \<inter> free_bytes B = {}"
    and st: "blk_bytes (M, sint p) \<inter> status_bytes t = {}" "0 \<notin> blk_bytes (M, sint p)"
    using Suc.prems(2) by (auto simp: can_add_def G_def B_def)
  have MK: "M \<le> K" "K \<le> 48" using v geo_okD(3) [OF I(8)] by (auto simp: blk_valid_def K_def)
  note ch = children [of "(M, sint p)"]
  have dvd: "2 ^ M dvd sint p" using v by (simp add: blk_valid_def)
  define q where "q = p + 2 ^ n"
  note r = valid_range [OF I(1) v [unfolded G_def]]
  have "sint q = sint p + 2 ^ n"
  proof -
    define P where "P = (2 :: int) ^ n"
    have "- (2 ^ 47) \<le> sint p" "sint p + 2 * P \<le> 2 ^ 47" "0 < P" using r M by (simp_all add: P_def)
    moreover have "sint (2 ^ n :: usize) = P" unfolding P_def using MK M by (intro sint_pow2) simp
    ultimately show ?thesis unfolding q_def P_def [symmetric] by (subst sint_add_eq) simp_all
  qed
  then have up: "upper_child (M, sint p) = (n, sint q)" and lo: "lower_child (M, sint p) = (n, sint p)"
    by (simp_all add: upper_child_def lower_child_def M)
  have bytes: "blk_bytes (M, sint p) = blk_bytes (n, sint p) \<union> blk_bytes (n, sint q)"
    "blk_bytes (n, sint p) \<inter> blk_bytes (n, sint q) = {}" "buddy (n, sint q) = (n, sint p)"
    using ch dvd M unfolding up lo by auto
  have vq: "blk_valid G (n, sint q)" "blk_valid G (n, sint p)"
    using children_valid [OF v] M Suc.prems(3) unfolding up lo by (auto simp: G_def)
  have cq: "can_add t F (n, sint q)"
    using vq disj st bytes(1) by (auto simp: can_add_def G_def B_def)
  have nb: "buddy (n, sint q) \<notin> B"
    using disj bytes(1) blk_base_in [of "(n, sint p)"] unfolding bytes(3) free_bytes_def by blast
  obtain w where w: "bitmap_offset t q (2 ^ n) = Some w"
    by (rule block_offset [OF I(1) vq(1) [unfolded G_def]])
  obtain t1 F1 where t1: "add_block_next t (K - n) w q = Some t1" "same_arena t t1" "talloc_inv t1 F1"
    "talloc_blocks t1 F1 = insert (n, sint q) B"
    using add_block_next_inv [OF Suc.prems(1) cq nb [unfolded B_def] w] unfolding K_def G_def B_def by blast
  note S = same_arenaD [OF t1(2), folded G_def]
  have c1: "can_add t1 F1 (n, sint p)"
    unfolding can_add_def t1(4) unfolding S(1,4) free_bytes_insert using vq disj st bytes(1,2) by auto
  obtain t2 F2 where t2: "split_loop t1 p (drop_bit 1 (2 ^ n)) [K - n + 1 ..< K - m + 1] = Some t2"
    "same_arena t1 t2" "talloc_inv t2 F2" "free_bytes (talloc_blocks t2 F2) =
      free_bytes (talloc_blocks t1 F1) \<union> (blk_bytes (n, sint p) - blk_bytes (m, sint p))"
    using Suc.hyps(1) [OF M(3) t1(3) c1 _ M(2)] Suc.prems(3) unfolding S(1) K_def G_def by blast
  have gs: "[K - M + 1 ..< K - m + 1] = (K - n) # [K - n + 1 ..< K - m + 1]"
    using MK M by (subst upt_conv_Cons) (auto simp: Suc_diff_Suc)
  have "n < 64" using MK M by simp
  then have half: "drop_bit 1 (2 ^ M :: usize) = 2 ^ n" using half_pow2 [of n] MK by (simp add: M(1) del: power_Suc)
  have run: "split_loop t p (drop_bit 1 (2 ^ M)) [K - M + 1 ..< K - m + 1] = Some t2"
    unfolding gs half using w t1(1) t2(1) by (simp add: Let_def q_def)
  have sub: "blk_bytes (m, sint p) \<subseteq> blk_bytes (n, sint p)"
    using M(2) power_increasing [OF M(2), of "2 :: int"] by (auto simp: blk_bytes_def)
  have "free_bytes (talloc_blocks t2 F2) = free_bytes B \<union> (blk_bytes (M, sint p) - blk_bytes (m, sint p))"
    unfolding t2(4) t1(4) free_bytes_insert bytes(1) using sub bytes(2) by blast
  then show ?case using run same_arena_trans [OF t1(2) t2(2)] t2(3) by (auto simp: K_def G_def B_def)
qed

section \<open>Allocation\<close>

text \<open>Blocks of at least a given level, seen in the lists and in the availability word.\<close>

lemma larger_block_list:
  assumes inv: "talloc_inv t F" and m: "m \<le> geo_top (talloc_geo t)"
  shows "(\<exists>b\<in>talloc_blocks t F. m \<le> fst b) \<longleftrightarrow>
    (\<exists>h\<le>geo_top (talloc_geo t) - m. h < llists_len t \<and> F h \<noteq> [])"
proof -
  have "h < llists_len t \<Longrightarrow> h \<le> geo_top (talloc_geo t)" for h
    using frame_top [OF talloc_invD(1) [OF inv]] by simp
  note h_le = this
  show ?thesis
  proof
    assume "\<exists>b\<in>talloc_blocks t F. m \<le> fst b"
    then obtain h p where h: "h < llists_len t" "p \<in> set (F h)" "m \<le> geo_top (talloc_geo t) - h"
      by (auto simp: list_blocks_def)
    then have "h \<le> geo_top (talloc_geo t) - m" "F h \<noteq> []" using h_le [of h] m by auto
    with h(1) show "\<exists>h\<le>geo_top (talloc_geo t) - m. h < llists_len t \<and> F h \<noteq> []" by blast
  next
    assume "\<exists>h\<le>geo_top (talloc_geo t) - m. h < llists_len t \<and> F h \<noteq> []"
    then obtain h where h: "h \<le> geo_top (talloc_geo t) - m" "h < llists_len t" "F h \<noteq> []" by blast
    then have "(geo_top (talloc_geo t) - h, sint (hd (F h))) \<in> talloc_blocks t F"
      by (auto simp: list_blocks_def)
    moreover have "m \<le> geo_top (talloc_geo t) - h" using h m by simp
    ultimately show "\<exists>b\<in>talloc_blocks t F. m \<le> fst b" by (metis fst_conv)
  qed
qed

definition low_avails :: "talloc \<Rightarrow> nat \<Rightarrow> usize" where
  "low_avails t g = avails t AND NOT (push_bit g (-1))"

lemma bit_low_avails: "bit (low_avails t g) h \<longleftrightarrow> bit (avails t) h \<and> h < g"
  by (auto simp: low_avails_def bit_simps dest: bit_imp_le_length)

lemma low_avails_0:
  assumes inv: "talloc_inv t F" and g: "g \<le> llists_len t"
  shows "low_avails t g = 0 \<longleftrightarrow> (\<forall>h<g. F h = [])"
proof -
  have "low_avails t g = 0 \<longleftrightarrow> (\<forall>h. \<not> bit (low_avails t g) h)"
    using bit_imp_le_length [of "low_avails t g"] by (auto simp: bit_eq_iff)
  also have "\<dots> \<longleftrightarrow> (\<forall>h<g. F h = [])"
  proof -
    have "bit (avails t) h \<longleftrightarrow> F h \<noteq> []" if "h < g" for h
      using talloc_invD(3) [OF inv, of h] that g frame_len [OF talloc_invD(1) [OF inv]] by simp
    then show ?thesis by (auto simp: bit_low_avails)
  qed
  finally show ?thesis .
qed

lemma avail_flag:
  assumes inv: "talloc_inv t F" and g: "g < llists_len t"
  shows "checked_shl 1 g = Some (push_bit g 1 :: usize)" "avails t AND push_bit g 1 \<noteq> 0 \<longleftrightarrow> F g \<noteq> []"
    "checked_shl (-1) g = Some (push_bit g (-1) :: usize)"
proof -
  have "g < 64" using frame_len [OF talloc_invD(1) [OF inv]] g by simp
  then show "checked_shl 1 g = Some (push_bit g 1 :: usize)" "checked_shl (-1) g = Some (push_bit g (-1) :: usize)"
    by (simp_all add: checked_shl_def)
  show "avails t AND push_bit g 1 \<noteq> 0 \<longleftrightarrow> F g \<noteq> []"
    using talloc_invD(3) [OF inv, of g] g \<open>g < 64\<close> bit_iff_and_push_bit_not_eq_0 [of "avails t" g] by simp
qed

text \<open>The part of \<open>alloc\<close> after the handler, in the two cases in which memory is found.\<close>

lemma take_block:
  assumes inv: "talloc_inv t F" and g: "g < llists_len t" "F g \<noteq> []"
  defines "M \<equiv> geo_top (talloc_geo t) - g"
  shows "\<exists>p t' F'. remove_block_next t g (2 ^ M) = Some (p, t') \<and> same_arena t t' \<and> talloc_inv t' F' \<and>
    can_add t' F' (M, sint p) \<and> blk_bytes (M, sint p) \<subseteq> free_bytes (talloc_blocks t F) \<and>
    free_bytes (talloc_blocks t' F') = free_bytes (talloc_blocks t F) - blk_bytes (M, sint p)"
proof -
  note I = talloc_invD [OF inv]
  obtain p ps where p: "F g = p # ps" using g(2) by (cases "F g") auto
  have b: "(M, sint p) \<in> talloc_blocks t F" using g(1) p by (auto simp: list_blocks_def M_def)
  obtain t' F' where t': "remove_block_next t g (2 ^ M) = Some (p, t')" "same_arena t t'" "talloc_inv t' F'"
    "talloc_blocks t' F' = talloc_blocks t F - {(M, sint p)}"
    using remove_block_next_inv [OF inv g(1) p] unfolding M_def by blast
  have free: "free_bytes (talloc_blocks t' F') = free_bytes (talloc_blocks t F) - blk_bytes (M, sint p)"
    unfolding t'(4) by (rule free_bytes_remove [OF I(5) b])
  have sub: "blk_bytes (M, sint p) \<subseteq> free_bytes (talloc_blocks t F)" using b by (auto simp: free_bytes_def)
  have "can_add t' F' (M, sint p)"
    unfolding can_add_def free unfolding same_arenaD(1,4) [OF t'(2)]
    using buddy_okD(1) [OF I(5) b] I(6,7) sub by auto
  with t' free sub show ?thesis by blast
qed

lemma split_larger_correct:
  assumes inv: "talloc_inv t F" and m: "geo_min (talloc_geo t) \<le> m" "m \<le> geo_top (talloc_geo t)"
    and some: "\<exists>h<geo_top (talloc_geo t) - m. F h \<noteq> []"
  shows "\<exists>p t' F'. split_larger t (low_avails t (geo_top (talloc_geo t) - m)) (geo_top (talloc_geo t) - m) =
      Some (p, t') \<and> same_arena t t' \<and> talloc_inv t' F' \<and> can_add t' F' (m, sint p) \<and>
    blk_bytes (m, sint p) \<subseteq> free_bytes (talloc_blocks t F) \<and>
    free_bytes (talloc_blocks t' F') = free_bytes (talloc_blocks t F) - blk_bytes (m, sint p)"
proof -
  note I = talloc_invD [OF inv]
  define G where "G = talloc_geo t"
  define K where "K = geo_top G"
  define g where "g = K - m"
  define h where "h = fast_non0_log2 (low_avails t g)"
  define M where "M = K - h"
  have gl: "g < llists_len t" using I(1) m by (auto simp: talloc_frame_def g_def K_def G_def)
  have "low_avails t g \<noteq> 0" using low_avails_0 [OF inv, of g] gl some by (auto simp: g_def K_def G_def)
  then have "bit (avails t) h" "h < g" using log2_bit [of "low_avails t g"] by (auto simp: bit_low_avails h_def)
  then have h: "h < g" "h < llists_len t" "F h \<noteq> []" using I(3) [of h] gl frame_len [OF I(1)] by auto
  have K: "K \<le> 48" "arena_size_pow2 t = 2 ^ K"
    using geo_okD(3) [OF I(8)] I(1) by (auto simp: K_def G_def talloc_frame_def)
  have Mm: "m \<le> M" "M \<le> K" "K - M = h" using h(1) by (auto simp: M_def g_def)
  have sz: "checked_shr (arena_size_pow2 t) h = Some (2 ^ M)"
  proof -
    have "drop_bit h (2 ^ K :: usize) = 2 ^ M"
      by (rule bit_word_eqI) (use Mm K in \<open>auto simp: bit_simps M_def\<close>)
    then show ?thesis using h(2) frame_len [OF I(1)] by (simp add: checked_shr_def K)
  qed
  obtain p t1 F1 where t1: "remove_block_next t h (2 ^ M) = Some (p, t1)" "same_arena t t1" "talloc_inv t1 F1"
    "can_add t1 F1 (M, sint p)" "blk_bytes (M, sint p) \<subseteq> free_bytes (talloc_blocks t F)"
    "free_bytes (talloc_blocks t1 F1) = free_bytes (talloc_blocks t F) - blk_bytes (M, sint p)"
    using take_block [OF inv h(2,3)] unfolding M_def K_def G_def by blast
  note S = same_arenaD [OF t1(2)]
  obtain t2 F2 where t2: "split_loop t1 p (drop_bit 1 (2 ^ M)) [h + 1 ..< g + 1] = Some t2"
    "same_arena t1 t2" "talloc_inv t2 F2"
    "free_bytes (talloc_blocks t2 F2) =
      free_bytes (talloc_blocks t1 F1) \<union> (blk_bytes (M, sint p) - blk_bytes (m, sint p))"
    using split_loop_correct [OF t1(3,4), of m] m(1) Mm unfolding S(1) g_def K_def G_def by metis
  have run: "split_larger t (low_avails t g) g = Some (p, t2)"
    using sz t1(1) t2(1) by (simp add: split_larger_def h_def [symmetric] Let_def)
  have sub: "blk_bytes (m, sint p) \<subseteq> blk_bytes (M, sint p)"
    using power_increasing [OF Mm(1), of "2 :: int"] by (auto simp: blk_bytes_def)
  have free: "free_bytes (talloc_blocks t2 F2) = free_bytes (talloc_blocks t F) - blk_bytes (m, sint p)"
    unfolding t2(4) t1(6) using t1(5) sub by blast
  have v: "blk_valid (talloc_geo t) (M, sint p)" using t1(4) unfolding can_add_def S(1) by blast
  have "(2 :: int) ^ m dvd 2 ^ M" "(2 :: int) ^ m \<le> 2 ^ M" using Mm(1) by (auto intro: le_imp_power_dvd power_increasing)
  then have vm: "blk_valid (talloc_geo t) (m, sint p)"
    using v m by (simp only: blk_valid_def fst_conv snd_conv) (meson add_left_mono dvd_trans order_trans)
  note S2 = same_arenaD [OF same_arena_trans [OF t1(2) t2(2)]]
  have can: "can_add t2 F2 (m, sint p)"
    unfolding can_add_def free unfolding S2(1,4)
    using vm t1(5) sub I(6,7) by (intro conjI) blast+
  show ?thesis using run same_arena_trans [OF t1(2) t2(2)] t2(3) can free t1(5) sub
    unfolding g_def K_def G_def by blast
qed

lemma talloc_alloc_found:
  assumes inv: "talloc_inv t F" and l: "layout_ok l"
    and some: "\<exists>b\<in>talloc_blocks t F. layout_level t l \<le> fst b"
  shows "\<exists>p t' F'. talloc_alloc oom t l = Some (Inr p, t') \<and> same_arena t t' \<and> talloc_inv t' F' \<and>
    can_add t' F' (layout_level t l, sint p) \<and>
    blk_bytes (layout_level t l, sint p) \<subseteq> free_bytes (talloc_blocks t F) \<and>
    free_bytes (talloc_blocks t' F') =
      free_bytes (talloc_blocks t F) - blk_bytes (layout_level t l, sint p)"
proof -
  note I = talloc_invD [OF inv]
  define m where "m = layout_level t l"
  define g where "g = geo_top (talloc_geo t) - m"
  obtain b where b: "b \<in> talloc_blocks t F" "m \<le> fst b" using some by (auto simp: m_def)
  have v: "blk_valid (talloc_geo t) b" by (rule buddy_okD(1) [OF I(5) b(1)])
  have m: "geo_min (talloc_geo t) \<le> m" "m \<le> geo_top (talloc_geo t)"
    using v b(2) by (auto simp: m_def layout_level_def blk_valid_def)
  have gl: "g < llists_len t" using I(1) m by (auto simp: talloc_frame_def g_def)
  have m48: "m \<le> 48" using m geo_okD(3) [OF I(8)] by simp
  have sz: "layout_to_size t l = Some (2 ^ m)" using layout_to_size_level(1) [OF I(1) l] by (simp add: m_def)
  have "(2 :: int) ^ m \<le> 2 ^ fst b" using b(2) by (intro power_increasing) auto
  also have "\<dots> \<le> uint (arena_size t)" using v by (simp add: blk_valid_def talloc_geo_def)
  finally have "\<not> arena_size t < 2 ^ m" using m48 by (simp add: word_less_def uint_pow2)
  then have small: "oom_while_small oom t l (2 ^ m) = Some (Inr (), t)"
    by (subst oom_while_small.simps) simp
  have gr: "block_granularity t (2 ^ m) = Some g" using block_granularity_level [OF I(1) m(2)] by (simp add: g_def)
  note fl = avail_flag [OF inv gl]
  obtain h where h: "h \<le> g" "h < llists_len t" "F h \<noteq> []"
    using larger_block_list [OF inv m(2)] b unfolding g_def by blast
  show ?thesis
  proof (cases "F g = []")
    case False
    have Mg: "geo_top (talloc_geo t) - g = m" using m by (simp add: g_def)
    obtain p t' F' where t': "remove_block_next t g (2 ^ m) = Some (p, t')" "same_arena t t'" "talloc_inv t' F'"
      "can_add t' F' (m, sint p)" "blk_bytes (m, sint p) \<subseteq> free_bytes (talloc_blocks t F)"
      "free_bytes (talloc_blocks t' F') = free_bytes (talloc_blocks t F) - blk_bytes (m, sint p)"
      using take_block [OF inv gl False] unfolding Mg by blast
    have "talloc_alloc oom t l = Some (Inr p, t')"
      using False fl t'(1) by (simp add: talloc_alloc_def sz small gr)
    with t' show ?thesis unfolding m_def by blast
  next
    case True
    with h have "h < g" by (cases "h = g") auto
    with h(3) have "\<exists>h<geo_top (talloc_geo t) - m. F h \<noteq> []" by (auto simp: g_def)
    from split_larger_correct [OF inv m this] obtain p t' F' where
      t': "split_larger t (low_avails t g) g = Some (p, t')" "same_arena t t'" "talloc_inv t' F'"
      "can_add t' F' (m, sint p)" "blk_bytes (m, sint p) \<subseteq> free_bytes (talloc_blocks t F)"
      "free_bytes (talloc_blocks t' F') = free_bytes (talloc_blocks t F) - blk_bytes (m, sint p)"
      unfolding g_def by blast
    have "low_avails t g \<noteq> 0" using low_avails_0 [OF inv, of g] gl \<open>h < g\<close> h(3) by auto
    then have "find_larger oom t l (2 ^ m) g = Some (Inr (low_avails t g, g), t)"
      using fl(3) by (subst find_larger.simps) (simp add: Let_def low_avails_def)
    then have "talloc_alloc oom t l = Some (Inr p, t')"
      using True fl t'(1) by (simp add: talloc_alloc_def sz small gr)
    with t' show ?thesis unfolding m_def by blast
  qed
qed

text \<open>Without a large enough block the handler decides; if it gives up, so does \<open>alloc\<close>.\<close>

lemma talloc_alloc_none:
  assumes inv: "talloc_inv t F" and l: "layout_ok l"
    and none: "\<not> (\<exists>b\<in>talloc_blocks t F. layout_level t l \<le> fst b)"
    and oom: "oom t l = Some (Inl e, t')"
  shows "talloc_alloc oom t l = Some (Inl e, t')"
proof -
  note I = talloc_invD [OF inv]
  define m where "m = layout_level t l"
  define g where "g = geo_top (talloc_geo t) - m"
  have sz: "layout_to_size t l = Some (2 ^ m)" "m < 63" using layout_to_size_level [OF I(1) l] by (simp_all add: m_def)
  show ?thesis
  proof (cases "arena_size t < 2 ^ m")
    case True
    then have "oom_while_small oom t l (2 ^ m) = Some (Inl e, t')"
      using oom by (subst oom_while_small.simps) simp
    then show ?thesis by (simp add: talloc_alloc_def sz)
  next
    case False
    then have small: "oom_while_small oom t l (2 ^ m) = Some (Inr (), t)"
      by (subst oom_while_small.simps) simp
    have "(2 :: int) ^ m \<le> uint (arena_size t)" using False sz(2) by (simp add: word_less_def uint_pow2)
    also have "\<dots> \<le> 2 ^ geo_top (talloc_geo t)" using geo_okD(4) [OF I(8)] by (simp add: talloc_geo_def)
    finally have m: "m \<le> geo_top (talloc_geo t)" by simp
    have "geo_min (talloc_geo t) \<le> m" by (simp add: m_def layout_level_def)
    then have gl: "g < llists_len t" using I(1) m by (auto simp: talloc_frame_def g_def)
    have empty: "h \<le> g \<Longrightarrow> F h = []" for h
      using larger_block_list [OF inv m] none gl unfolding m_def [symmetric] g_def [symmetric] by auto
    note fl = avail_flag [OF inv gl]
    have "find_larger oom t l (2 ^ m) g = Some (Inl e, t')"
      using fl(3) oom low_avails_0 [OF inv, of g] gl empty
      by (subst find_larger.simps) (simp add: Let_def low_avails_def)
    then show ?thesis
      using fl empty [of g] block_granularity_level [OF I(1) m]
      by (simp add: talloc_alloc_def sz small g_def)
  qed
qed

section \<open>Shrinking\<close>

lemma talloc_shrink_step:
  assumes inv: "talloc_inv t F" and l: "layout_ok old" "layout_ok new"
    and le: "layout_level t new \<le> layout_level t old"
    and can: "can_add t F (layout_level t old, sint p)"
  shows "\<exists>t' F'. talloc_shrink t p old new = Some t' \<and> same_arena t t' \<and> talloc_inv t' F' \<and>
    free_bytes (talloc_blocks t' F') = free_bytes (talloc_blocks t F) \<union>
      (blk_bytes (layout_level t old, sint p) - blk_bytes (layout_level t new, sint p))"
proof -
  note I = talloc_invD [OF inv]
  define M m where "M = layout_level t old" and "m = layout_level t new"
  have sz: "layout_to_size t old = Some (2 ^ M)" "layout_to_size t new = Some (2 ^ m)" "M < 63" "m < 63"
    using layout_to_size_level [OF I(1) l(1)] layout_to_size_level [OF I(1) l(2)] by (simp_all add: M_def m_def)
  have eq: "(2 ^ M :: usize) = 2 ^ m \<longleftrightarrow> M = m"
  proof
    assume "(2 ^ M :: usize) = 2 ^ m"
    then have "fast_non0_log2 (2 ^ M) = fast_non0_log2 (2 ^ m)" by (rule arg_cong)
    moreover have "fast_non0_log2 (2 ^ M) = M" "fast_non0_log2 (2 ^ m) = m"
      using sz(3,4) by (intro fast_non0_log2_pow2; simp)+
    ultimately show "M = m" by simp
  qed simp
  have v: "blk_valid (talloc_geo t) (M, sint p)" using can by (simp add: can_add_def M_def)
  then have top: "M \<le> geo_top (talloc_geo t)" by (simp add: blk_valid_def)
  have mM: "m \<le> M" using le by (simp add: M_def m_def)
  have mn: "geo_min (talloc_geo t) \<le> m" by (simp add: m_def layout_level_def)
  show ?thesis
  proof (cases "M = m")
    case True
    then have "talloc_shrink t p old new = Some t" by (simp add: talloc_shrink_def sz)
    then show ?thesis using inv True by (intro exI [of _ t] exI [of _ F]) (simp add: M_def m_def)
  next
    case False
    then have "talloc_shrink t p old new = split_loop t p (drop_bit 1 (2 ^ M))
        [geo_top (talloc_geo t) - M + 1 ..< geo_top (talloc_geo t) - m + 1]"
      using block_granularity_level [OF I(1) top] block_granularity_level [OF I(1) order_trans [OF mM top]]
      by (simp add: talloc_shrink_def sz eq)
    then show ?thesis using split_loop_correct [OF inv can [folded M_def] mn mM] by (simp add: M_def m_def)
  qed
qed

end
