(* ===== verification/Talloc_Release.thy ===== *)
theory Talloc_Release
  imports Talloc_Ops
begin

text \<open>
  Releasing ranges of memory and creating an allocator. The loop of \<open>release\<close> cuts a range into
  blocks, first of growing and then of shrinking size; it is proved to hand over exactly the range,
  and to end. \<open>new\<close> establishes the allocator's invariant.
\<close>

section \<open>Trailing zeros of an address\<close>

lemma pow2_dvd_sint: "k \<le> 64 \<Longrightarrow> 2 ^ k dvd sint w \<longleftrightarrow> 2 ^ k dvd unat w" for w :: u64
proof -
  assume k: "k \<le> 64"
  have "(2 :: int) ^ k dvd 2 ^ 64" using k by (intro le_imp_power_dvd)
  moreover have "sint w = uint w \<or> sint w = uint w - 2 ^ 64"
  proof (cases "0 \<le> sint w")
    case True
    then show ?thesis by (simp add: uint_eq_sint)
  next
    case False
    have "uint w = sint w mod 2 ^ 64" by (simp add: uint_sint take_bit_eq_mod)
    moreover have "sint w mod 2 ^ 64 = sint w + 2 ^ 64"
    proof -
      have "(sint w + 2 ^ 64) mod 2 ^ 64 = sint w + 2 ^ 64"
        using False sint_ge [of w] by (intro mod_pos_pos_trivial) simp_all
      then show ?thesis by (simp only: mod_add_self2)
    qed
    ultimately show ?thesis by simp
  qed
  ultimately have "2 ^ k dvd sint w \<longleftrightarrow> 2 ^ k dvd uint w" by (auto simp: dvd_diff_left_iff)
  also have "\<dots> \<longleftrightarrow> int (2 ^ k) dvd int (unat w)" by (simp only: uint_nat of_nat_power of_nat_numeral)
  also have "\<dots> \<longleftrightarrow> 2 ^ k dvd unat w" by (simp only: int_dvd_int_iff)
  finally show ?thesis .
qed

lemma trailing_zeros_dvd:
  assumes "w \<noteq> (0 :: u64)"
  shows "2 ^ trailing_zeros w dvd sint w" "k \<le> 64 \<Longrightarrow> 2 ^ k dvd sint w \<Longrightarrow> k \<le> trailing_zeros w"
    "trailing_zeros w < 64"
proof -
  have tz: "trailing_zeros w = ctz (unat w)" and pos: "0 < unat w"
    using assms by (simp_all add: trailing_zeros_def unat_gt_0)
  have "(2 :: nat) ^ ctz (unat w) \<le> unat w" using ctz_dvd pos by (intro dvd_imp_le)
  also have "\<dots> < 2 ^ 64" using unsigned_less [of w, where 'a = nat] by simp
  finally have "(2 :: nat) ^ ctz (unat w) < 2 ^ 64" .
  then show lt: "trailing_zeros w < 64" unfolding tz by (rule power_less_imp_less_exp [rotated]) simp
  show "2 ^ trailing_zeros w dvd sint w" using lt ctz_dvd [of "unat w"] by (simp add: pow2_dvd_sint tz)
  show "k \<le> trailing_zeros w" if "k \<le> 64" "2 ^ k dvd sint w"
  proof (rule ccontr)
    assume "\<not> k \<le> trailing_zeros w"
    then have "(2 :: nat) ^ Suc (ctz (unat w)) dvd 2 ^ k" unfolding tz by (intro le_imp_power_dvd) simp
    then have "2 ^ Suc (ctz (unat w)) dvd unat w" using that by (simp add: pow2_dvd_sint dvd_trans)
    moreover define c where "c = ctz (unat w)"
    ultimately obtain q where q: "unat w = 2 ^ c * (2 * q)" by (auto elim!: dvdE simp: ac_simps)
    then have "unat w div 2 ^ c = 2 * q" by (simp only: nonzero_mult_div_cancel_left power_not_zero) simp
    then show False using ctz_odd [OF pos] by (simp add: c_def)
  qed
qed

lemma trailing_zeros_canonical:
  assumes "w \<noteq> (0 :: u64)" "- (2 ^ 47) \<le> sint w" "sint w \<le> 2 ^ 47"
  shows "trailing_zeros w \<le> 47"
proof -
  have "sint w \<noteq> 0" using assms(1) sint_inject [of w 0] by simp
  then have "2 ^ trailing_zeros w \<le> \<bar>sint w\<bar>"
    using dvd_imp_le_int [OF _ trailing_zeros_dvd(1) [OF assms(1)]] by simp
  also have "\<dots> \<le> 2 ^ 47" using assms by simp
  finally have "(2 :: int) ^ trailing_zeros w \<le> 2 ^ 47" .
  then show ?thesis by (rule power_le_imp_le_exp [rotated]) simp
qed

section \<open>The release loop\<close>

lemma level_pow2:
  assumes "talloc_frame t" "geo_min (talloc_geo t) \<le> k" "k \<le> 62"
  defines "l \<equiv> \<lparr>layout_size = 2 ^ k, layout_align = 1\<rparr>"
  shows "layout_ok l" "layout_level t l = k"
proof -
  have un: "unat (2 ^ k :: usize) = 2 ^ k" using assms by (intro unat_pow2) simp
  have "bit_len (2 ^ k - 1) = k"
    using next_pow2_le_iff [of "2 ^ k" k] next_pow2_le_iff [of "2 ^ k" "k - 1"] by (cases k) auto
  moreover have "fast_non0_log2 1 = 0" using fast_non0_log2_pow2 [of 0] by simp
  ultimately show "layout_level t l = k" using assms un by (simp add: layout_level_def)
  have "(2 :: nat) ^ k \<le> 2 ^ 62" using assms by (intro power_increasing) auto
  moreover have "(2 ^ k :: usize) \<noteq> 0" using un by (metis power_not_zero unsigned_0 zero_neq_numeral)
  ultimately show "layout_ok l" using un by (simp add: layout_ok_def assms is_power_of_two_def)
qed

text \<open>A range of reserved memory that may be handed over.\<close>

definition can_release :: "talloc \<Rightarrow> (nat \<Rightarrow> ptr list) \<Rightarrow> int \<Rightarrow> int \<Rightarrow> bool" where
  "can_release t F x y \<longleftrightarrow> 2 ^ geo_min (talloc_geo t) dvd x \<and> 2 ^ geo_min (talloc_geo t) dvd y \<and> x \<le> y \<and>
     geo_base (talloc_geo t) \<le> x \<and> y \<le> geo_base (talloc_geo t) + geo_size (talloc_geo t) \<and>
     {x..<y} \<inter> free_bytes (talloc_blocks t F) = {} \<and> {x..<y} \<inter> status_bytes t = {} \<and> 0 \<notin> {x..y}"

lemma can_release_block:
  assumes inv: "talloc_inv t F" and can: "can_release t F (sint p) y"
    and k: "geo_min (talloc_geo t) \<le> k" "2 ^ k dvd sint p" "sint p + 2 ^ k \<le> y"
  shows "k \<le> 48" "sint (p + 2 ^ k) = sint p + 2 ^ k" "checked_sadd p (2 ^ k) = Some (p + 2 ^ k)"
    "\<exists>t' F'. talloc_dealloc t p \<lparr>layout_size = 2 ^ k, layout_align = 1\<rparr> = Some t' \<and>
      same_arena t t' \<and> talloc_inv t' F' \<and>
      free_bytes (talloc_blocks t' F') = free_bytes (talloc_blocks t F) \<union> {sint p ..< sint p + 2 ^ k} \<and>
      can_release t' F' (sint p + 2 ^ k) y"
proof -
  note I = talloc_invD [OF inv]
  define P where "P = (2 :: int) ^ k"
  define G where "G = talloc_geo t"
  have P: "0 < P" by (simp add: P_def)
  note C = can [unfolded can_release_def, folded G_def]
  have "P \<le> geo_size G" using C k(3) unfolding P_def by linarith
  also have "\<dots> \<le> 2 ^ geo_top G" using geo_okD(4) [OF I(8)] by (simp add: G_def)
  finally have top: "k \<le> geo_top G" by (simp add: P_def)
  then show k48: "k \<le> 48" using geo_okD(3) [OF I(8)] by (simp add: G_def)
  have sp: "sint (2 ^ k :: usize) = P" unfolding P_def using k48 by (intro sint_pow2) simp
  have can_b: "- (2 ^ 47) \<le> sint p" "sint p + P \<le> 2 ^ 47"
    using C k(3) geo_okD(6,7) [OF I(8), folded G_def] unfolding P_def by linarith+
  show add: "sint (p + 2 ^ k) = sint p + 2 ^ k"
    unfolding P_def [symmetric] using can_b P sp by (subst sint_add_eq) simp_all
  show "checked_sadd p (2 ^ k) = Some (p + 2 ^ k)"
    using can_b P sp by (subst checked_sadd_Some) simp_all
  have bytes: "blk_bytes (k, sint p) = {sint p ..< sint p + P}" by (simp add: blk_bytes_def P_def)
  have sub: "{sint p ..< sint p + P} \<subseteq> {sint p ..< y}" using k(3) by (auto simp: P_def)
  have v: "blk_valid G (k, sint p)" using C k top by (auto simp: blk_valid_def G_def)
  have dj: "{sint p ..< sint p + P} \<inter> free_bytes (talloc_blocks t F) = {}"
    "{sint p ..< sint p + P} \<inter> status_bytes t = {}" "0 \<notin> {sint p ..< sint p + P}"
    "{sint p + P ..< y} \<inter> (free_bytes (talloc_blocks t F) \<union> {sint p ..< sint p + P}) = {}"
    "{sint p + P ..< y} \<inter> status_bytes t = {}" "0 \<notin> {sint p + P .. y}"
  proof -
    have sub': "{sint p + P ..< y} \<subseteq> {sint p ..< y}" "{sint p + P .. y} \<subseteq> {sint p .. y}"
      "{sint p ..< y} \<subseteq> {sint p .. y}" "{sint p + P ..< y} \<inter> {sint p ..< sint p + P} = {}"
      using P by auto
    have C': "{sint p ..< y} \<inter> free_bytes (talloc_blocks t F) = {}" "{sint p ..< y} \<inter> status_bytes t = {}"
      "0 \<notin> {sint p .. y}"
      using can unfolding can_release_def by blast+
    show "{sint p ..< sint p + P} \<inter> free_bytes (talloc_blocks t F) = {}" using C'(1) sub by blast
    show "{sint p ..< sint p + P} \<inter> status_bytes t = {}" using C'(2) sub by blast
    show "0 \<notin> {sint p ..< sint p + P}" using C'(3) sub sub'(3) by blast
    show "{sint p + P ..< y} \<inter> (free_bytes (talloc_blocks t F) \<union> {sint p ..< sint p + P}) = {}"
      using C'(1) sub'(1,4) by blast
    show "{sint p + P ..< y} \<inter> status_bytes t = {}" using C'(2) sub'(1) by blast
    show "0 \<notin> {sint p + P .. y}" using C'(3) sub'(2) by blast
  qed
  have "can_add t F (k, sint p)"
    unfolding can_add_def bytes using v dj by (simp add: G_def)
  moreover note lv = level_pow2 [OF I(1) k(1)]
  ultimately obtain t' F' where t': "talloc_dealloc t p \<lparr>layout_size = 2 ^ k, layout_align = 1\<rparr> = Some t'"
    "same_arena t t'" "talloc_inv t' F'"
    "free_bytes (talloc_blocks t' F') = free_bytes (talloc_blocks t F) \<union> {sint p ..< sint p + P}"
    using talloc_dealloc_step [OF inv lv(1), of p] lv(2) k48 by (auto simp: bytes)
  have dv: "2 ^ geo_min G dvd sint p + P"
    using C k(1) unfolding P_def by (intro dvd_add) (auto simp: G_def intro: le_imp_power_dvd)
  have "can_release t' F' (sint p + P) y"
    unfolding can_release_def t'(4) unfolding same_arenaD(1,4) [OF t'(2)]
    using C [unfolded G_def] dv [unfolded G_def] P k(3) dj(4-6) unfolding P_def [symmetric] by simp
  then show "\<exists>t' F'. talloc_dealloc t p \<lparr>layout_size = 2 ^ k, layout_align = 1\<rparr> = Some t' \<and>
      same_arena t t' \<and> talloc_inv t' F' \<and>
      free_bytes (talloc_blocks t' F') = free_bytes (talloc_blocks t F) \<union> {sint p ..< sint p + 2 ^ k} \<and>
      can_release t' F' (sint p + 2 ^ k) y"
    using t' by (auto simp: P_def)
qed

lemma can_release_range:
  assumes "talloc_inv t F" "can_release t F x y"
  shows "- (2 ^ 47) \<le> x" "y \<le> 2 ^ 47" "x \<le> y"
  using assms(2) geo_okD(6,7) [OF talloc_invD(8) [OF assms(1)]] unfolding can_release_def by linarith+

lemma release_delta:
  assumes "talloc_inv t F" "can_release t F (sint p) (sint acme)"
  shows "checked_ssub acme p = Some (acme - p)" "uint (acme - p) = sint acme - sint p"
    "smlst_block t \<le> acme - p \<longleftrightarrow> sint p < sint acme"
proof -
  note r = can_release_range [OF assms]
  note I = talloc_invD [OF assms(1)]
  show "checked_ssub acme p = Some (acme - p)" using r by (subst checked_ssub_Some) simp_all
  have "sint (acme - p) = sint acme - sint p" using r by (subst sint_sub_eq) simp_all
  then show u: "uint (acme - p) = sint acme - sint p" using uint_eq_sint [of "acme - p"] r by simp
  define s where "s = geo_min (talloc_geo t)"
  have s: "s \<le> 48" "smlst_block t = 2 ^ s"
    using geo_okD(2,3) [OF I(8)] I(1) by (auto simp: s_def talloc_frame_def)
  have "2 ^ s dvd sint acme - sint p" using assms(2) by (auto simp: can_release_def s_def)
  then have "sint p < sint acme \<Longrightarrow> 2 ^ s \<le> sint acme - sint p" by (intro zdvd_imp_le) auto
  moreover have "(0 :: int) < 2 ^ s" by simp
  ultimately have "2 ^ s \<le> sint acme - sint p \<longleftrightarrow> sint p < sint acme" by linarith
  then show "smlst_block t \<le> acme - p \<longleftrightarrow> sint p < sint acme"
    using s by (simp add: word_le_def u uint_pow2)
qed

lemma release_loop_desc:
  assumes "talloc_inv t F" "can_release t F (sint p) (sint acme)"
    and "geo_min (talloc_geo t) \<le> k" "2 ^ k dvd sint p" "sint acme - sint p < 2 ^ k"
  shows "\<exists>t' F'. release_loop t p acme False = Some t' \<and> same_arena t t' \<and> talloc_inv t' F' \<and>
    free_bytes (talloc_blocks t' F') = free_bytes (talloc_blocks t F) \<union> {sint p ..< sint acme}"
  using assms
proof (induction "nat (sint acme - sint p)" arbitrary: t F p k rule: less_induct)
  case (less p t F k)
  note d = release_delta [OF less.prems(1,2)]
  show ?case
  proof (cases "sint p < sint acme")
    case False
    then have "release_loop t p acme False = Some t" using d by (subst release_loop.simps) simp
    then show ?thesis using less.prems(1) False by (intro exI [of _ t] exI [of _ F]) simp
  next
    case True
    define j where "j = fast_non0_log2 (acme - p)"
    have "acme - p \<noteq> 0" using d(2) True by auto
    note jb = fast_non0_log2_bounds [OF this, folded j_def]
    have ib: "2 ^ j \<le> sint acme - sint p" "sint acme - sint p < 2 ^ Suc j"
    proof -
      have u: "int (unat (acme - p)) = sint acme - sint p" using d(2) by simp
      have "int (2 ^ j) \<le> int (unat (acme - p))" "int (unat (acme - p)) < int (2 ^ Suc j)"
        using jb by (simp_all only: of_nat_le_iff of_nat_less_iff)
      then show "2 ^ j \<le> sint acme - sint p" "sint acme - sint p < 2 ^ Suc j"
        unfolding u by simp_all
    qed
    have "(2 :: int) ^ j < 2 ^ k" using ib(1) less.prems(5) by linarith
    then have jk: "j < k" by simp
    have dv: "2 ^ geo_min (talloc_geo t) dvd sint acme - sint p"
      using less.prems(2) by (auto simp: can_release_def)
    then have "2 ^ geo_min (talloc_geo t) \<le> sint acme - sint p" using True by (intro zdvd_imp_le) auto
    then have "(2 :: int) ^ geo_min (talloc_geo t) < 2 ^ Suc j" using ib(2) by linarith
    then have sj: "geo_min (talloc_geo t) \<le> j" by (simp del: power_Suc)
    have pj: "2 ^ j dvd sint p" using less.prems(4) jk by (meson dvd_trans le_imp_power_dvd less_imp_le)
    note blk = can_release_block [OF less.prems(1,2) sj pj]
    have le: "sint p + 2 ^ j \<le> sint acme" using ib(1) by linarith
    obtain t1 F1 where t1: "talloc_dealloc t p \<lparr>layout_size = 2 ^ j, layout_align = 1\<rparr> = Some t1"
      "same_arena t t1" "talloc_inv t1 F1"
      "free_bytes (talloc_blocks t1 F1) = free_bytes (talloc_blocks t F) \<union> {sint p ..< sint p + 2 ^ j}"
      "can_release t1 F1 (sint p + 2 ^ j) (sint acme)"
      using blk(4) [OF le] by blast
    note sp = blk(2) [OF le]
    note S = same_arenaD [OF t1(2)]
    have pos: "(0 :: int) < 2 ^ j" by simp
    have dec: "nat (sint acme - sint (p + 2 ^ j)) < nat (sint acme - sint p)" using sp pos True by linarith
    have dvd': "2 ^ j dvd sint (p + 2 ^ j)" using pj by (simp add: sp)
    have lt': "sint acme - sint (p + 2 ^ j) < 2 ^ j" using ib(2) by (simp add: sp)
    from less.hyps [OF dec t1(3) _ _ dvd' lt'] t1(5) sj obtain t2 F2 where
      t2: "release_loop t1 (p + 2 ^ j) acme False = Some t2" "same_arena t1 t2" "talloc_inv t2 F2"
      "free_bytes (talloc_blocks t2 F2) = free_bytes (talloc_blocks t1 F1) \<union> {sint p + 2 ^ j ..< sint acme}"
      unfolding S(1) sp by blast
    have run: "release_loop t p acme False = Some t2"
      using d True t1(1) t2(1) blk(3) [OF le]
      by (subst release_loop.simps) (simp add: fast_non0_prev_pow2_eq j_def Let_def)
    have un: "{sint p ..< sint p + 2 ^ j} \<union> {sint p + 2 ^ j ..< sint acme} = {sint p ..< sint acme}"
      using le pos by (intro ivl_disj_un_two(3)) linarith+
    have "free_bytes (talloc_blocks t2 F2) = free_bytes (talloc_blocks t F) \<union> {sint p ..< sint acme}"
      unfolding t2(4) t1(4) by (simp only: un sup_assoc)
    then show ?thesis using run same_arena_trans [OF t1(2) t2(2)] t2(3) by blast
  qed
qed

lemma release_loop_asc:
  assumes "talloc_inv t F" "can_release t F (sint p) (sint acme)"
  shows "\<exists>t' F'. release_loop t p acme True = Some t' \<and> same_arena t t' \<and> talloc_inv t' F' \<and>
    free_bytes (talloc_blocks t' F') = free_bytes (talloc_blocks t F) \<union> {sint p ..< sint acme}"
  using assms
proof (induction "nat (sint acme - sint p)" arbitrary: t F p rule: less_induct)
  case (less p t F)
  note r = can_release_range [OF less.prems]
  have p0: "p \<noteq> 0" using less.prems(2) by (auto simp: can_release_def)
  define k where "k = trailing_zeros p"
  have k47: "k \<le> 47" unfolding k_def using p0 r by (intro trailing_zeros_canonical) auto
  have pk: "2 ^ k dvd sint p" unfolding k_def by (rule trailing_zeros_dvd(1) [OF p0])
  have "2 ^ geo_min (talloc_geo t) dvd sint p" using less.prems(2) by (simp add: can_release_def)
  then have sk: "geo_min (talloc_geo t) \<le> k"
    unfolding k_def using geo_okD(2,3) [OF talloc_invD(8) [OF less.prems(1)]]
    by (intro trailing_zeros_dvd(2) [OF p0]) auto
  define P where "P = (2 :: int) ^ k"
  have P: "0 < P" "P \<le> 2 ^ 47" using k47 power_increasing [OF k47, of "2 :: int"] by (auto simp: P_def)
  have sp: "sint (2 ^ k :: usize) = P" unfolding P_def using k47 by (intro sint_pow2) simp
  have add: "checked_sadd p (2 ^ k) = Some (p + 2 ^ k)" "sint (p + 2 ^ k) = sint p + 2 ^ k"
    unfolding P_def [symmetric] using r P sp
    by (subst checked_sadd_Some, simp_all) (subst sint_add_eq, simp_all)
  have shl: "checked_shl (1 :: usize) k = Some (2 ^ k)" using k47 by (simp add: checked_shl_def push_bit_eq_mult)
  show ?case
  proof (cases "sint p + 2 ^ k \<le> sint acme")
    case True
    note blk = can_release_block [OF less.prems sk pk True]
    obtain t1 F1 where t1: "talloc_dealloc t p \<lparr>layout_size = 2 ^ k, layout_align = 1\<rparr> = Some t1"
      "same_arena t t1" "talloc_inv t1 F1"
      "free_bytes (talloc_blocks t1 F1) = free_bytes (talloc_blocks t F) \<union> {sint p ..< sint p + 2 ^ k}"
      "can_release t1 F1 (sint p + 2 ^ k) (sint acme)"
      using blk(4) by blast
    have dec: "nat (sint acme - sint (p + 2 ^ k)) < nat (sint acme - sint p)"
      using add(2) P True unfolding P_def by linarith
    from less.hyps [OF dec t1(3)] t1(5) obtain t2 F2 where
      t2: "release_loop t1 (p + 2 ^ k) acme True = Some t2" "same_arena t1 t2" "talloc_inv t2 F2"
      "free_bytes (talloc_blocks t2 F2) = free_bytes (talloc_blocks t1 F1) \<union> {sint p + 2 ^ k ..< sint acme}"
      unfolding add(2) by blast
    have run: "release_loop t p acme True = Some t2"
      using shl add True t1(1) t2(1) by (subst release_loop.simps) (simp add: k_def word_sle_eq)
    have un: "{sint p ..< sint p + 2 ^ k} \<union> {sint p + 2 ^ k ..< sint acme} = {sint p ..< sint acme}"
      using True P(1) unfolding P_def by (intro ivl_disj_un_two(3)) linarith+
    have "free_bytes (talloc_blocks t2 F2) = free_bytes (talloc_blocks t F) \<union> {sint p ..< sint acme}"
      unfolding t2(4) t1(4) by (simp only: un sup_assoc)
    then show ?thesis using run same_arena_trans [OF t1(2) t2(2)] t2(3) by blast
  next
    case False
    then have "release_loop t p acme True = release_loop t p acme False"
      using shl add by (subst release_loop.simps) (simp add: k_def word_sle_eq)
    then show ?thesis using release_loop_desc [OF less.prems sk pk] False by auto
  qed
qed

section \<open>Releasing a slice\<close>

definition round_down :: "nat \<Rightarrow> int \<Rightarrow> int" where
  "round_down s a = a div 2 ^ s * 2 ^ s"

definition round_up :: "nat \<Rightarrow> int \<Rightarrow> int" where
  "round_up s a = round_down s (a + 2 ^ s - 1)"

lemma round_down_bounds: "round_down s a \<le> a" "a < round_down s a + 2 ^ s" "2 ^ s dvd round_down s a"
proof -
  have "a = a div 2 ^ s * 2 ^ s + a mod 2 ^ s" by (simp only: div_mult_mod_eq)
  moreover have "0 \<le> a mod 2 ^ s" "a mod 2 ^ s < 2 ^ s" by simp_all
  ultimately show "round_down s a \<le> a" "a < round_down s a + 2 ^ s" unfolding round_down_def by linarith+
  show "2 ^ s dvd round_down s a" by (simp add: round_down_def)
qed

lemma round_up_bounds: "a \<le> round_up s a" "round_up s a < a + 2 ^ s" "2 ^ s dvd round_up s a"
  using round_down_bounds [where s = s and a = "a + 2 ^ s - 1"] by (auto simp: round_up_def)

lemma round_down_dvd [simp]: "2 ^ s dvd a \<Longrightarrow> round_down s a = a"
  by (simp add: round_down_def)

lemma round_up_dvd: "2 ^ s dvd a \<Longrightarrow> round_up s a = a"
proof -
  assume "2 ^ s dvd a"
  then obtain q where q: "a = 2 ^ s * q" by (elim dvdE)
  have "round_up s a - a < 2 ^ s" "0 \<le> round_up s a - a" "2 ^ s dvd round_up s a - a"
    using round_up_bounds [where s = s and a = a] by (auto simp: q)
  then show ?thesis by (metis diff_eq_eq add_0 dvd_imp_le_int abs_of_nonneg abs_numeral
        leD power_abs zdvd_not_zless order_le_less)
qed

text \<open>The mask arithmetic of \<open>release\<close>.\<close>

lemma release_mask:
  assumes "s \<le> 48"
  shows "checked_ssub (2 ^ s) 1 = Some (mask s :: u64)" "sint (mask s :: u64) = 2 ^ s - 1"
    "sint (w AND NOT (mask s :: u64)) = round_down s (sint w)"
proof -
  define P where "P = (2 :: int) ^ s"
  have P: "0 < P" "P \<le> 2 ^ 48" using power_increasing [OF assms, of "2 :: int"] by (auto simp: P_def)
  have sp: "sint (2 ^ s :: u64) = P" unfolding P_def using assms by (intro sint_pow2) simp
  have m: "(mask s :: u64) = 2 ^ s - 1" by (simp add: mask_eq_exp_minus_1)
  show "checked_ssub (2 ^ s) 1 = Some (mask s :: u64)" unfolding m using P sp by (subst checked_ssub_Some) simp_all
  show "sint (mask s :: u64) = 2 ^ s - 1" unfolding m P_def [symmetric] using P sp by (subst sint_sub_eq) simp_all
  show "sint (w AND NOT (mask s :: u64)) = round_down s (sint w)"
    unfolding round_down_def using assms by (intro sint_align) simp
qed

lemma talloc_release_step:
  assumes inv: "talloc_inv t F"
    and mem: "- (2 ^ 47) \<le> sint mem" "sint mem + uint len \<le> 2 ^ 47"
    and can: "can_release t F (round_up (geo_min (talloc_geo t)) (sint mem))
                (round_down (geo_min (talloc_geo t)) (sint mem + uint len))"
  shows "\<exists>t' F'. talloc_release t mem len = Some t' \<and> same_arena t t' \<and> talloc_inv t' F' \<and>
    free_bytes (talloc_blocks t' F') = free_bytes (talloc_blocks t F) \<union>
      {round_up (geo_min (talloc_geo t)) (sint mem) ..<
       round_down (geo_min (talloc_geo t)) (sint mem + uint len)}"
proof -
  note I = talloc_invD [OF inv]
  define s where "s = geo_min (talloc_geo t)"
  define P where "P = (2 :: int) ^ s"
  define x y where "x = round_up s (sint mem)" and "y = round_down s (sint mem + uint len)"
  note can' = can [folded s_def, folded x_def y_def]
  note r = can_release_range [OF inv can']
  have s: "s \<le> 48" "smlst_block t = 2 ^ s"
    using geo_okD(2,3) [OF I(8)] I(1) by (auto simp: s_def talloc_frame_def)
  have P: "0 < P" "P \<le> 2 ^ 48" using power_increasing [OF s(1), of "2 :: int"] by (auto simp: P_def)
  note m = release_mask [OF s(1)]
  define L where "L = uint len"
  have ul: "0 \<le> L" by (simp add: L_def)
  note mem = mem [folded L_def]
  have up: "checked_sadd mem (mask s) = Some (mem + mask s)" "sint (mem + mask s) = sint mem + P - 1"
    using mem P ul m(2) unfolding P_def [symmetric]
    by (subst checked_sadd_Some, simp_all) (subst sint_add_eq, simp_all)
  have sl: "sint len = L" unfolding L_def using mem by (intro sint_eq_uint) (simp add: L_def)
  have dn: "checked_sadd mem len = Some (mem + len)" "sint (mem + len) = sint mem + L"
    using mem ul sl by (subst checked_sadd_Some, simp_all) (subst sint_add_eq, simp_all)
  define base acme where "base = (mem + mask s) AND NOT (mask s)" and "acme = (mem + len) AND NOT (mask s)"
  have sb: "sint base = x" "sint acme = y"
    by (simp_all add: base_def acme_def m(3) up(2) dn(2) x_def y_def round_up_def P_def L_def)
  have ar: "checked_sadd (arena_base t) (arena_size t) = Some (arena_base t + arena_size t)"
    "sint (arena_base t + arena_size t) = geo_base (talloc_geo t) + geo_size (talloc_geo t)"
  proof -
    have g: "- (2 ^ 47) \<le> sint (arena_base t)" "sint (arena_base t) + uint (arena_size t) \<le> 2 ^ 47"
      using geo_okD(6,7) [OF I(8)] by (simp_all add: talloc_geo_def)
    define n where "n = uint (arena_size t)"
    note g = g [folded n_def]
    have n: "sint (arena_size t) = n" unfolding n_def using g by (intro sint_eq_uint) (simp add: n_def)
    have "0 \<le> n" by (simp add: n_def)
    with n show "checked_sadd (arena_base t) (arena_size t) = Some (arena_base t + arena_size t)"
      "sint (arena_base t + arena_size t) = geo_base (talloc_geo t) + geo_size (talloc_geo t)"
      unfolding talloc_geo_def geometry.simps n_def [symmetric]
      using g by (subst checked_sadd_Some, simp_all) (subst sint_add_eq, simp_all)
  qed
  have asserts: "arena_base t \<le>s base" "acme \<le>s arena_base t + arena_size t"
    using can' by (simp_all add: word_sle_eq sb ar can_release_def talloc_geo_def)
  have cross: "\<not> (base \<le>s 0 \<and> 0 <s acme)"
    using can' r by (auto simp: word_sle_eq word_sless_alt sb can_release_def)
  have eq: "talloc_release t mem len = (if base = acme then Some t else release_loop t base acme True)"
    using m(1) up dn ar asserts cross
    by (subst talloc_release.simps) (auto simp: s Let_def base_def [symmetric] acme_def [symmetric])
  show ?thesis
  proof (cases "base = acme")
    case True
    then have "x = y" using sb by simp
    then show ?thesis using True eq inv unfolding s_def [symmetric] x_def [symmetric] y_def [symmetric]
      by (intro exI [of _ t] exI [of _ F]) simp
  next
    case False
    then show ?thesis
      using eq release_loop_asc [OF inv, of base acme] can' unfolding s_def [symmetric] x_def [symmetric] y_def [symmetric]
      by (simp add: sb)
  qed
qed

section \<open>Ranges below null\<close>

lemma release_loop_null: "sint p \<le> 0 \<Longrightarrow> release_loop t p 0 True = None"
proof (induction "nat (- sint p)" arbitrary: t p rule: less_induct)
  case (less p t)
  show ?case
  proof (cases "p = 0")
    case True
    then show ?thesis by (subst release_loop.simps) (simp add: trailing_zeros_def checked_shl_def)
  next
    case False
    define k where "k = trailing_zeros p"
    define P where "P = (2 :: int) ^ k"
    have k: "k < 64" "2 ^ k dvd sint p" using trailing_zeros_dvd(1,3) [OF False] by (auto simp: k_def)
    have P: "0 < P" by (simp add: P_def)
    have neg: "sint p < 0" using less.prems False sint_inject [of p 0] by simp
    have shl: "checked_shl (1 :: usize) k = Some (2 ^ k)" using k by (simp add: checked_shl_def push_bit_eq_mult)
    have "P \<le> - sint p" unfolding P_def using k(2) neg by (intro zdvd_imp_le) auto
    show ?thesis
    proof (cases "k = 63")
      case True
      have "sint (2 ^ 63 :: u64) = - (2 ^ 63)" by simp
      moreover have "sint p \<le> - (2 ^ 63)" using \<open>P \<le> - sint p\<close> True by (simp add: P_def)
      ultimately have "checked_sadd p (2 ^ k) = None" by (simp add: checked_sadd_def True)
      then show ?thesis using shl by (subst release_loop.simps) (simp add: k_def)
    next
      case False
      then have sp: "sint (2 ^ k :: u64) = P" unfolding P_def using k(1) by (intro sint_pow2) simp
      have add: "sint (p + 2 ^ k) = sint p + P" "checked_sadd p (2 ^ k) = Some (p + 2 ^ k)"
        using sint_ge [of p] P sp neg \<open>P \<le> - sint p\<close>
        by (subst sint_add_eq, simp_all) (subst checked_sadd_Some, simp_all)
      have "release_loop t' (p + 2 ^ k) 0 True = None" for t'
        using less.hyps [of "p + 2 ^ k" t'] add P \<open>P \<le> - sint p\<close> neg by simp
      then show ?thesis
        using shl add \<open>P \<le> - sint p\<close>
        by (subst release_loop.simps) (simp add: k_def [symmetric] word_sle_eq split: bind_splits)
    qed
  qed
qed

text \<open>An aligned slice that reaches the null address from below.\<close>

lemma talloc_release_to_null:
  assumes s: "s \<le> 48" "smlst_block t = 2 ^ s" "2 ^ s dvd sint mem"
    and mem: "- (2 ^ 47) \<le> sint mem" "sint mem < 0" "uint len = - sint mem"
  shows "talloc_release t mem len = None"
proof -
  define P where "P = (2 :: int) ^ s"
  have P: "0 < P" "P \<le> 2 ^ 48" using power_increasing [OF s(1), of "2 :: int"] by (auto simp: P_def)
  note m = release_mask [OF s(1)]
  have up: "checked_sadd mem (mask s) = Some (mem + mask s)" "sint (mem + mask s) = sint mem + P - 1"
    using mem(1,2) P m(2) unfolding P_def [symmetric]
    by (subst checked_sadd_Some, simp_all) (subst sint_add_eq, simp_all)
  have sl: "sint len = - sint mem" using mem by (subst sint_eq_uint) simp_all
  then have "sint (mem + len) = 0" using mem by (subst sint_add_eq) simp_all
  then have dn: "mem + len = 0" using sint_inject [of "mem + len" 0] by simp
  define base where "base = (mem + mask s) AND NOT (mask s)"
  have base: "sint base = sint mem"
    using round_up_dvd [OF s(3)] by (simp add: base_def m(3) up(2) round_up_def P_def)
  have "base \<noteq> 0" using base mem(2) by auto
  moreover have "checked_sadd mem len = Some 0" using mem sl dn by (subst checked_sadd_Some) simp_all
  moreover have "release_loop t base 0 True = None" using base mem by (intro release_loop_null) simp
  ultimately show ?thesis
    using m(1) up(1) by (subst talloc_release.simps)
      (simp add: s(2) Let_def base_def [symmetric] rust_assert_def split: bind_splits)
qed

lemma talloc_release_null:
  assumes s: "s \<le> 48" "smlst_block t = 2 ^ s" "2 ^ s dvd sint mem"
    and mem: "- (2 ^ 47) \<le> sint mem" "sint mem < 0" "0 \<le> sint mem + uint len" "uint len \<le> 2 ^ 48"
  shows "talloc_release t mem len = None"
proof (cases "uint len = - sint mem")
  case True
  then show ?thesis using talloc_release_to_null [OF s mem(1,2)] by simp
next
  case False
  define P where "P = (2 :: int) ^ s"
  define L where "L = uint len"
  note mem = mem [folded L_def] and False [folded L_def]
  have P: "0 < P" "P \<le> 2 ^ 48" using power_increasing [OF s(1), of "2 :: int"] by (auto simp: P_def)
  note m = release_mask [OF s(1)]
  have up: "checked_sadd mem (mask s) = Some (mem + mask s)" "sint (mem + mask s) = sint mem + P - 1"
    using mem(1,2) P m(2) unfolding P_def [symmetric]
    by (subst checked_sadd_Some, simp_all) (subst sint_add_eq, simp_all)
  have sl: "sint len = L" unfolding L_def using mem by (intro sint_eq_uint) (simp add: L_def)
  have dn: "checked_sadd mem len = Some (mem + len)" "sint (mem + len) = sint mem + L"
    using mem sl by (subst checked_sadd_Some, simp_all) (subst sint_add_eq, simp_all)
  define base acme where "base = (mem + mask s) AND NOT (mask s)" and "acme = (mem + len) AND NOT (mask s)"
  have base: "sint base = sint mem"
    using round_up_dvd [OF s(3)] by (simp add: base_def m(3) up(2) round_up_def P_def)
  then have bm: "base = mem" by simp
  have acme: "sint acme = round_down s (sint mem + L)" by (simp add: acme_def m(3) dn(2))
  have "0 \<le> sint acme" unfolding acme round_down_def using mem(3) by (simp add: pos_imp_zdiv_nonneg_iff)
  then consider "acme = 0" | "0 <s acme" using sint_inject [of acme 0] by (auto simp: word_sless_alt)
  then have "talloc_release t mem len = None"
  proof cases
    case 1
    have "release_loop t base 0 True = None" using base mem by (intro release_loop_null) simp
    moreover have "base \<noteq> 0" using base mem(2) by auto
    ultimately show ?thesis
      using m(1) up(1) dn(1) 1 by (subst talloc_release.simps)
        (simp add: s(2) Let_def base_def [symmetric] acme_def [symmetric] rust_assert_def split: bind_splits)
  next
    case 2
    have neg: "checked_ssub 0 base = Some (- mem)" "sint (- mem) = - sint mem"
      using mem(1,2) sint_sub_eq [of 0 mem] by (simp_all add: bm checked_ssub_def)
    then have "uint (- mem) = - sint mem" using uint_eq_sint [of "- mem"] mem(2) by simp
    then have "talloc_release t mem (- mem) = None" using talloc_release_to_null [OF s mem(1,2)] by simp
    moreover have "base \<noteq> acme" using base mem(2) \<open>0 \<le> sint acme\<close> by auto
    moreover have "base \<le>s 0" using base mem(2) by (simp add: word_sle_eq)
    ultimately show ?thesis
      using m(1) up(1) dn(1) 2 neg(1) by (subst talloc_release.simps)
        (simp add: s(2) Let_def base_def [symmetric] acme_def [symmetric] rust_assert_def split: bind_splits)
  qed
  then show ?thesis .
qed

end
