(* ===== verification/Talloc_New.thy ===== *)
theory Talloc_New
  imports Talloc_Release
begin

text \<open>
  Creation of an allocator by \<open>Talloc::new\<close>, that is \<open>extend\<close> on the invalid allocator:
  the status data is laid out at the start of the free memory, the lists are empty, the bitmap is
  clear, and the rest of the free memory is released.
\<close>

lemma is_power_of_two_pow2: "s < 64 \<Longrightarrow> is_power_of_two (2 ^ s :: u64)"
proof -
  assume s: "s < 64"
  have "unat (2 ^ s :: u64) \<noteq> 0" using s by (simp add: unat_pow2)
  then have "(2 ^ s :: u64) \<noteq> 0" by (metis unsigned_0)
  moreover have "2 ^ s AND (2 ^ s - 1) = (0 :: u64)"
    unfolding mask_eq_exp_minus_1 [symmetric] by (rule bit_word_eqI) (auto simp: bit_simps)
  ultimately show ?thesis by (simp add: is_power_of_two_def)
qed

text \<open>The number of granularities and of bitmap bytes for an arena.\<close>

definition arena_top :: "usize \<Rightarrow> nat" where
  "arena_top sz = bit_len (unat sz - 1)"

definition arena_lists :: "usize \<Rightarrow> nat \<Rightarrow> nat" where
  "arena_lists sz s = arena_top sz - s + 1"

definition arena_bitmap :: "usize \<Rightarrow> nat \<Rightarrow> nat" where
  "arena_bitmap sz s = max 1 (2 ^ arena_lists sz s div 8)"

definition arena_args_ok :: "usize \<Rightarrow> nat \<Rightarrow> bool" where
  "arena_args_ok sz s \<longleftrightarrow> 64 \<le> unat sz \<and> unat sz \<le> 2 ^ 48 \<and> 4 \<le> s \<and> s \<le> arena_top sz"

lemma arena_args:
  assumes "arena_args_ok sz s"
  shows "arena_top sz \<le> 48" "s \<le> 48" "unat sz \<le> 2 ^ arena_top sz" "1 \<le> arena_lists sz s" "arena_lists sz s \<le> 45"
proof -
  have sz: "0 < unat sz" "unat sz \<le> 2 ^ 48" using assms by (simp_all add: arena_args_ok_def)
  show K: "arena_top sz \<le> 48" using sz next_pow2_le_iff [of "unat sz" 48] by (simp add: arena_top_def)
  show "unat sz \<le> 2 ^ arena_top sz" using sz next_pow2_le_iff [of "unat sz" "arena_top sz"] by (simp add: arena_top_def)
  show "s \<le> 48" "1 \<le> arena_lists sz s" "arena_lists sz s \<le> 45"
    using K assms by (auto simp: arena_args_ok_def arena_lists_def)
qed

lemma slice_bytes_eq:
  assumes a: "arena_args_ok sz s"
  shows "slice_bytes sz (2 ^ s) = Some (of_nat (16 * arena_lists sz s), of_nat (arena_bitmap sz s))"
proof -
  define N where "N = arena_lists sz s"
  note A = arena_args [OF a, folded N_def]
  have sz: "64 \<le> unat sz" "unat sz \<le> 2 ^ 48" "4 \<le> s" using a by (auto simp: arena_args_ok_def)
  have val: "validate_arena_args sz (2 ^ s) = Some ()"
  proof -
    have "(16 :: nat) \<le> 2 ^ s" using power_increasing [OF sz(3), of "2 :: nat"] by simp
    moreover have "unat (2 ^ s :: u64) = 2 ^ s" using A(2) by (simp add: unat_pow2)
    ultimately have "llist_node_size \<le> 2 ^ s" by (simp add: llist_node_size_def word_le_nat_alt)
    then show ?thesis
      using sz A(2) by (simp add: validate_arena_args_def MINIMUM_ARENA_SIZE_def MAXIMUM_ARENA_SIZE_def
          is_power_of_two_pow2 word_le_nat_alt)
  qed
  have sz1: "unat (sz - 1) = unat sz - 1" "sz - 1 \<noteq> 0"
  proof -
    have "sz \<noteq> 0" using sz by auto
    then show u: "unat (sz - 1) = unat sz - 1" by (simp add: unat_minus_one)
    have "unat (sz - 1) \<noteq> 0" using u sz by simp
    then show "sz - 1 \<noteq> 0" by (metis unsigned_0)
  qed
  have kpos: "0 < bit_len (unat sz - 1)" using sz by (intro bit_len_pos) simp
  have logs: "int_log2 (sz - 1) = Some (arena_top sz - 1)" "int_log2 (2 ^ s :: u64) = Some s"
    using sz1 kpos A(2) unat_pow2 [of s, where 'a = 64] is_power_of_two_pow2 [of s]
    by (auto simp: int_log2_def arena_top_def is_power_of_two_def)
  have len: "arena_top sz - 1 + 1 - s + 1 = N" "s \<le> arena_top sz - 1 + 1"
    using a kpos by (auto simp: N_def arena_lists_def arena_args_ok_def arena_top_def)
  have u2: "unat (2 ^ N :: u64) = 2 ^ N" using A(5) by (simp add: unat_pow2)
  have bits: "checked_shl (1 :: usize) N = Some (2 ^ N)" using A(5) by (simp add: checked_shl_def push_bit_eq_mult)
  have un: "unat (of_nat N :: u64) = N" using A(5) by (simp add: unat_of_nat)
  have mul: "checked_mul (of_nat N) llist_node_size = Some (of_nat (16 * N))"
    using A(5) un by (simp add: checked_mul_def llist_node_size_def)
  have bm: "unat (drop_bit 3 (2 ^ N :: u64)) = 2 ^ N div 8" using offset_parts(1) [of "2 ^ N"] u2 by simp
  have "(2 :: nat) ^ N \<le> 2 ^ 45" using A(5) by (intro power_increasing) auto
  then have "unat (of_nat (2 ^ N div 8) :: u64) = 2 ^ N div 8" by (subst unat_of_nat) simp
  then have bm': "drop_bit 3 (2 ^ N :: u64) = of_nat (2 ^ N div 8)" using bm by (metis word_unat_eq_iff)
  have bmz: "drop_bit 3 (2 ^ N :: u64) = 0 \<longleftrightarrow> 2 ^ N div 8 = (0 :: nat)" using bm by (metis unat_eq_zero)
  show ?thesis
    unfolding slice_bytes_def val logs N_def [symmetric] arena_bitmap_def
    using len bits mul bmz by (auto simp: Let_def bm' max_def simp del: of_nat_power of_nat_mult)
qed

section \<open>The fresh allocator\<close>

definition talloc_initial :: "isize \<Rightarrow> usize \<Rightarrow> nat \<Rightarrow> ptr \<Rightarrow> unit node_heap \<Rightarrow> talloc" where
  "talloc_initial base sz s llp h =
     \<lparr>arena_base = base, arena_size = sz, arena_size_pow2 = 2 ^ arena_top sz, smlst_block = 2 ^ s, avails = 0,
      llists_ptr = llp, llists_len = arena_lists sz s, bitmap_ptr = llp + of_nat (16 * arena_lists sz s),
      bitmap = replicate (arena_bitmap sz s) 0,
      nodes = fold (\<lambda>i. new_llist (llp + 16 * of_nat i) ()) [0..<arena_lists sz s] h\<rparr>"

definition arena_geo :: "isize \<Rightarrow> usize \<Rightarrow> nat \<Rightarrow> geometry" where
  "arena_geo base sz s = \<lparr>geo_base = sint base, geo_size = uint sz, geo_top = arena_top sz, geo_min = s\<rparr>"

lemma initial_geo:
  assumes "arena_args_ok sz s"
  shows "talloc_geo (talloc_initial base sz s llp h) = arena_geo base sz s"
  using arena_args [OF assms] by (simp add: talloc_geo_def talloc_initial_def arena_geo_def)

lemma talloc_initial_inv:
  assumes a: "arena_args_ok sz s" and g: "geo_ok (arena_geo base sz s)"
    and llp: "- (2 ^ 47) \<le> sint llp" "sint llp + 16 * int (arena_lists sz s) \<le> 2 ^ 47"
  shows "talloc_inv (talloc_initial base sz s llp h) (\<lambda>_. [])"
proof -
  define t where "t = talloc_initial base sz s llp h"
  define N where "N = arena_lists sz s"
  note A = arena_args [OF a, folded N_def]
  note geo = initial_geo [OF a, of base llp h, folded t_def]
  have N: "llists_len t = N" by (simp add: t_def talloc_initial_def N_def)
  have "2 ^ N \<le> 8 * arena_bitmap sz s"
  proof (cases "3 \<le> N")
    case True
    then have "8 dvd (2 :: nat) ^ N" using le_imp_power_dvd [OF True, of "2 :: nat"] by simp
    then have "2 ^ N = 8 * ((2 :: nat) ^ N div 8)" by simp
    also have "\<dots> \<le> 8 * max 1 (2 ^ N div 8)" by (intro mult_le_mono2 max.cobounded2)
    finally show ?thesis by (simp add: arena_bitmap_def N_def)
  next
    case False
    then have "(2 :: nat) ^ N \<le> 2 ^ 3" by (intro power_increasing) auto
    then show ?thesis by (simp add: arena_bitmap_def)
  qed
  then have fr: "talloc_frame t"
    unfolding talloc_frame_def geo using g llp
    by (simp add: arena_geo_def) (simp add: t_def talloc_initial_def N_def arena_lists_def)
  have sent: "sentinel t = (\<lambda>i. llp + 16 * of_nat i)" by (simp add: t_def talloc_initial_def sentinel_def fun_eq_iff)
  have "inj_on (sentinel t) {..<N}"
  proof (rule inj_onI)
    fix i j assume ij: "i \<in> {..<N}" "j \<in> {..<N}" and eq: "sentinel t i = sentinel t j"
    have "sint (sentinel t i) = sint (sentinel t j)" by (simp only: eq)
    moreover have "i < llists_len t" "j < llists_len t" using ij by (simp_all add: N)
    ultimately show "i = j" by (simp only: sint_sentinel [OF fr])
  qed
  then have fam: "list_family dllist (nodes t) (llists_len t) (sentinel t) (\<lambda>_. [])"
    using fl.family_init [of "sentinel t" N N h] unfolding N by (simp add: sent) (simp add: t_def talloc_initial_def N_def)
  have nob: "talloc_blocks t (\<lambda>_. []) = {}" by (simp add: list_blocks_def)
  have bits: "\<not> slice_bit (bitmap t) i" if "i < 8 * length (bitmap t)" for i
    using that offset_in [OF that] by (simp add: slice_bit_def t_def talloc_initial_def)
  have "talloc_inv t (\<lambda>_. [])"
    unfolding talloc_inv_def nob using fr fam bits
    by (auto simp: buddy_ok_def) (simp_all add: t_def talloc_initial_def)
  then show ?thesis by (simp add: t_def)
qed

text \<open>The offset of the memory that \<open>extend\<close> releases.\<close>

definition status_size :: "usize \<Rightarrow> nat \<Rightarrow> ptr \<Rightarrow> int" where
  "status_size sz s free_mem =
     16 - sint free_mem mod 16 + 16 * int (arena_lists sz s) + int (arena_bitmap sz s)"

lemma arena_bitmap_bound: "arena_args_ok sz s \<Longrightarrow> arena_bitmap sz s \<le> 2 ^ 42"
proof -
  assume "arena_args_ok sz s"
  then have "(2 :: nat) ^ arena_lists sz s \<le> 2 ^ 45" using arena_args(5) by (intro power_increasing) auto
  then have "(2 :: nat) ^ arena_lists sz s div 8 \<le> 2 ^ 45 div 8" by (rule div_le_mono)
  then show ?thesis by (simp add: arena_bitmap_def)
qed

lemma sint_mod16: "sint w mod 16 = int (unat (w AND 15))" for w :: u64
proof -
  have "w AND 15 = take_bit 4 w" by (simp add: take_bit_eq_mask mask_eq_exp_minus_1)
  then have "uint (w AND 15) = take_bit 4 (uint w)" by (simp only: unsigned_take_bit_eq)
  also have "\<dots> = take_bit 4 (sint w)" by (simp only: uint_sint take_bit_take_bit) simp
  also have "\<dots> = sint w mod 16" by (simp add: take_bit_eq_mod)
  finally show ?thesis by simp
qed

lemma talloc_new_run:
  assumes a: "arena_args_ok sz s"
    and geo: "- (2 ^ 47) \<le> sint base" "sint base + uint sz \<le> 2 ^ 47"
    and fm: "sint base \<le> sint fm" "sint fm + uint fl \<le> sint base + uint sz" "status_size sz s fm \<le> uint fl"
  defines "A \<equiv> (16 :: u64) - (fm AND 15)"
    and "off \<equiv> of_int (status_size sz s fm) :: u64"
  shows "talloc_new base sz (2 ^ s) fm fl h = talloc_release (talloc_initial base sz s (fm + A) h) (fm + off) (fl - off)"
    "uint off = status_size sz s fm" "sint (fm + A) = sint fm + (16 - sint fm mod 16)"
proof -
  define N BM where "N = arena_lists sz s" and "BM = arena_bitmap sz s"
  note R = arena_args [OF a, folded N_def]
  have BM: "BM \<le> 2 ^ 42" using arena_bitmap_bound [OF a] by (simp add: BM_def)
  define L Z where "L = uint fl" and "Z = uint sz"
  have "int (unat sz) \<le> int (2 ^ 48)" using a by (simp only: of_nat_le_iff arena_args_ok_def)
  then have LZ: "0 \<le> L" "0 \<le> Z" "Z \<le> 2 ^ 48" by (simp_all add: L_def Z_def)
  note geo = geo [folded Z_def] and fm = fm [folded Z_def L_def]
  define r where "r = sint fm mod 16"
  have r: "0 \<le> r" "r < 16" by (simp_all add: r_def)
  have uw: "uint (fm AND 15) = r" using sint_mod16 [of fm] by (simp add: r_def)
  have "uint (16 :: u64) = 16" by simp
  then have uA: "uint A = 16 - r" unfolding A_def using r uw by (subst uint_sub_eq) simp_all
  have ull: "uint (of_nat (16 * N) :: u64) = 16 * int N"
    using R(5) uint_of_nat_small [of "16 * N"] by simp
  have ubm: "uint (of_nat BM :: u64) = int BM" "unat (of_nat BM :: u64) = BM"
    using BM uint_of_nat_small [of BM] by (simp_all add: unat_of_nat)
  have add1: "checked_add A (of_nat (16 * N)) = Some (A + of_nat (16 * N))"
    "uint (A + of_nat (16 * N)) = 16 - r + 16 * int N"
    using uA ull R(5) r by (simp add: checked_add_code) (subst uint_add_eq; use uA ull R(5) r in simp)
  have add2: "checked_add (A + of_nat (16 * N)) (of_nat BM) = Some (A + of_nat (16 * N) + of_nat BM)"
    "uint (A + of_nat (16 * N) + of_nat BM) = status_size sz s fm"
    using add1(2) ubm(1) R(5) r BM
    by (simp add: checked_add_code)
      (subst uint_add_eq; use add1(2) ubm(1) R(5) r BM in \<open>simp add: status_size_def r_def N_def BM_def\<close>)
  have off: "off = A + of_nat (16 * N) + of_nat BM"
    unfolding off_def add2(2) [symmetric] by simp
  show uoff: "uint off = status_size sz s fm" unfolding off by (rule add2(2))
  have ss: "16 - r \<le> status_size sz s fm" by (simp add: status_size_def r_def)
  have sA: "sint A = 16 - r" using uA r by (subst sint_eq_uint) simp_all
  show "sint (fm + A) = sint fm + (16 - sint fm mod 16)"
    using sA geo fm LZ r ss unfolding r_def [symmetric] by (subst sint_add_eq) simp_all
  have sZ: "sint sz = Z" unfolding Z_def using LZ by (intro sint_eq_uint) (simp add: Z_def)
  have sL: "sint fl = L" unfolding L_def using LZ geo fm by (intro sint_eq_uint) (simp add: L_def)
  have acme: "checked_sadd base sz = Some (base + sz)" "sint (base + sz) = sint base + Z"
    using sZ LZ geo by (subst checked_sadd_Some, simp_all) (subst sint_add_eq, simp_all)
  have "sint (fm + fl) = sint fm + L" using sL LZ geo fm by (subst sint_add_eq) simp_all
  then have asserts: "base \<le>s fm" "fm + fl \<le>s base + sz" using fm acme by (simp_all add: word_sle_eq)
  have pow: "next_power_of_two sz = Some (2 ^ arena_top sz)"
    using R(1) a by (auto simp: next_power_of_two_def arena_top_def arena_args_ok_def checked_shl_def push_bit_eq_mult)
  have "unat (of_nat (16 * N) :: u64) = 16 * N" using R(5) by (subst unat_of_nat) simp
  then have "unat (of_nat (16 * N) div 16 :: u64) = 16 * N div 16" by (subst unat_div) simp
  then have len: "unat (of_nat (16 * N) div llist_node_size) = N" by (simp add: llist_node_size_def)
  have le: "off \<le> fl" using uoff fm by (simp add: word_le_def L_def)
  have shl: "checked_shl 0 N = Some (0 :: u64)" using R(5) by (simp add: checked_shl_def)
  have nodes: "extend_llists (new_invalid (2 ^ s) h)
      \<lparr>arena_base = base, arena_size = sz, arena_size_pow2 = p, smlst_block = 2 ^ s, avails = 0,
       llists_ptr = fm + A, llists_len = N, bitmap_ptr = b, bitmap = m, nodes = h\<rparr> N =
      fold (\<lambda>i. new_llist (fm + A + 16 * of_nat i) ()) [0..<N] h" for p b m
    unfolding extend_llists_def talloc.simps by (rule fold_cong) (simp_all add: sentinel_def)
  have al: "llist_node_size - (fm AND (llist_node_size - 1)) = A" by (simp add: A_def llist_node_size_def)
  define ll bm where "ll = (of_nat (16 * N) :: u64)" and "bm = (of_nat BM :: u64)"
  note run = slice_bytes_eq [OF a, folded N_def BM_def, folded ll_def bm_def] add1(1) [folded ll_def]
    add2(1) [folded ll_def bm_def] len [folded ll_def] off [folded ll_def bm_def] ubm(2) [folded bm_def]
  show "talloc_new base sz (2 ^ s) fm fl h =
      talloc_release (talloc_initial base sz s (fm + A) h) (fm + off) (fl - off)"
    unfolding talloc_new_def talloc_extend_def talloc_initial_def N_def [symmetric] BM_def [symmetric] ll_def [symmetric]
    using run acme(1) asserts pow le shl
    by (simp add: Let_def al) (simp add: new_invalid_def nodes [unfolded new_invalid_def])
qed

lemma talloc_new_step:
  assumes a: "arena_args_ok sz s" and geo: "geo_ok (arena_geo base sz s)"
    and fm: "sint base \<le> sint fm" "sint fm + uint fl \<le> sint base + uint sz" "status_size sz s fm \<le> uint fl"
  defines "x \<equiv> round_up s (sint fm + status_size sz s fm)" and "y \<equiv> round_down s (sint fm + uint fl)"
  assumes rng: "x \<le> y" "0 \<notin> {x..y}"
  shows "\<exists>t F. talloc_new base sz (2 ^ s) fm fl h = Some t \<and> talloc_inv t F \<and>
    free_bytes (talloc_blocks t F) = {x..<y} \<and> get_arena t = (base, sz) \<and> talloc_geo t = arena_geo base sz s \<and>
    status_bytes t \<subseteq> {sint fm ..< sint fm + status_size sz s fm}"
proof -
  define A where "A = (16 :: u64) - (fm AND 15)"
  define off where "off = (of_int (status_size sz s fm) :: u64)"
  define N BM where "N = arena_lists sz s" and "BM = arena_bitmap sz s"
  define r where "r = sint fm mod 16"
  have r: "0 \<le> r" "r < 16" by (simp_all add: r_def)
  have ss: "status_size sz s fm = 16 - r + 16 * int N + int BM" by (simp add: status_size_def N_def BM_def r_def)
  have cb: "- (2 ^ 47) \<le> sint base" "sint base + uint sz \<le> 2 ^ 47"
    using geo_okD(6,7) [OF geo] by (simp_all add: arena_geo_def)
  note run = talloc_new_run(1) [OF a cb fm, of h, folded A_def off_def]
    talloc_new_run(2,3) [OF a cb fm, folded A_def off_def]
  have sA: "sint (fm + A) = sint fm + (16 - r)" using run(3) by (simp add: r_def)
  define L Z where "L = uint fl" and "Z = uint sz"
  have LZ: "0 \<le> L" "0 \<le> Z" by (simp_all add: L_def Z_def)
  note cb = cb [folded Z_def] and fm = fm [folded Z_def L_def]
  define t0 where "t0 = talloc_initial base sz s (fm + A) h"
  have inv: "talloc_inv t0 (\<lambda>_. [])"
    unfolding t0_def using cb fm ss r sA by (intro talloc_initial_inv [OF a geo]) (simp_all add: N_def)
  have g0: "talloc_geo t0 = arena_geo base sz s" unfolding t0_def by (rule initial_geo [OF a])
  have no: "talloc_blocks t0 (\<lambda>_. []) = {}" by (simp add: list_blocks_def)
  have st: "status_bytes t0 \<subseteq> {sint fm ..< sint fm + status_size sz s fm}"
  proof -
    have l: "llists_ptr t0 = fm + A" "llists_len t0 = N" "bitmap_ptr t0 = fm + A + of_nat (16 * N)"
      "length (bitmap t0) = BM" by (simp_all add: t0_def talloc_initial_def N_def BM_def)
    have sN: "sint (of_nat (16 * N) :: u64) = 16 * int N"
      using arena_args(5) [OF a] uint_of_nat_small [of "16 * N"] by (subst sint_eq_uint) (simp_all add: N_def)
    then have "sint (bitmap_ptr t0) = sint fm + (16 - r) + 16 * int N"
      unfolding l sA [symmetric] using cb fm ss r sA by (subst sint_add_eq) simp_all
    then show ?thesis unfolding status_bytes_def l sA ss using r by auto
  qed
  have soff: "sint (fm + off) = sint fm + status_size sz s fm"
  proof -
    have "sint off = status_size sz s fm" using run(2) fm cb ss r by (subst sint_eq_uint) simp_all
    then show ?thesis using fm cb ss r by (subst sint_add_eq) simp_all
  qed
  have ulen: "uint (fl - off) = L - status_size sz s fm"
    using run(2) fm(3) by (subst uint_sub_eq) (simp_all add: L_def)
  have y: "sint (fm + off) + uint (fl - off) = sint fm + L" by (simp add: soff ulen)
  have bounds: "sint fm + status_size sz s fm \<le> x" "y \<le> sint fm + L" "2 ^ s dvd x" "2 ^ s dvd y"
    using round_up_bounds [where s = s and a = "sint fm + status_size sz s fm"]
      round_down_bounds [where s = s and a = "sint fm + uint fl"] by (simp_all add: x_def y_def L_def)
  have "{x..<y} \<inter> status_bytes t0 = {}" using st bounds(1) by auto
  then have can: "can_release t0 (\<lambda>_. []) x y"
    unfolding can_release_def no unfolding g0 using bounds rng fm ss r
    by (simp add: arena_geo_def Z_def [symmetric])
  have gm: "geo_min (talloc_geo t0) = s" by (simp add: g0 arena_geo_def)
  obtain t F where t: "talloc_release t0 (fm + off) (fl - off) = Some t" "same_arena t0 t" "talloc_inv t F"
    "free_bytes (talloc_blocks t F) = free_bytes (talloc_blocks t0 (\<lambda>_. [])) \<union> {x..<y}"
    using talloc_release_step [OF inv, of "fm + off" "fl - off"] can y soff fm cb ss r
    unfolding gm y x_def y_def L_def by auto
  have "get_arena t = (base, sz)"
    using t(2) by (simp add: get_arena_def same_arena_def) (simp add: t0_def talloc_initial_def)
  then show ?thesis
    using run(1) t st same_arenaD(1,4) [OF t(2)] g0 unfolding no t0_def [symmetric] by auto
qed

end
