(* ===== verification/Heap_Contract.thy ===== *)
theory Heap_Contract
  imports Talloc
begin

text \<open>
  What the clients of an allocator rely on. \<open>heap_step\<close> is the state machine of a client that
  allocates, frees and shrinks blocks in any order; the locale \<open>heap_manager\<close> states the
  contract of the three operations in terms of the set of free bytes, and proves once, by induction
  over the steps, that live blocks never overlap, that every byte of the heap is free or in exactly
  one live block, and that every block that is live can be freed.
\<close>

section \<open>The client's state machine\<close>

text \<open>A state is the allocator and the set of live blocks, each with the request it answers.\<close>

inductive heap_step ::
  "('t \<Rightarrow> 'r \<Rightarrow> (ptr alloc_result \<times> 't) option) \<Rightarrow> ('t \<Rightarrow> ptr \<Rightarrow> 'r \<Rightarrow> 't option) \<Rightarrow>
   ('t \<Rightarrow> ptr \<Rightarrow> 'r \<Rightarrow> 'r \<Rightarrow> 't option) \<Rightarrow> ('r \<Rightarrow> bool) \<Rightarrow> ('t \<Rightarrow> 'r \<Rightarrow> 'r \<Rightarrow> bool) \<Rightarrow>
   't \<times> ('r \<times> ptr) set \<Rightarrow> 't \<times> ('r \<times> ptr) set \<Rightarrow> bool"
  for alloc dealloc shrink ok le where
  step_alloc: "ok r \<Longrightarrow> alloc t r = Some (Inr p, t') \<Longrightarrow>
    heap_step alloc dealloc shrink ok le (t, live) (t', insert (r, p) live)"
| step_refused: "ok r \<Longrightarrow> alloc t r = Some (Inl e, t') \<Longrightarrow>
    heap_step alloc dealloc shrink ok le (t, live) (t', live)"
| step_free: "(r, p) \<in> live \<Longrightarrow> dealloc t p r = Some t' \<Longrightarrow>
    heap_step alloc dealloc shrink ok le (t, live) (t', live - {(r, p)})"
| step_shrink: "(r, p) \<in> live \<Longrightarrow> ok r' \<Longrightarrow> le t r' r \<Longrightarrow> shrink t p r r' = Some t' \<Longrightarrow>
    heap_step alloc dealloc shrink ok le (t, live) (t', insert (r', p) (live - {(r, p)}))"

inductive_cases heap_stepE: "heap_step alloc dealloc shrink ok le (t, live) (t', live')"

section \<open>The contract\<close>

locale heap_manager =
  fixes alloc :: "'t \<Rightarrow> 'r \<Rightarrow> (ptr alloc_result \<times> 't) option"
    and dealloc :: "'t \<Rightarrow> ptr \<Rightarrow> 'r \<Rightarrow> 't option"
    and shrink :: "'t \<Rightarrow> ptr \<Rightarrow> 'r \<Rightarrow> 'r \<Rightarrow> 't option"
    and ok :: "'r \<Rightarrow> bool"
    and le :: "'t \<Rightarrow> 'r \<Rightarrow> 'r \<Rightarrow> bool"
    and rep :: "'t \<Rightarrow> int set \<Rightarrow> bool"
    and span :: "'t \<Rightarrow> 'r \<times> ptr \<Rightarrow> int set"
    and own :: "'t \<Rightarrow> 'r \<times> ptr \<Rightarrow> bool"
    and same :: "'t \<Rightarrow> 't \<Rightarrow> bool"
  assumes same_span: "same t t' \<Longrightarrow> span t' = span t \<and> own t' = own t"
    and same_trans: "same t t" "same t t' \<Longrightarrow> same t' t'' \<Longrightarrow> same t t''"
    and span_nonempty: "span t a \<noteq> {}"
    and alloc_total: "rep t S \<Longrightarrow> ok r \<Longrightarrow> \<exists>res t'. alloc t r = Some (res, t')"
    and alloc_ok: "rep t S \<Longrightarrow> ok r \<Longrightarrow> alloc t r = Some (Inr p, t') \<Longrightarrow>
      same t t' \<and> rep t' (S - span t (r, p)) \<and> span t (r, p) \<subseteq> S \<and> own t (r, p)"
    and alloc_refused: "rep t S \<Longrightarrow> ok r \<Longrightarrow> alloc t r = Some (Inl e, t') \<Longrightarrow> t' = t"
    and dealloc_ok: "rep t S \<Longrightarrow> own t (r, p) \<Longrightarrow> span t (r, p) \<inter> S = {} \<Longrightarrow>
      \<exists>t'. dealloc t p r = Some t' \<and> same t t' \<and> rep t' (S \<union> span t (r, p))"
    and shrink_ok: "rep t S \<Longrightarrow> own t (r, p) \<Longrightarrow> span t (r, p) \<inter> S = {} \<Longrightarrow> ok r' \<Longrightarrow> le t r' r \<Longrightarrow>
      \<exists>t'. shrink t p r r' = Some t' \<and> same t t' \<and> rep t' (S \<union> (span t (r, p) - span t (r', p))) \<and>
        span t (r', p) \<subseteq> span t (r, p) \<and> own t (r', p)"
begin

text \<open>The live blocks and the free bytes partition the heap \<open>H\<close>.\<close>

definition partition :: "int set \<Rightarrow> 't \<Rightarrow> ('r \<times> ptr) set \<Rightarrow> int set \<Rightarrow> bool" where
  "partition H t live S \<longleftrightarrow> rep t S \<and> (\<forall>a\<in>live. own t a \<and> span t a \<inter> S = {}) \<and>
     (\<forall>a\<in>live. \<forall>b\<in>live. a \<noteq> b \<longrightarrow> span t a \<inter> span t b = {}) \<and> S \<union> (\<Union>a\<in>live. span t a) = H"

lemma partitionD:
  assumes "partition H t live S"
  shows "rep t S" "a \<in> live \<Longrightarrow> own t a" "a \<in> live \<Longrightarrow> span t a \<inter> S = {}"
    "a \<in> live \<Longrightarrow> b \<in> live \<Longrightarrow> a \<noteq> b \<Longrightarrow> span t a \<inter> span t b = {}"
    "S \<union> (\<Union>a\<in>live. span t a) = H"
  using assms unfolding partition_def by blast+

lemma partition_empty: "rep t S \<Longrightarrow> partition S t {} S"
  by (simp add: partition_def)

lemma partition_alloc:
  assumes P: "partition H t live S" and t': "same t t'" "rep t' (S - span t a)" "span t a \<subseteq> S" "own t a"
  shows "partition H t' (insert a live) (S - span t a)"
proof -
  note D = partitionD [OF P]
  have eq: "span t' = span t" "own t' = own t" using same_span [OF t'(1)] by auto
  have new: "span t a \<inter> span t b = {}" if "b \<in> live" for b using D(3) [OF that] t'(3) by blast
  have U: "S - span t a \<union> (\<Union>b\<in>insert a live. span t b) = H" using D(5) t'(3) by auto
  have O: "\<forall>b\<in>insert a live. own t b \<and> span t b \<inter> (S - span t a) = {}" using D(2,3) t'(4) by blast
  have "\<forall>b\<in>insert a live. \<forall>c\<in>insert a live. b \<noteq> c \<longrightarrow> span t b \<inter> span t c = {}"
    using D(4) new by (metis Int_commute insert_iff)
  with U O show ?thesis unfolding partition_def eq using t'(2) by simp
qed

lemma partition_free:
  assumes P: "partition H t live S" and a: "a \<in> live" and t': "same t t'" "rep t' (S \<union> span t a)"
  shows "partition H t' (live - {a}) (S \<union> span t a)"
proof -
  note D = partitionD [OF P]
  have eq: "span t' = span t" "own t' = own t" using same_span [OF t'(1)] by auto
  have O: "\<forall>b\<in>live - {a}. own t b \<and> span t b \<inter> (S \<union> span t a) = {}"
    using D(2,3) D(4) [of _ a] a by blast
  have U: "S \<union> span t a \<union> (\<Union>b\<in>live - {a}. span t b) = H" using D(5) a by blast
  show ?thesis unfolding partition_def eq using t'(2) O U D(4) by simp
qed

lemma partition_shrink:
  assumes P: "partition H t live S" and a: "a \<in> live"
    and t': "same t t'" "rep t' (S \<union> (span t a - span t b))" "span t b \<subseteq> span t a" "own t b"
  shows "partition H t' (insert b (live - {a})) (S \<union> (span t a - span t b))"
proof -
  note D = partitionD [OF P]
  define S1 where "S1 = S \<union> (span t a - span t b)"
  have eq: "span t' = span t" "own t' = own t" using same_span [OF t'(1)] by auto
  have oth: "span t c \<inter> S1 = {}" "span t c \<inter> span t b = {}" if "c \<in> live - {a}" for c
    using D(3) [of c] D(4) [of c a] that a t'(3) unfolding S1_def by blast+
  have self: "span t b \<inter> S1 = {}" using D(3) [OF a] t'(3) unfolding S1_def by blast
  have U: "S1 \<union> (\<Union>c\<in>insert b (live - {a}). span t c) = H"
    using D(5) a t'(3) unfolding S1_def by blast
  have O: "\<forall>c\<in>insert b (live - {a}). own t c \<and> span t c \<inter> S1 = {}"
    using D(2) oth(1) self t'(4) by blast
  have "\<forall>c\<in>insert b (live - {a}). \<forall>d\<in>insert b (live - {a}). c \<noteq> d \<longrightarrow> span t c \<inter> span t d = {}"
    using D(4) oth(2) by (metis Diff_iff Int_commute insert_iff)
  with U O show ?thesis unfolding partition_def eq S1_def [symmetric] using t'(2) [folded S1_def] by simp
qed

lemma step_partition:
  assumes P: "partition H t live S" and step: "heap_step alloc dealloc shrink ok le (t, live) (t', live')"
  shows "\<exists>S'. partition H t' live' S' \<and> same t t'"
proof -
  note D = partitionD [OF P]
  from step show ?thesis
  proof (rule heap_stepE)
    fix r p assume "live' = insert (r, p) live" "ok r" "alloc t r = Some (Inr p, t')"
    then show ?thesis using alloc_ok [OF D(1), of r p t'] partition_alloc [OF P, of t' "(r, p)"] by blast
  next
    fix r e assume "live' = live" "ok r" "alloc t r = Some (Inl e, t')"
    then show ?thesis using alloc_refused [OF D(1), of r e t'] P same_trans(1) by blast
  next
    fix r p assume "live' = live - {(r, p)}" "(r, p) \<in> live" "dealloc t p r = Some t'"
    then show ?thesis
      using dealloc_ok [OF D(1-3), of r p] partition_free [OF P, of "(r, p)" t'] by auto
  next
    fix r p r' assume "live' = insert (r', p) (live - {(r, p)})" "(r, p) \<in> live" "ok r'" "le t r' r"
      "shrink t p r r' = Some t'"
    then show ?thesis
      using shrink_ok [OF D(1-3), of r p r'] partition_shrink [OF P, of "(r, p)" t' "(r', p)"] by auto
  qed
qed

lemma run_partition:
  assumes "(heap_step alloc dealloc shrink ok le)\<^sup>*\<^sup>* (t, {}) (t', live)" "rep t H"
  shows "\<exists>S. partition H t' live S \<and> same t t'"
  using assms(1)
proof (induction rule: rtranclp_induct2)
  case refl
  then show ?case using partition_empty [OF assms(2)] same_trans(1) by blast
next
  case (step u l v k)
  then obtain S where S: "partition H u l S" "same t u" by blast
  then show ?case using step_partition [OF S(1) step.hyps(2)] same_trans(2) by blast
qed

text \<open>The consequences for a client.\<close>

lemma run_disjoint:
  assumes "(heap_step alloc dealloc shrink ok le)\<^sup>*\<^sup>* (t, {}) (t', live)" "rep t H"
    and "a \<in> live" "b \<in> live" "a \<noteq> b"
  shows "span t a \<inter> span t b = {}"
proof -
  obtain S where S: "partition H t' live S" "same t t'" using run_partition [OF assms(1,2)] by blast
  then show ?thesis using partitionD(4) [OF S(1) assms(3-5)] same_span [OF S(2)] by simp
qed

lemma run_conserves:
  assumes "(heap_step alloc dealloc shrink ok le)\<^sup>*\<^sup>* (t, {}) (t', live)" "rep t H"
  shows "\<exists>S. rep t' S \<and> S \<union> (\<Union>a\<in>live. span t a) = H \<and> S \<inter> (\<Union>a\<in>live. span t a) = {}"
proof -
  obtain S where S: "partition H t' live S" "same t t'" using run_partition [OF assms] by blast
  note D = partitionD [OF S(1)]
  have "span t' = span t" using same_span [OF S(2)] by simp
  then show ?thesis using D(1,3,5) by (intro exI [of _ S]) auto
qed

lemma run_can_free:
  assumes "(heap_step alloc dealloc shrink ok le)\<^sup>*\<^sup>* (t, {}) (t', live)" "rep t H" "(r, p) \<in> live"
  shows "\<exists>t''. dealloc t' p r = Some t'' \<and> heap_step alloc dealloc shrink ok le (t', live) (t'', live - {(r, p)})"
proof -
  obtain S where S: "partition H t' live S" using run_partition [OF assms(1,2)] by blast
  obtain t'' where "dealloc t' p r = Some t''"
    using dealloc_ok [OF partitionD(1-3) [OF S]] assms(3) by blast
  with assms(3) show ?thesis by (blast intro: step_free)
qed

end

end
