(* ===== verification/Talloc_Contract.thy ===== *)
theory Talloc_Contract
  imports Talloc_New Heap_Contract
begin

text \<open>
  The allocator as its clients see it: the theorems of the preceding theories stated for whole
  operations, the contract \<open>heap_manager\<close> interpreted on them, and its consequences for every
  sequence of operations. The handler is the one that the memory mapper installs, which gives up.
\<close>

section \<open>The client's view\<close>

text \<open>\<open>mapper_oom_handler\<close> of \<^verbatim>\<open>kernel/src/memm/mod.rs\<close>.\<close>

definition mapper_oom_handler :: oom_handler where
  "mapper_oom_handler t l = Some (Inl AllocError, t)"

text \<open>The allocator is in a good state and exactly the bytes in \<open>S\<close> are free.\<close>

definition talloc_free :: "talloc \<Rightarrow> int set \<Rightarrow> bool" where
  "talloc_free t S \<longleftrightarrow> (\<exists>F. talloc_inv t F \<and> S = free_bytes (talloc_blocks t F))"

text \<open>The block that answers a request, and what makes it a block of this allocator.\<close>

definition talloc_span :: "talloc \<Rightarrow> layout \<times> ptr \<Rightarrow> int set" where
  "talloc_span t a = blk_bytes (layout_level t (fst a), sint (snd a))"

definition talloc_own :: "talloc \<Rightarrow> layout \<times> ptr \<Rightarrow> bool" where
  "talloc_own t a \<longleftrightarrow> layout_ok (fst a) \<and> blk_valid (talloc_geo t) (layout_level t (fst a), sint (snd a)) \<and>
     talloc_span t a \<inter> status_bytes t = {} \<and> 0 \<notin> talloc_span t a"

definition layout_le :: "talloc \<Rightarrow> layout \<Rightarrow> layout \<Rightarrow> bool" where
  "layout_le t l' l \<longleftrightarrow> layout_level t l' \<le> layout_level t l"

text \<open>Some free block is large enough.\<close>

definition talloc_fits :: "talloc \<Rightarrow> layout \<Rightarrow> bool" where
  "talloc_fits t l \<longleftrightarrow> (\<exists>F. talloc_inv t F \<and> (\<exists>b\<in>talloc_blocks t F. layout_level t l \<le> fst b))"

lemma same_arena_level: "same_arena t t' \<Longrightarrow> layout_level t' l = layout_level t l"
  by (simp add: layout_level_def same_arenaD(1))

lemma same_arena_own: "same_arena t t' \<Longrightarrow> talloc_span t' = talloc_span t \<and> talloc_own t' = talloc_own t"
  by (simp add: fun_eq_iff talloc_span_def talloc_own_def same_arena_level same_arenaD(1,4))

lemma own_can_add:
  "talloc_inv t F \<Longrightarrow> talloc_own t (l, p) \<Longrightarrow> talloc_span t (l, p) \<inter> free_bytes (talloc_blocks t F) = {} \<Longrightarrow>
   can_add t F (layout_level t l, sint p)"
  by (simp add: can_add_def talloc_own_def talloc_span_def)

lemma can_add_own:
  "can_add t F (layout_level t l, sint p) \<Longrightarrow> layout_ok l \<Longrightarrow> talloc_own t (l, p)"
  by (simp add: can_add_def talloc_own_def talloc_span_def)

text \<open>The lists of a state are determined by its heap, so the free blocks are too.\<close>

lemma linked_determ:
  "linked h (a # xs @ [s]) \<Longrightarrow> linked h (a # ys @ [s]) \<Longrightarrow> s \<notin> set xs \<Longrightarrow> s \<notin> set ys \<Longrightarrow> xs = ys"
proof (induction xs arbitrary: a ys)
  case Nil
  then show ?case by (cases ys) auto
next
  case (Cons x xs)
  then show ?case by (cases ys) auto
qed

lemma dllist_determ: "dllist h s xs \<Longrightarrow> dllist h s ys \<Longrightarrow> xs = ys"
  by (rule linked_determ [of h s _ s]) (auto simp: dllist_def)

lemma talloc_inv_determ:
  assumes "talloc_inv t F" "talloc_inv t F'"
  shows "talloc_blocks t F' = talloc_blocks t F"
proof -
  have "F' g = F g" if "g < llists_len t" for g
    using fl.family_rep [OF talloc_invD(2) [OF assms(1)] that] fl.family_rep [OF talloc_invD(2) [OF assms(2)] that]
    by (rule dllist_determ [symmetric])
  then show ?thesis unfolding list_blocks_def by (metis (no_types, lifting))
qed

lemma talloc_fits_iff:
  "talloc_inv t F \<Longrightarrow> talloc_fits t l \<longleftrightarrow> (\<exists>b\<in>talloc_blocks t F. layout_level t l \<le> fst b)"
  unfolding talloc_fits_def using talloc_inv_determ by blast

text \<open>A request that fits is met without the handler.\<close>

lemma talloc_alloc_fits:
  assumes "talloc_free t S" "layout_ok l" "talloc_fits t l"
  shows "\<exists>p t'. talloc_alloc oom t l = Some (Inr p, t') \<and> same_arena t t' \<and>
    talloc_free t' (S - talloc_span t (l, p)) \<and> talloc_span t (l, p) \<subseteq> S \<and> talloc_own t (l, p)"
proof -
  obtain F where F: "talloc_inv t F" "S = free_bytes (talloc_blocks t F)" using assms(1) unfolding talloc_free_def by blast
  have "\<exists>b\<in>talloc_blocks t F. layout_level t l \<le> fst b" using talloc_fits_iff [OF F(1)] assms(3) by simp
  from talloc_alloc_found [OF F(1) assms(2) this, of oom] obtain p t' F' where
    *: "talloc_alloc oom t l = Some (Inr p, t')" "same_arena t t'" "talloc_inv t' F'"
    "can_add t' F' (layout_level t l, sint p)" "talloc_span t (l, p) \<subseteq> S"
    "S - talloc_span t (l, p) = free_bytes (talloc_blocks t' F')"
    by (auto simp: F(2) talloc_span_def)
  have "talloc_own t (l, p)"
    using can_add_own [of t' F' l p] *(4) assms(2) same_arena_own [OF *(2)] by (simp add: same_arena_level [OF *(2)])
  moreover have "talloc_free t' (S - talloc_span t (l, p))" unfolding talloc_free_def using *(3,6) by blast
  ultimately show ?thesis using * by blast
qed

text \<open>A request is met exactly when an aligned range of its block size is free.\<close>

lemma talloc_fits_free:
  assumes "talloc_free t S"
  shows "talloc_fits t l \<longleftrightarrow> (\<exists>x. 2 ^ layout_level t l dvd x \<and> {x..<x + 2 ^ layout_level t l} \<subseteq> S)"
proof -
  obtain F where F: "talloc_inv t F" "S = free_bytes (talloc_blocks t F)" using assms unfolding talloc_free_def by blast
  let ?n = "layout_level t l"
  have ok: "buddy_ok (talloc_geo t) (talloc_blocks t F)" by (rule talloc_invD(5) [OF F(1)])
  have "(\<exists>x. 2 ^ ?n dvd x \<and> {x..<x + 2 ^ ?n} \<subseteq> S)" if "b \<in> talloc_blocks t F" "?n \<le> fst b" for b
  proof (intro exI conjI)
    have "2 ^ fst b dvd snd b" using that(1) ok by (auto simp: buddy_ok_def blk_valid_def)
    then show "2 ^ ?n dvd snd b" using that(2) by (meson dvd_trans le_imp_power_dvd)
    have "(2 :: int) ^ ?n \<le> 2 ^ fst b" using that(2) by (intro power_increasing) auto
    then have "{snd b..<snd b + 2 ^ ?n} \<subseteq> blk_bytes b" by (auto simp: blk_bytes_def)
    then show "{snd b..<snd b + 2 ^ ?n} \<subseteq> S" using that(1) F(2) by (auto simp: free_bytes_def)
  qed
  moreover have "\<exists>b\<in>talloc_blocks t F. ?n \<le> fst b" if "2 ^ ?n dvd x" "{x..<x + 2 ^ ?n} \<subseteq> S" for x
  proof -
    have "geo_min (talloc_geo t) \<le> ?n" by (simp add: layout_level_def)
    from buddy_ok_covers [OF ok this that(1) that(2) [unfolded F(2)]] obtain b where
      b: "b \<in> talloc_blocks t F" "{x..<x + 2 ^ ?n} \<subseteq> {snd b..<snd b + 2 ^ fst b}" by (auto simp: blk_bytes_def)
    then have "snd b \<le> x" "x + 2 ^ ?n \<le> snd b + 2 ^ fst b" by (simp_all add: ivl_subset)
    then have "(2 :: int) ^ ?n \<le> 2 ^ fst b" by linarith
    then show ?thesis using b(1) by (auto simp: power_le_imp_le_exp)
  qed
  ultimately show ?thesis using talloc_fits_iff [OF F(1), of l] by blast
qed

section \<open>Interpretation of the contract\<close>

lemma talloc_alloc_law:
  assumes "talloc_free t S" "layout_ok l"
  shows "talloc_fits t l \<Longrightarrow> \<exists>p t'. talloc_alloc mapper_oom_handler t l = Some (Inr p, t') \<and> same_arena t t' \<and>
      talloc_free t' (S - talloc_span t (l, p)) \<and> talloc_span t (l, p) \<subseteq> S \<and> talloc_own t (l, p)"
    "\<not> talloc_fits t l \<Longrightarrow> talloc_alloc mapper_oom_handler t l = Some (Inl AllocError, t)"
proof -
  obtain F where F: "talloc_inv t F" using assms(1) unfolding talloc_free_def by blast
  show "\<not> talloc_fits t l \<Longrightarrow> talloc_alloc mapper_oom_handler t l = Some (Inl AllocError, t)"
    using talloc_fits_iff [OF F, of l] talloc_alloc_none [OF F assms(2), of mapper_oom_handler AllocError t]
    by (simp add: mapper_oom_handler_def)
qed (rule talloc_alloc_fits [OF assms])

lemma talloc_dealloc_law:
  assumes "talloc_free t S" "talloc_own t (l, p)" "talloc_span t (l, p) \<inter> S = {}"
  shows "\<exists>t'. talloc_dealloc t p l = Some t' \<and> same_arena t t' \<and> talloc_free t' (S \<union> talloc_span t (l, p))"
proof -
  obtain F where F: "talloc_inv t F" "S = free_bytes (talloc_blocks t F)" using assms(1) by (auto simp: talloc_free_def)
  have "layout_ok l" using assms(2) by (simp add: talloc_own_def)
  then show ?thesis
    using talloc_dealloc_step [OF F(1) _ own_can_add [OF F(1) assms(2)]] assms(3) F(2)
    unfolding talloc_free_def talloc_span_def fst_conv snd_conv by metis
qed

lemma talloc_shrink_law:
  assumes "talloc_free t S" "talloc_own t (l, p)" "talloc_span t (l, p) \<inter> S = {}" "layout_ok l'" "layout_le t l' l"
  shows "\<exists>t'. talloc_shrink t p l l' = Some t' \<and> same_arena t t' \<and>
    talloc_free t' (S \<union> (talloc_span t (l, p) - talloc_span t (l', p))) \<and>
    talloc_span t (l', p) \<subseteq> talloc_span t (l, p) \<and> talloc_own t (l', p)"
proof -
  define M m where "M = layout_level t l" and "m = layout_level t l'"
  have le: "m \<le> M" using assms(5) by (simp add: layout_le_def m_def M_def)
  obtain F where F: "talloc_inv t F" "S = free_bytes (talloc_blocks t F)" using assms(1) by (auto simp: talloc_free_def)
  have "layout_ok l" using assms(2) by (simp add: talloc_own_def)
  then obtain t' F' where t': "talloc_shrink t p l l' = Some t'" "same_arena t t'" "talloc_inv t' F'"
    "free_bytes (talloc_blocks t' F') = S \<union> (talloc_span t (l, p) - talloc_span t (l', p))"
    using talloc_shrink_step [OF F(1) _ assms(4) le [unfolded m_def M_def] own_can_add [OF F(1) assms(2)]] assms(3) F(2)
    unfolding talloc_span_def fst_conv snd_conv by metis
  have pw: "(2 :: int) ^ m \<le> 2 ^ M" "(2 :: int) ^ m dvd 2 ^ M"
    using le by (auto intro: power_increasing le_imp_power_dvd)
  then have sub: "talloc_span t (l', p) \<subseteq> talloc_span t (l, p)"
    by (auto simp: talloc_span_def blk_bytes_def m_def [symmetric] M_def [symmetric])
  have v: "blk_valid (talloc_geo t) (M, sint p)" using assms(2) by (simp add: talloc_own_def M_def)
  moreover have "geo_min (talloc_geo t) \<le> m" by (simp add: m_def layout_level_def)
  ultimately have "blk_valid (talloc_geo t) (m, sint p)"
    using pw le by (simp only: blk_valid_def fst_conv snd_conv) (meson add_left_mono dvd_trans order_trans)
  then have "talloc_own t (l', p)" using assms(2,4) sub by (auto simp: talloc_own_def m_def)
  with t' sub show ?thesis unfolding talloc_free_def by blast
qed

interpretation hm: heap_manager "talloc_alloc mapper_oom_handler" talloc_dealloc talloc_shrink
  layout_ok layout_le talloc_free talloc_span talloc_own same_arena
proof unfold_locales
  fix t t' t'' :: talloc and S l l' p e
  show "same_arena t t' \<Longrightarrow> talloc_span t' = talloc_span t \<and> talloc_own t' = talloc_own t" by (rule same_arena_own)
  show "same_arena t t" by simp
  show "same_arena t t' \<Longrightarrow> same_arena t' t'' \<Longrightarrow> same_arena t t''" by (rule same_arena_trans)
  show "talloc_span t a \<noteq> {}" for a by (simp add: talloc_span_def)
  assume S: "talloc_free t S" and l: "layout_ok l"
  note law = talloc_alloc_law [OF S l]
  show "\<exists>res t'. talloc_alloc mapper_oom_handler t l = Some (res, t')"
    using law by (cases "talloc_fits t l") blast+
  show "same_arena t t' \<and> talloc_free t' (S - talloc_span t (l, p)) \<and> talloc_span t (l, p) \<subseteq> S \<and> talloc_own t (l, p)"
    if "talloc_alloc mapper_oom_handler t l = Some (Inr p, t')"
    using law that by (cases "talloc_fits t l") auto
  show "t' = t" if "talloc_alloc mapper_oom_handler t l = Some (Inl e, t')"
    using law that by (cases "talloc_fits t l") auto
qed (fact talloc_dealloc_law talloc_shrink_law)+

section \<open>A concrete allocator\<close>

text \<open>An arena of 1 KiB at \<open>0x10000\<close> with blocks of 16 bytes and more, for the examples below.\<close>

definition zero_nodes :: "unit node_heap" where
  "zero_nodes = (\<lambda>_. \<lparr>node_data = (), node_next = 0, node_prev = 0\<rparr>)"

definition demo_layout :: layout where
  "demo_layout = \<lparr>layout_size = 40, layout_align = 8\<rparr>"

lemma demo_args: "arena_args_ok 1024 4" "geo_ok (arena_geo 0x10000 1024 4)"
  "status_size 1024 4 0x10000 = 144" "round_up 4 (65536 + 144) = 65680" "round_down 4 (65536 + 1024) = 66560"
  "layout_ok demo_layout"
proof -
  have top: "arena_top 1024 = 10" by code_simp
  show "arena_args_ok 1024 4" by (simp add: arena_args_ok_def top)
  show "geo_ok (arena_geo 0x10000 1024 4)" by (simp add: geo_ok_def arena_geo_def top)
  show "status_size 1024 4 0x10000 = 144"
    by (simp add: status_size_def arena_lists_def arena_bitmap_def top)
  show "round_up 4 (65536 + 144) = 65680" "round_down 4 (65536 + 1024) = 66560"
    by (simp_all add: round_up_def round_down_def)
  have "is_power_of_two (8 :: u64)" by (simp add: is_power_of_two_def)
  then show "layout_ok demo_layout" by (simp add: layout_ok_def demo_layout_def)
qed

lemma demo_new: "\<exists>t. talloc_new 0x10000 1024 16 0x10000 1024 zero_nodes = Some t \<and> talloc_free t {65680..<66560}"
proof -
  have "\<exists>t F. talloc_new 0x10000 1024 (2 ^ 4) 0x10000 1024 zero_nodes = Some t \<and> talloc_inv t F \<and>
    free_bytes (talloc_blocks t F) = {65680..<66560} \<and> get_arena t = (0x10000, 1024) \<and>
    talloc_geo t = arena_geo 0x10000 1024 4 \<and> status_bytes t \<subseteq> {65536..<65680}"
    using talloc_new_step [OF demo_args(1,2), of "0x10000" 1024 zero_nodes] demo_args by simp
  then show ?thesis unfolding talloc_free_def by auto
qed

lemma demo_allocs:
  "(do { t \<leftarrow> talloc_new 0x10000 1024 16 0x10000 1024 zero_nodes;
         (r, t1) \<leftarrow> talloc_alloc mapper_oom_handler t demo_layout;
         (q, t2) \<leftarrow> talloc_alloc mapper_oom_handler t1 demo_layout;
         Some (r, q) }) = Some (Inr 65728, Inr 65792)"
  by code_simp

text \<open>Two allocations from it, as steps of a client.\<close>

abbreviation talloc_step ::
  "talloc \<times> (layout \<times> ptr) set \<Rightarrow> talloc \<times> (layout \<times> ptr) set \<Rightarrow> bool" where
  "talloc_step \<equiv> heap_step (talloc_alloc mapper_oom_handler) talloc_dealloc talloc_shrink layout_ok layout_le"

lemma demo_run:
  "\<exists>t t'. talloc_new 0x10000 1024 16 0x10000 1024 zero_nodes = Some t \<and> talloc_free t {65680..<66560} \<and>
     talloc_step\<^sup>*\<^sup>* (t, {}) (t', {(demo_layout, 65792), (demo_layout, 65728)})"
proof -
  obtain t where t: "talloc_new 0x10000 1024 16 0x10000 1024 zero_nodes = Some t" "talloc_free t {65680..<66560}"
    using demo_new by blast
  obtain t1 t2 where a: "talloc_alloc mapper_oom_handler t demo_layout = Some (Inr 65728, t1)"
    "talloc_alloc mapper_oom_handler t1 demo_layout = Some (Inr 65792, t2)"
    using demo_allocs t(1) by (auto split: bind_splits)
  have "talloc_step (t, {}) (t1, {(demo_layout, 65728)})" by (rule step_alloc) (rule demo_args(6), rule a(1))
  moreover have "talloc_step (t1, {(demo_layout, 65728)}) (t2, {(demo_layout, 65792), (demo_layout, 65728)})"
    by (rule step_alloc) (rule demo_args(6), rule a(2))
  ultimately have "talloc_step\<^sup>*\<^sup>* (t, {}) (t2, {(demo_layout, 65792), (demo_layout, 65728)})"
    by (meson converse_rtranclp_into_rtranclp r_into_rtranclp)
  with t show ?thesis by blast
qed

section \<open>Properties of every run\<close>

text \<open>
  C1. In every run of allocations, deallocations and in-place shrinks, in any order, that starts
  with an allocator in a good state, the blocks that are live at any time do not overlap.
\<close>

theorem talloc_run_disjoint:
  assumes "talloc_step\<^sup>*\<^sup>* (t, {}) (t', live)" "talloc_free t H" "a \<in> live" "b \<in> live" "a \<noteq> b"
  shows "talloc_span t a \<inter> talloc_span t b = {}"
  by (rule hm.run_disjoint [OF assms])

theorem talloc_run_disjoint_witness:
  "\<exists>t. talloc_new 0x10000 1024 16 0x10000 1024 zero_nodes = Some t \<and>
     talloc_span t (demo_layout, 65792) \<inter> talloc_span t (demo_layout, 65728) = {}"
proof -
  obtain t t' where *: "talloc_new 0x10000 1024 16 0x10000 1024 zero_nodes = Some t" "talloc_free t {65680..<66560}"
    "talloc_step\<^sup>*\<^sup>* (t, {}) (t', {(demo_layout, 65792), (demo_layout, 65728)})"
    using demo_run by blast
  show ?thesis using *(1) talloc_run_disjoint [OF *(3,2), of "(demo_layout, 65792)" "(demo_layout, 65728)"] by simp
qed

text \<open>
  C2. In every such run no byte is lost or gained: the bytes that are free and the bytes of the live
  blocks are disjoint and together are the bytes that were free at the start.
\<close>

theorem talloc_run_conserves:
  assumes "talloc_step\<^sup>*\<^sup>* (t, {}) (t', live)" "talloc_free t H"
  shows "\<exists>S. talloc_free t' S \<and> S \<union> (\<Union>a\<in>live. talloc_span t a) = H \<and>
    S \<inter> (\<Union>a\<in>live. talloc_span t a) = {}"
  by (rule hm.run_conserves [OF assms])

theorem talloc_run_conserves_witness:
  "\<exists>t t' S. talloc_new 0x10000 1024 16 0x10000 1024 zero_nodes = Some t \<and> talloc_free t' S \<and>
     S \<union> (\<Union>a\<in>{(demo_layout, 65792), (demo_layout, 65728)}. talloc_span t a) = {65680..<66560}"
proof -
  obtain t t' where *: "talloc_new 0x10000 1024 16 0x10000 1024 zero_nodes = Some t" "talloc_free t {65680..<66560}"
    "talloc_step\<^sup>*\<^sup>* (t, {}) (t', {(demo_layout, 65792), (demo_layout, 65728)})"
    using demo_run by blast
  obtain S where "talloc_free t' S"
    "S \<union> (\<Union>a\<in>{(demo_layout, 65792), (demo_layout, 65728)}. talloc_span t a) = {65680..<66560}"
    using talloc_run_conserves [OF *(3,2)] by (elim exE conjE)
  with *(1) show ?thesis by (intro exI conjI)
qed

text \<open>
  C5. In every such run a live block can be given back: \<open>dealloc\<close> with the layout it was
  allocated (or last shrunk) with does not panic, whatever happened in between.
\<close>

theorem talloc_run_can_free:
  assumes "talloc_step\<^sup>*\<^sup>* (t, {}) (t', live)" "talloc_free t H" "(l, p) \<in> live"
  shows "\<exists>t''. talloc_dealloc t' p l = Some t'' \<and> talloc_step (t', live) (t'', live - {(l, p)})"
  by (rule hm.run_can_free [OF assms])

theorem talloc_run_can_free_witness:
  "\<exists>t' t''. talloc_dealloc t' 65728 demo_layout = Some t'' \<and>
     talloc_step (t', {(demo_layout, 65792), (demo_layout, 65728)})
       (t'', {(demo_layout, 65792), (demo_layout, 65728)} - {(demo_layout, 65728)})"
proof -
  obtain t t' where *: "talloc_free t {65680..<66560}"
    "talloc_step\<^sup>*\<^sup>* (t, {}) (t', {(demo_layout, 65792), (demo_layout, 65728)})"
    using demo_run by blast
  show ?thesis using talloc_run_can_free [OF *(2,1), of demo_layout 65728] by auto
qed

section \<open>Properties of the operations\<close>

lemma own_block_fits:
  assumes "talloc_own t (l, p)"
  shows "int (unat (layout_align l)) dvd sint p"
    "{sint p ..< sint p + uint (layout_size l)} \<subseteq> talloc_span t (l, p)"
proof -
  define m where "m = layout_level t l"
  have l: "layout_ok l" and v: "2 ^ m dvd sint p" using assms by (auto simp: talloc_own_def blk_valid_def m_def)
  have lv: "unat (layout_size l) \<le> 2 ^ m" "unat (layout_align l) \<le> 2 ^ m"
    using layout_level_least [OF l, of t m] by (simp_all add: m_def)
  have "layout_align l = 2 ^ fast_non0_log2 (layout_align l)" "layout_align l \<noteq> 0"
    using l is_power_of_two_log2 by (auto simp: layout_ok_def is_power_of_two_def)
  then have al: "unat (layout_align l) = 2 ^ fast_non0_log2 (layout_align l)"
    using unat_pow2 [of "fast_non0_log2 (layout_align l)", where 'a = 64] fast_non0_log2_less [of "layout_align l"] by simp
  then have "fast_non0_log2 (layout_align l) \<le> m" using lv(2) by simp
  then have "(2 :: int) ^ fast_non0_log2 (layout_align l) dvd 2 ^ m" by (rule le_imp_power_dvd)
  then show "int (unat (layout_align l)) dvd sint p" using v al by (simp add: dvd_trans)
  have "int (unat (layout_size l)) \<le> int (2 ^ m)" using lv(1) by (simp only: of_nat_le_iff)
  then show "{sint p ..< sint p + uint (layout_size l)} \<subseteq> talloc_span t (l, p)"
    by (auto simp: talloc_span_def blk_bytes_def m_def)
qed

text \<open>
  C3. \<open>alloc\<close> succeeds exactly when a free block is large enough. It then returns a pointer that
  has the alignment of the layout and starts a block that holds the requested bytes, all of them
  free before; afterwards exactly that block is no longer free. Otherwise it returns
  \<open>AllocError\<close> and changes nothing.
\<close>

theorem talloc_alloc_correct:
  assumes "talloc_free t S" "layout_ok l"
  shows "if talloc_fits t l
    then \<exists>p t'. talloc_alloc mapper_oom_handler t l = Some (Inr p, t') \<and>
      talloc_free t' (S - talloc_span t (l, p)) \<and> talloc_span t (l, p) \<subseteq> S \<and>
      {sint p ..< sint p + uint (layout_size l)} \<subseteq> talloc_span t (l, p) \<and>
      int (unat (layout_align l)) dvd sint p \<and> p \<noteq> 0
    else talloc_alloc mapper_oom_handler t l = Some (Inl AllocError, t)"
proof (cases "talloc_fits t l")
  case True
  then obtain p t' where p: "talloc_alloc mapper_oom_handler t l = Some (Inr p, t')"
    "talloc_free t' (S - talloc_span t (l, p))" "talloc_span t (l, p) \<subseteq> S" "talloc_own t (l, p)"
    using talloc_alloc_law(1) [OF assms] by blast
  have "p \<noteq> 0" using p(4) blk_base_in [of "(layout_level t l, sint p)"] by (auto simp: talloc_own_def talloc_span_def)
  then show ?thesis using True p own_block_fits [OF p(4)] by auto
qed (use talloc_alloc_law(2) [OF assms] in simp)

theorem talloc_alloc_correct_witness:
  "\<exists>t. talloc_new 0x10000 1024 16 0x10000 1024 zero_nodes = Some t \<and>
    (if talloc_fits t demo_layout
     then \<exists>p t'. talloc_alloc mapper_oom_handler t demo_layout = Some (Inr p, t') \<and>
       talloc_free t' ({65680..<66560} - talloc_span t (demo_layout, p)) \<and>
       talloc_span t (demo_layout, p) \<subseteq> {65680..<66560} \<and>
       {sint p ..< sint p + uint (layout_size demo_layout)} \<subseteq> talloc_span t (demo_layout, p) \<and>
       int (unat (layout_align demo_layout)) dvd sint p \<and> p \<noteq> 0
     else talloc_alloc mapper_oom_handler t demo_layout = Some (Inl AllocError, t))"
proof -
  obtain t where t: "talloc_new 0x10000 1024 16 0x10000 1024 zero_nodes = Some t" "talloc_free t {65680..<66560}"
    using demo_new by blast
  show ?thesis using t(1) talloc_alloc_correct [OF t(2) demo_args(6)] by blast
qed

text \<open>
  C4. \<open>dealloc\<close> of a block of the allocator that is not free does not panic, whichever buddies it
  merges with, keeps the allocator's invariant and makes exactly the bytes of the block free.
\<close>

theorem talloc_dealloc_correct:
  assumes "talloc_free t S" "talloc_own t (l, p)" "talloc_span t (l, p) \<inter> S = {}"
  shows "\<exists>t'. talloc_dealloc t p l = Some t' \<and> talloc_free t' (S \<union> talloc_span t (l, p))"
  using talloc_dealloc_law [OF assms] by blast

theorem talloc_dealloc_correct_witness:
  "\<exists>t p t'. talloc_dealloc t p demo_layout = Some t' \<and>
     talloc_free t' ({65680..<66560} - talloc_span t (demo_layout, p) \<union> talloc_span t (demo_layout, p))"
proof -
  obtain t where t: "talloc_new 0x10000 1024 16 0x10000 1024 zero_nodes = Some t" "talloc_free t {65680..<66560}"
    using demo_new by blast
  obtain t1 where a: "talloc_alloc mapper_oom_handler t demo_layout = Some (Inr 65728, t1)"
    using demo_allocs t(1) by (auto split: bind_splits)
  note law = hm.alloc_ok [OF t(2) demo_args(6) a]
  have eq: "talloc_span t1 = talloc_span t" "talloc_own t1 = talloc_own t" using same_arena_own law by auto
  show ?thesis
    using talloc_dealloc_correct [of t1 "{65680..<66560} - talloc_span t (demo_layout, 65728)" demo_layout 65728] law
    unfolding eq by (metis Diff_disjoint Int_commute eq(1))
qed




lemma demo_half:
  "\<exists>t. talloc_new 0x10000 1024 16 0x10000 512 zero_nodes = Some t \<and> talloc_free t {65680..<66048} \<and>
    talloc_geo t = arena_geo 0x10000 1024 4 \<and> status_bytes t \<subseteq> {65536..<65680}"
proof -
  have "round_down 4 (65536 + 512) = 66048" by (simp add: round_down_def)
  then have "\<exists>t F. talloc_new 0x10000 1024 (2 ^ 4) 0x10000 512 zero_nodes = Some t \<and> talloc_inv t F \<and>
    free_bytes (talloc_blocks t F) = {65680..<66048} \<and> get_arena t = (0x10000, 1024) \<and>
    talloc_geo t = arena_geo 0x10000 1024 4 \<and> status_bytes t \<subseteq> {65536..<65680}"
    using talloc_new_step [OF demo_args(1,2), of "0x10000" 512 zero_nodes] demo_args by simp
  then show ?thesis unfolding talloc_free_def by auto
qed




text \<open>
  C6. The allocator finds memory whenever there is any: a request is met exactly when some aligned range of
  its block size is free, however the free memory came about.
\<close>

theorem talloc_alloc_complete:
  assumes "talloc_free t S" "layout_ok l" "layout_to_size t l = Some (2 ^ m)" "m < 64"
  shows "(\<exists>p t'. talloc_alloc mapper_oom_handler t l = Some (Inr p, t')) \<longleftrightarrow> (\<exists>x. 2 ^ m dvd x \<and> {x..<x + 2 ^ m} \<subseteq> S)"
proof -
  obtain F where F: "talloc_inv t F" using assms(1) unfolding talloc_free_def by blast
  have "layout_to_size t l = Some (2 ^ layout_level t l)" "layout_level t l < 64"
    using layout_to_size_level [OF talloc_invD(1) [OF F] assms(2)] by simp_all
  then have "unat (2 ^ m :: usize) = unat (2 ^ layout_level t l :: usize)" using assms(3) by simp
  then have "m = layout_level t l" using assms(4) \<open>layout_level t l < 64\<close> by (simp add: unat_pow2)
  then show ?thesis
    using talloc_alloc_law [OF assms(1,2)] talloc_fits_free [OF assms(1), of l] by (cases "talloc_fits t l") auto
qed

lemma demo_size: "(do { t \<leftarrow> talloc_new 0x10000 1024 16 0x10000 1024 zero_nodes; layout_to_size t demo_layout }) = Some 64"
  by code_simp

theorem talloc_alloc_complete_witness:
  "\<exists>t p t'. talloc_free t {65680..<66560} \<and> talloc_alloc mapper_oom_handler t demo_layout = Some (Inr p, t')"
proof -
  obtain t where t: "talloc_free t {65680..<66560}" "talloc_new 0x10000 1024 16 0x10000 1024 zero_nodes = Some t"
    using demo_new by blast
  have "layout_to_size t demo_layout = Some (2 ^ 6)" using demo_size t(2) by simp
  then have "(\<exists>p t'. talloc_alloc mapper_oom_handler t demo_layout = Some (Inr p, t')) \<longleftrightarrow>
      (\<exists>x. (2 :: int) ^ 6 dvd x \<and> {x..<x + 2 ^ 6} \<subseteq> {65680..<66560})"
    by (rule talloc_alloc_complete [OF t(1) demo_args(6)]) simp
  moreover have "(2 :: int) ^ 6 dvd 65728 \<and> {65728..<65728 + 2 ^ 6} \<subseteq> {65680..<66560 :: int}" by auto
  ultimately show ?thesis using t(1) by blast
qed

text \<open>
  C20. The block size that \<open>layout_to_size\<close> computes with its bit tricks is the smallest power of two
  that is not below the size, the alignment and the smallest block.
\<close>

theorem layout_to_size_least:
  assumes "talloc_free t S" "layout_ok l"
  shows "\<exists>m. layout_to_size t l = Some (2 ^ m) \<and> (\<forall>j. m \<le> j \<longleftrightarrow>
    unat (layout_size l) \<le> 2 ^ j \<and> unat (layout_align l) \<le> 2 ^ j \<and> unat (smlst_block t) \<le> 2 ^ j)"
proof -
  obtain F where F: "talloc_inv t F" using assms(1) unfolding talloc_free_def by blast
  note I = talloc_invD [OF F]
  have "smlst_block t = 2 ^ geo_min (talloc_geo t)" "geo_min (talloc_geo t) < 64"
    using I(1) geo_okD(2,3) [OF I(8)] by (auto simp: talloc_frame_def)
  then have "unat (smlst_block t) = 2 ^ geo_min (talloc_geo t)" by (simp add: unat_pow2)
  then show ?thesis
    using layout_to_size_level(1) [OF I(1) assms(2)] layout_level_least [OF assms(2), of t] by auto
qed

theorem layout_to_size_least_witness:
  "\<exists>t m. layout_to_size t demo_layout = Some (2 ^ m) \<and> (\<forall>j. m \<le> j \<longleftrightarrow>
    unat (layout_size demo_layout) \<le> 2 ^ j \<and> unat (layout_align demo_layout) \<le> 2 ^ j \<and>
    unat (smlst_block t) \<le> 2 ^ j)"
proof -
  obtain t where "talloc_free t {65680..<66560}" using demo_new by blast
  from layout_to_size_least [OF this demo_args(6)] show ?thesis by blast
qed

end
