(* ===== verification/Talloc_Extend.thy ===== *)
theory Talloc_Extend
  imports Talloc_New
begin

text \<open>
  Extension of an existing arena by \<open>Talloc::extend\<close>: how the loop over the granularities carries
  the flags of the old bitmap over to the new one, and where it goes wrong.
\<close>

text \<open>
  C23. For granularity 0 the extension carries over the wrong flag: the bit that it writes for the old
  arena as a block of the new one is bit 1 of the old bitmap, the flag of the two halves of the old
  arena, not bit 0. So an arena of which one half is free is recorded as a block that is free while
  its buddy is not.
\<close>

theorem extend_bitmap_wrong_flag:
  assumes "bitmap_offset new (arena_base old) (arena_size_pow2 old) = Some w"
    and "unat w mod 8 \<noteq> 7" "unat w < 8 * length bm" "bitmap old \<noteq> []"
  shows "\<exists>out. extend_bitmap old new [0] bm = Some out \<and> length out = length bm \<and>
    (\<forall>i < 8 * length bm. slice_bit out i =
       (if i = unat w then slice_bit (bitmap old) 1 else slice_bit bm i))"
proof -
  have "unat w mod 8 < 8" by simp
  then have "unat w mod 8 + 1 < 8" using assms(2) by linarith
  moreover have "1 + 1 \<le> 8 * length (bitmap old)" using assms(4) by (cases "bitmap old") auto
  ultimately obtain out where out: "copy_slice_bits bm (bitmap old) (unat w) 1 1 = Some out" "length out = length bm"
    "\<forall>i < 8 * length bm. slice_bit out i =
       (if unat w \<le> i \<and> i < unat w + 1 then slice_bit (bitmap old) (1 + (i - unat w)) else slice_bit bm i)"
    using copy_slice_bits_bits [of 1 "unat w" 1 "bitmap old" bm] offset_in [OF assms(3)] by auto
  have "extend_bitmap old new [0] bm = Some out"
    using assms(1) out(1) by (simp add: checked_shl_def checked_shr_def max_def)
  moreover have "unat w \<le> i \<and> i < unat w + 1 \<longleftrightarrow> i = unat w" for i by auto
  ultimately show ?thesis using out(2,3) by (intro exI [of _ out]) auto
qed

text \<open>Half of a 256-byte arena is free (bit 1), its flag of granularity 0 is clear (bit 0).\<close>

definition half_free :: talloc where
  "half_free = \<lparr>arena_base = 0x10000, arena_size = 256, arena_size_pow2 = 256, smlst_block = 16, avails = 2,
     llists_ptr = 0x10010, llists_len = 5, bitmap_ptr = 0x10060, bitmap = [2, 0, 0, 0],
     nodes = (\<lambda>_. \<lparr>node_data = (), node_next = 0, node_prev = 0\<rparr>)\<rparr>"

theorem extend_bitmap_wrong_flag_witness:
  "\<not> slice_bit (bitmap half_free) 0 \<and>
   (\<exists>out. extend_bitmap half_free (half_free\<lparr>arena_size_pow2 := 512\<rparr>) [0] (replicate 8 0) = Some out \<and>
      slice_bit out 1)"
proof -
  have off: "bitmap_offset (half_free\<lparr>arena_size_pow2 := 512\<rparr>) (arena_base half_free) (arena_size_pow2 half_free) = Some 1"
    by code_simp
  have flags: "\<not> slice_bit (bitmap half_free) 0" "slice_bit (bitmap half_free) 1" by code_simp+
  have "bitmap half_free \<noteq> []" by (simp add: half_free_def)
  from extend_bitmap_wrong_flag [OF off _ _ this, of "replicate 8 0"] flags show ?thesis by auto
qed

text \<open>
  An extension whose new bitmap has the flags of granularity 3 in the upper half of a byte, which
  is the case whenever the number of granularities stays the same, panics in the bit copy.
\<close>

lemma extend_bitmap_same_granularity_panics:
  assumes "3 \<in> set gs" "bitmap_offset new (arena_base old) (drop_bit 3 (arena_size_pow2 old)) = Some w"
    and "unat w mod 8 = 4"
  shows "extend_bitmap old new gs bm = None"
  using assms(1)
proof (induction gs arbitrary: bm)
  case (Cons g gs)
  show ?case
  proof (cases "g = 3")
    case True
    have "unat (max (drop_bit 1 (push_bit 3 1)) 1 :: usize) = 4" by code_simp
    moreover have "(unat w + 4) mod 8 = 0" using assms(3) by presburger
    then have "copy_slice_bits bm (bitmap old) (unat w) 4 4 = None" by (intro copy_slice_bits_byte_end) simp_all
    ultimately show ?thesis
      using assms(2) by (simp only: True extend_bitmap.simps) (simp add: checked_shl_def checked_shr_def Let_def)
  next
    case False
    then have "3 \<in> set gs" using Cons.prems by simp
    then have "extend_bitmap old new gs b = None" for b using Cons.IH by blast
    then show ?thesis by (simp add: Let_def split: bind_splits)
  qed
qed simp

end
