(* ===== verification/Tallock.thy ===== *)
theory Tallock
  imports Talloc_Contract
begin

text \<open>
  Model of \<open>Tallock\<close> in \<^verbatim>\<open>kernel/src/memm/talloc.rs\<close>: the \<open>GlobalAlloc\<close> and
  \<open>Allocator\<close> implementations on top of the allocator. The spin lock is held for each call on the
  inner allocator, so a call is a step on the locked state; the state also has the bytes of memory,
  which \<open>alloc_zeroed\<close> and \<open>realloc\<close> write. The nodes that the allocator keeps inside free
  blocks are in \<open>nodes\<close>, not in these bytes: what is said below of bytes is said of allocated
  blocks, where no node is.
\<close>

record tallock =
  inner :: talloc
  bytes :: "ptr \<Rightarrow> u8"

text \<open>\<open>NonNull::<u8>::dangling()\<close>, and the slices that \<open>Allocator\<close> returns.\<close>

definition dangling :: ptr where "dangling = 1"

type_synonym mem_slice = "ptr \<times> usize"

definition write_bytes :: "ptr \<Rightarrow> u8 \<Rightarrow> usize \<Rightarrow> (ptr \<Rightarrow> u8) \<Rightarrow> ptr \<Rightarrow> u8" where
  "write_bytes p v n m = (\<lambda>a. if a - p < n then v else m a)"

definition copy_nonoverlapping :: "ptr \<Rightarrow> ptr \<Rightarrow> usize \<Rightarrow> (ptr \<Rightarrow> u8) \<Rightarrow> ptr \<Rightarrow> u8" where
  "copy_nonoverlapping src dst n m = (\<lambda>a. if a - dst < n then m (src + (a - dst)) else m a)"

section \<open>\<open>GlobalAlloc\<close>\<close>

definition global_alloc :: "oom_handler \<Rightarrow> tallock \<Rightarrow> layout \<Rightarrow> (ptr \<times> tallock) option" where
  "global_alloc oom k l = do {
     (r, t) \<leftarrow> talloc_alloc oom (inner k) l;
     Some (case r of Inr p \<Rightarrow> p | Inl e \<Rightarrow> 0, k\<lparr>inner := t\<rparr>)
   }"

definition global_dealloc :: "tallock \<Rightarrow> ptr \<Rightarrow> layout \<Rightarrow> tallock option" where
  "global_dealloc k p l = do {
     t \<leftarrow> talloc_dealloc (inner k) p l;
     Some (k\<lparr>inner := t\<rparr>)
   }"

definition global_alloc_zeroed :: "oom_handler \<Rightarrow> tallock \<Rightarrow> layout \<Rightarrow> (ptr \<times> tallock) option" where
  "global_alloc_zeroed oom k l = do {
     (r, t) \<leftarrow> talloc_alloc oom (inner k) l;
     let k = k\<lparr>inner := t\<rparr>;
     (case r of
        Inr p \<Rightarrow> Some (p, k\<lparr>bytes := write_bytes p 0 (layout_size l) (bytes k)\<rparr>)
      | Inl e \<Rightarrow> Some (0, k))
   }"

definition global_realloc ::
  "oom_handler \<Rightarrow> tallock \<Rightarrow> ptr \<Rightarrow> layout \<Rightarrow> usize \<Rightarrow> (ptr \<times> tallock) option" where
  "global_realloc oom k p old_layout new_size =
     (if layout_size old_layout < new_size then do {
        (r, t) \<leftarrow> talloc_alloc oom (inner k) \<lparr>layout_size = new_size, layout_align = layout_align old_layout\<rparr>;
        let k = k\<lparr>inner := t\<rparr>;
        (case r of
           Inr q \<Rightarrow> do {
             let k = k\<lparr>bytes := copy_nonoverlapping p q (layout_size old_layout) (bytes k)\<rparr>;
             k \<leftarrow> global_dealloc k p old_layout;
             Some (q, k)
           }
         | Inl e \<Rightarrow> Some (0, k))
      } else do {
        t \<leftarrow> talloc_shrink (inner k) p old_layout
               \<lparr>layout_size = new_size, layout_align = layout_align old_layout\<rparr>;
        Some (p, k\<lparr>inner := t\<rparr>)
      })"

section \<open>\<open>Allocator\<close>\<close>

definition allocator_allocate ::
  "oom_handler \<Rightarrow> tallock \<Rightarrow> layout \<Rightarrow> (mem_slice alloc_result \<times> tallock) option" where
  "allocator_allocate oom k l =
     (if layout_size l \<noteq> 0 then do {
        (r, t) \<leftarrow> talloc_alloc oom (inner k) l;
        Some (case r of Inr p \<Rightarrow> Inr (p, layout_size l) | Inl e \<Rightarrow> Inl e, k\<lparr>inner := t\<rparr>)
      } else Some (Inr (dangling, 0), k))"

definition allocator_deallocate :: "tallock \<Rightarrow> ptr \<Rightarrow> layout \<Rightarrow> tallock option" where
  "allocator_deallocate k p l = (if p \<noteq> dangling then global_dealloc k p l else Some k)"

definition allocator_shrink ::
  "tallock \<Rightarrow> ptr \<Rightarrow> layout \<Rightarrow> layout \<Rightarrow> (mem_slice alloc_result \<times> tallock) option" where
  "allocator_shrink k p old_layout new_layout =
     (if layout_size new_layout \<noteq> 0 then do {
        t \<leftarrow> talloc_shrink (inner k) p old_layout new_layout;
        Some (Inr (p, layout_size new_layout), k\<lparr>inner := t\<rparr>)
      } else do {
        k \<leftarrow> allocator_deallocate k p old_layout;
        Some (Inr (dangling, 0), k)
      })"

section \<open>Properties\<close>

lemma copy_nonoverlapping_get:
  "i < n \<Longrightarrow> copy_nonoverlapping src dst n m (dst + i) = m (src + i)"
  by (simp add: copy_nonoverlapping_def)


lemma demo_grow:
  "(do { t \<leftarrow> talloc_new 0x10000 1024 16 0x10000 1024 zero_nodes;
         (r, t1) \<leftarrow> talloc_alloc mapper_oom_handler t demo_layout;
         (q, t2) \<leftarrow> talloc_alloc mapper_oom_handler t1 \<lparr>layout_size = 100, layout_align = 8\<rparr>;
         Some (r, q) }) = Some (Inr 65728, Inr 65792)"
  by code_simp


text \<open>
  \<open>alloc_zeroed\<close> returns null exactly when no block is large enough; otherwise every requested
  byte of the returned block is zero and no byte outside it is written.
\<close>

lemma global_alloc_zeroed_correct:
  assumes "talloc_free (inner k) S" "layout_ok l"
  shows "\<exists>p k'. global_alloc_zeroed mapper_oom_handler k l = Some (p, k') \<and>
    (p = 0 \<longleftrightarrow> \<not> talloc_fits (inner k) l) \<and>
    (p \<noteq> 0 \<longrightarrow> (\<forall>i<layout_size l. bytes k' (p + i) = 0) \<and>
      (\<forall>a. \<not> a - p < layout_size l \<longrightarrow> bytes k' a = bytes k a) \<and>
      talloc_free (inner k') (S - talloc_span (inner k) (l, p)))"
proof (cases "talloc_fits (inner k) l")
  case True
  then obtain p t where p: "talloc_alloc mapper_oom_handler (inner k) l = Some (Inr p, t)"
    "talloc_free t (S - talloc_span (inner k) (l, p))" "talloc_own (inner k) (l, p)"
    using talloc_alloc_law(1) [OF assms] by blast
  have "p \<noteq> 0" using p(3) blk_base_in [of "(layout_level (inner k) l, sint p)"] by (auto simp: talloc_own_def talloc_span_def)
  then show ?thesis using p(1,2) True by (simp add: global_alloc_zeroed_def write_bytes_def Let_def)
next
  case False
  then show ?thesis using talloc_alloc_law(2) [OF assms] by (simp add: global_alloc_zeroed_def)
qed

end
