(* ===== verification/Registers.thy ===== *)
theory Registers
  imports Prelude
begin

text \<open>
  Model of \<^verbatim>\<open>amd64/src/lib.rs\<close> (privilege levels) and \<^verbatim>\<open>amd64/src/registers.rs\<close>: the flags of
  the control registers, the accessors that wrap the \<^verbatim>\<open>mov\<close>, \<^verbatim>\<open>rdmsr\<close> and \<^verbatim>\<open>wrmsr\<close> instructions
  as reads and updates of a record of the processor's registers, and the encoding of CR3.

  A struct declared with the \<^verbatim>\<open>bitflags\<close> macro is the word of its bits. Of the methods the macro
  generates the sources use \<open>|\<close>, \<open>&\<close> (the operations on the bits), \<open>contains\<close> and \<open>!\<close>, which
  complements within the declared flags.
\<close>

section \<open>Privilege levels\<close>

datatype priv_lvl = Ring0 | Ring1 | Ring2 | Ring3

fun priv_lvl_to_bits :: "priv_lvl \<Rightarrow> u8" where
  "priv_lvl_to_bits Ring0 = 0"
| "priv_lvl_to_bits Ring1 = 1"
| "priv_lvl_to_bits Ring2 = 2"
| "priv_lvl_to_bits Ring3 = 3"

definition priv_lvl_from_bits :: "u8 \<Rightarrow> priv_lvl option" where
  "priv_lvl_from_bits from =
     (if from = 0 then Some Ring0 else if from = 1 then Some Ring1
      else if from = 2 then Some Ring2 else if from = 3 then Some Ring3 else None)"

definition is_userland :: "priv_lvl \<Rightarrow> bool" where
  "is_userland l \<longleftrightarrow> l = Ring3"

text \<open>The derived order is the order of the discriminants.\<close>

instantiation priv_lvl :: linorder
begin

definition less_eq_priv_lvl :: "priv_lvl \<Rightarrow> priv_lvl \<Rightarrow> bool" where
  "less_eq_priv_lvl a b \<longleftrightarrow> priv_lvl_to_bits a \<le> priv_lvl_to_bits b"

definition less_priv_lvl :: "priv_lvl \<Rightarrow> priv_lvl \<Rightarrow> bool" where
  "less_priv_lvl a b \<longleftrightarrow> priv_lvl_to_bits a < priv_lvl_to_bits b"

instance
proof
  fix a b c :: priv_lvl
  have inj: "priv_lvl_to_bits a = priv_lvl_to_bits b \<Longrightarrow> a = b" for a b
    by (cases a; cases b) simp_all
  show "(a < b) = (a \<le> b \<and> \<not> b \<le> a)" by (auto simp: less_priv_lvl_def less_eq_priv_lvl_def)
  show "a \<le> a" by (simp add: less_eq_priv_lvl_def)
  show "a \<le> b \<Longrightarrow> b \<le> c \<Longrightarrow> a \<le> c" by (simp add: less_eq_priv_lvl_def)
  show "a \<le> b \<Longrightarrow> b \<le> a \<Longrightarrow> a = b" using inj by (simp add: less_eq_priv_lvl_def)
  show "a \<le> b \<or> b \<le> a" by (auto simp: less_eq_priv_lvl_def)
qed

end

lemma priv_lvl_from_to [simp]: "priv_lvl_from_bits (priv_lvl_to_bits l) = Some l"
  by (cases l) (simp_all add: priv_lvl_from_bits_def)

section \<open>Flags\<close>

definition contains :: "'a::len word \<Rightarrow> 'a word \<Rightarrow> bool" where
  "contains bits other \<longleftrightarrow> bits AND other = other"

datatype rflags_flag =
    RF_CF | RF_PF | RF_AF | RF_ZF | RF_SF | RF_TF | RF_IF | RF_DF | RF_OF
  | RF_IOPL_MASK | RF_NT | RF_RF | RF_VM | RF_AC | RF_VIF | RF_VIP | RF_ID

fun rflags_bits :: "rflags_flag \<Rightarrow> u64" where
  "rflags_bits RF_CF = push_bit 0 1"
| "rflags_bits RF_PF = push_bit 2 1"
| "rflags_bits RF_AF = push_bit 4 1"
| "rflags_bits RF_ZF = push_bit 6 1"
| "rflags_bits RF_SF = push_bit 7 1"
| "rflags_bits RF_TF = push_bit 8 1"
| "rflags_bits RF_IF = push_bit 9 1"
| "rflags_bits RF_DF = push_bit 10 1"
| "rflags_bits RF_OF = push_bit 11 1"
| "rflags_bits RF_IOPL_MASK = push_bit 12 3"
| "rflags_bits RF_NT = push_bit 14 1"
| "rflags_bits RF_RF = push_bit 16 1"
| "rflags_bits RF_VM = push_bit 17 1"
| "rflags_bits RF_AC = push_bit 18 1"
| "rflags_bits RF_VIF = push_bit 19 1"
| "rflags_bits RF_VIP = push_bit 20 1"
| "rflags_bits RF_ID = push_bit 21 1"

datatype cr0_flag =
    CR0_PE | CR0_MP | CR0_EM | CR0_TS | CR0_ET | CR0_NE | CR0_WP | CR0_AM | CR0_NW | CR0_CD | CR0_PG

fun cr0_bits :: "cr0_flag \<Rightarrow> u64" where
  "cr0_bits CR0_PE = push_bit 0 1"
| "cr0_bits CR0_MP = push_bit 1 1"
| "cr0_bits CR0_EM = push_bit 2 1"
| "cr0_bits CR0_TS = push_bit 3 1"
| "cr0_bits CR0_ET = push_bit 4 1"
| "cr0_bits CR0_NE = push_bit 5 1"
| "cr0_bits CR0_WP = push_bit 16 1"
| "cr0_bits CR0_AM = push_bit 18 1"
| "cr0_bits CR0_NW = push_bit 29 1"
| "cr0_bits CR0_CD = push_bit 30 1"
| "cr0_bits CR0_PG = push_bit 31 1"

datatype cr4_flag =
    CR4_VME | CR4_PVI | CR4_TSD | CR4_DE | CR4_PSE | CR4_PAE | CR4_MCE | CR4_PGE | CR4_PCE
  | CR4_OSFXSR | CR4_OSXMMEXCPT | CR4_UMIP | CR4_LA57 | CR4_WMXE | CR4_SMXE | CR4_FSGSBASE
  | CR4_PCIDE | CR4_OSXSAVE | CR4_SMEP | CR4_SMAP | CR4_PKE | CR4_CET | CR4_PKS

fun cr4_bits :: "cr4_flag \<Rightarrow> u64" where
  "cr4_bits CR4_VME = push_bit 0 1"
| "cr4_bits CR4_PVI = push_bit 1 1"
| "cr4_bits CR4_TSD = push_bit 2 1"
| "cr4_bits CR4_DE = push_bit 3 1"
| "cr4_bits CR4_PSE = push_bit 4 1"
| "cr4_bits CR4_PAE = push_bit 5 1"
| "cr4_bits CR4_MCE = push_bit 6 1"
| "cr4_bits CR4_PGE = push_bit 7 1"
| "cr4_bits CR4_PCE = push_bit 8 1"
| "cr4_bits CR4_OSFXSR = push_bit 9 1"
| "cr4_bits CR4_OSXMMEXCPT = push_bit 10 1"
| "cr4_bits CR4_UMIP = push_bit 11 1"
| "cr4_bits CR4_LA57 = push_bit 12 1"
| "cr4_bits CR4_WMXE = push_bit 13 1"
| "cr4_bits CR4_SMXE = push_bit 14 1"
| "cr4_bits CR4_FSGSBASE = push_bit 16 1"
| "cr4_bits CR4_PCIDE = push_bit 17 1"
| "cr4_bits CR4_OSXSAVE = push_bit 18 1"
| "cr4_bits CR4_SMEP = push_bit 20 1"
| "cr4_bits CR4_SMAP = push_bit 21 1"
| "cr4_bits CR4_PKE = push_bit 22 1"
| "cr4_bits CR4_CET = push_bit 23 1"
| "cr4_bits CR4_PKS = push_bit 24 1"

datatype efer_flag =
    EFER_SCE | EFER_LME | EFER_LMA | EFER_NXE | EFER_SVME | EFER_LMSLE | EFER_FFXSR | EFER_TCE

fun efer_bits :: "efer_flag \<Rightarrow> u64" where
  "efer_bits EFER_SCE = push_bit 0 1"
| "efer_bits EFER_LME = push_bit 8 1"
| "efer_bits EFER_LMA = push_bit 10 1"
| "efer_bits EFER_NXE = push_bit 11 1"
| "efer_bits EFER_SVME = push_bit 12 1"
| "efer_bits EFER_LMSLE = push_bit 13 1"
| "efer_bits EFER_FFXSR = push_bit 14 1"
| "efer_bits EFER_TCE = push_bit 15 1"

text \<open>The union of the declared flags, within which \<open>!\<close> complements.\<close>

definition cr0_all :: u64 where
  "cr0_all = fold (OR) (map cr0_bits
     [CR0_PE, CR0_MP, CR0_EM, CR0_TS, CR0_ET, CR0_NE, CR0_WP, CR0_AM, CR0_NW, CR0_CD, CR0_PG]) 0"

definition cr4_all :: u64 where
  "cr4_all = fold (OR) (map cr4_bits
     [CR4_VME, CR4_PVI, CR4_TSD, CR4_DE, CR4_PSE, CR4_PAE, CR4_MCE, CR4_PGE, CR4_PCE, CR4_OSFXSR,
      CR4_OSXMMEXCPT, CR4_UMIP, CR4_LA57, CR4_WMXE, CR4_SMXE, CR4_FSGSBASE, CR4_PCIDE, CR4_OSXSAVE,
      CR4_SMEP, CR4_SMAP, CR4_PKE, CR4_CET, CR4_PKS]) 0"

definition cr0_not :: "u64 \<Rightarrow> u64" where "cr0_not f = NOT f AND cr0_all"
definition cr4_not :: "u64 \<Rightarrow> u64" where "cr4_not f = NOT f AND cr4_all"

section \<open>The register file\<close>

text \<open>
  The registers the sources read and write. A model-specific register is addressed by the 32 bits
  of ECX and holds EDX:EAX.
\<close>

record cpu =
  rflags :: u64
  cr0 :: u64
  cr2 :: ptr
  cr3 :: u64
  cr4 :: u64
  msrs :: "u32 \<Rightarrow> u64"

definition APIC_BASE_MSR :: u64 where "APIC_BASE_MSR = 0x0000001B"
definition EFER_MSR :: u64 where "EFER_MSR = 0xC0000080"
definition MPERF_MSR :: u64 where "MPERF_MSR = 0xC00000E7"
definition APERF_MSR :: u64 where "APERF_MSR = 0xC00000E8"

definition rdmsr :: "u64 \<Rightarrow> ('m cpu_scheme) \<Rightarrow> u64" where
  "rdmsr msr c =
     (let v = msrs c (ucast msr); low = take_bit 32 v; high = drop_bit 32 v
      in push_bit 32 high OR low)"

definition wrmsr :: "u64 \<Rightarrow> u64 \<Rightarrow> ('m cpu_scheme) \<Rightarrow> ('m cpu_scheme)" where
  "wrmsr msr data c =
     (let high = drop_bit 32 data; low = data
      in c\<lparr>msrs := (msrs c)(ucast msr := push_bit 32 high OR take_bit 32 low)\<rparr>)"

definition rflags_from_iopl :: "priv_lvl \<Rightarrow> u64" where
  "rflags_from_iopl pl = push_bit 12 (ucast (priv_lvl_to_bits pl))"

definition rflags_read :: "('m cpu_scheme) \<Rightarrow> u64" where "rflags_read c = rflags c"

definition rflags_write :: "u64 \<Rightarrow> ('m cpu_scheme) \<Rightarrow> ('m cpu_scheme)" where
  "rflags_write f c = c\<lparr>rflags := f\<rparr>"

definition get_iopl :: "u64 \<Rightarrow> priv_lvl option" where
  "get_iopl f = priv_lvl_from_bits (ucast (drop_bit 12 (f AND rflags_bits RF_IOPL_MASK)))"

definition cr0_read :: "('m cpu_scheme) \<Rightarrow> u64" where "cr0_read c = cr0 c"

definition cr0_write :: "u64 \<Rightarrow> ('m cpu_scheme) \<Rightarrow> ('m cpu_scheme)" where
  "cr0_write v c = c\<lparr>cr0 := v\<rparr>"

definition cr4_read :: "('m cpu_scheme) \<Rightarrow> u64" where "cr4_read c = cr4 c"

definition cr4_write :: "u64 \<Rightarrow> ('m cpu_scheme) \<Rightarrow> ('m cpu_scheme)" where
  "cr4_write v c = c\<lparr>cr4 := v\<rparr>"

definition cr2_read :: "('m cpu_scheme) \<Rightarrow> ptr" where "cr2_read c = cr2 c"

text \<open>The macro \<open>disable_wp!\<close> runs a block between two writes of CR0.\<close>

definition disable_wp :: "(('m cpu_scheme) \<Rightarrow> ('m cpu_scheme)) \<Rightarrow> ('m cpu_scheme) \<Rightarrow> ('m cpu_scheme)" where
  "disable_wp b c =
     (let saved = cr0_read c;
          c = cr0_write (saved AND cr0_not (cr0_bits CR0_WP)) c;
          c = b c
      in cr0_write saved c)"

section \<open>CR3\<close>

text \<open>The mask of the physical address is \<open>PTE::BASE_MASK\<close>.\<close>

definition BASE_MASK :: u64 where "BASE_MASK = 0xFFFFFFFFFF000"

datatype cr3_flag = CR3_PWT | CR3_PCD

fun cr3_flag_bits :: "cr3_flag \<Rightarrow> u64" where
  "cr3_flag_bits CR3_PWT = push_bit 3 1"
| "cr3_flag_bits CR3_PCD = push_bit 4 1"

datatype cr3_data = CR3Flags u64 | CR3PCID u64

record cr3_value =
  cr3_data :: cr3_data
  cr3_paddr :: u64

definition PCID_MASK :: u64 where "PCID_MASK = 0x1FF"

definition cr3_read :: "('m cpu_scheme) \<Rightarrow> cr3_value" where
  "cr3_read c =
     (let pcide = contains (cr4_read c) (cr4_bits CR4_PCIDE); v = cr3 c
      in \<lparr>cr3_data = (if pcide then CR3PCID (v AND PCID_MASK) else CR3Flags (v AND NOT BASE_MASK)),
          cr3_paddr = v AND BASE_MASK\<rparr>)"

definition cr3_write :: "cr3_value \<Rightarrow> ('m cpu_scheme) \<Rightarrow> ('m cpu_scheme)" where
  "cr3_write x c =
     (let cr4v = cr4_read c; pcid_enabled = contains cr4v (cr4_bits CR4_PCIDE)
      in case cr3_data x of
        CR3PCID pcid \<Rightarrow>
          (let v = cr3_paddr x OR (pcid AND PCID_MASK);
               c = (if \<not> pcid_enabled then cr4_write (cr4v OR cr4_bits CR4_PCIDE) c else c)
           in c\<lparr>cr3 := v\<rparr>)
      | CR3Flags flags \<Rightarrow>
          (let v = cr3_paddr x OR flags;
               c = (if pcid_enabled
                    then (let c = c\<lparr>cr3 := cr3 c AND NOT PCID_MASK\<rparr>
                          in cr4_write (cr4v AND cr4_not (cr4_bits CR4_PCIDE)) c)
                    else c)
           in c\<lparr>cr3 := v\<rparr>))"

definition cr3_set_nflags :: "u64 \<Rightarrow> ('m cpu_scheme) \<Rightarrow> ('m cpu_scheme)" where
  "cr3_set_nflags pml4_paddr = cr3_write \<lparr>cr3_data = CR3Flags 0, cr3_paddr = pml4_paddr\<rparr>"

definition cr3_reload :: "('m cpu_scheme) \<Rightarrow> ('m cpu_scheme)" where
  "cr3_reload c = c\<lparr>cr3 := cr3 c\<rparr>"

definition get_laddr_offset :: "cr3_value \<Rightarrow> isize \<Rightarrow> ptr option" where
  "get_laddr_offset x offset = checked_sadd (cr3_paddr x) offset"

section \<open>Facts on the registers\<close>

lemma rdmsr_wrmsr [simp]: "rdmsr m (wrmsr m v c) = v"
  by (simp add: rdmsr_def wrmsr_def Let_def bit_eq_iff bit_simps) auto

lemma rdmsr_wrmsr_other: "(ucast m :: u32) \<noteq> ucast n \<Longrightarrow> rdmsr m (wrmsr n v c) = rdmsr m c"
  by (simp add: rdmsr_def wrmsr_def Let_def)

lemma get_iopl_from_iopl: "get_iopl (rflags_from_iopl pl) = Some pl"
  by (cases pl) (simp_all add: get_iopl_def rflags_from_iopl_def priv_lvl_from_bits_def)

text \<open>A single flag is a bit.\<close>

lemma contains_bit:
  fixes w :: "'a::len word"
  assumes "n < LENGTH('a)"
  shows "contains w (push_bit n 1) \<longleftrightarrow> bit w n"
proof
  assume "contains w (push_bit n 1)"
  with assms have "bit (w AND push_bit n 1) n" by (simp add: contains_def bit_simps)
  then show "bit w n" by (simp add: bit_simps)
next
  assume "bit w n"
  then show "contains w (push_bit n 1)"
    unfolding contains_def by (intro bit_word_eqI) (auto simp: bit_simps)
qed

lemma disjoint_or_and:
  "a AND NOT m = 0 \<Longrightarrow> b AND m = 0 \<Longrightarrow> (a OR b) AND m = a" for a b m :: "'a::len word"
  by (auto simp: bit_eq_iff bit_simps)

lemma disjoint_or_and_not:
  "a AND NOT m = 0 \<Longrightarrow> b AND m = 0 \<Longrightarrow> (a OR b) AND NOT m = b" for a b m :: "'a::len word"
  by (auto simp: bit_eq_iff bit_simps)

lemma masks_disjoint: "BASE_MASK AND PCID_MASK = 0" "PCID_MASK AND BASE_MASK = 0"
  by (simp_all add: BASE_MASK_def PCID_MASK_def)

lemma disjoint_or_and_mask:
  "a AND NOT m = 0 \<Longrightarrow> m AND k = 0 \<Longrightarrow> (a OR b) AND k = b AND k" for a b m k :: "'a::len word"
  by (auto simp: bit_eq_iff bit_simps)

lemma and_mask_disjoint: "m AND k = 0 \<Longrightarrow> (b AND m) AND k = 0" for b m k :: "'a::len word"
  by (auto simp: bit_eq_iff bit_simps)

lemma pcide_set: "contains (v OR cr4_bits CR4_PCIDE) (cr4_bits CR4_PCIDE)"
  by (simp add: contains_def bit_eq_iff bit_simps)

lemma pcide_cleared: "\<not> contains (v AND cr4_not (cr4_bits CR4_PCIDE)) (cr4_bits CR4_PCIDE)"
proof -
  have "\<not> bit (v AND cr4_not (cr4_bits CR4_PCIDE)) 17"
    by (simp add: cr4_not_def bit_simps)
  then show ?thesis by (subst cr4_bits.simps, subst contains_bit) simp_all
qed

lemma cr3_write_pcide:
  "contains (cr4 (cr3_write x c)) (cr4_bits CR4_PCIDE) \<longleftrightarrow> (\<exists>p. cr3_data x = CR3PCID p)"
  using pcide_set [of "cr4 c"] pcide_cleared [of "cr4 c"]
  by (auto simp: cr3_write_def Let_def cr4_read_def cr4_write_def simp del: cr4_bits.simps split: cr3_data.split)

lemma cr3_write_cr3:
  "cr3 (cr3_write x c) =
     (case cr3_data x of CR3PCID p \<Rightarrow> cr3_paddr x OR (p AND PCID_MASK) | CR3Flags f \<Rightarrow> cr3_paddr x OR f)"
  by (simp add: cr3_write_def Let_def cr4_write_def split: cr3_data.split)

section \<open>Properties\<close>

text \<open>
  C26. What \<open>CR3::write\<close> stores \<open>CR3::read\<close> returns, for both kinds of data and whether or not
  process context identifiers were enabled before: the write switches \<open>CR4::PCIDE\<close> so that the
  later read decodes the register the same way. Of an identifier only the low 9 bits survive.
\<close>

theorem cr3_read_write:
  assumes "cr3_paddr x AND NOT BASE_MASK = 0"
    and "case cr3_data x of CR3Flags f \<Rightarrow> f AND BASE_MASK = 0 | CR3PCID p \<Rightarrow> True"
  shows "cr3_read (cr3_write x c) =
    x\<lparr>cr3_data := (case cr3_data x of CR3Flags f \<Rightarrow> CR3Flags f | CR3PCID p \<Rightarrow> CR3PCID (p AND PCID_MASK))\<rparr>"
proof (cases "cr3_data x")
  case (CR3Flags f)
  then show ?thesis
    using assms cr3_write_pcide [of x c]
    by (simp add: cr3_read_def cr4_read_def cr3_write_cr3 disjoint_or_and disjoint_or_and_not
        del: cr4_bits.simps)
next
  case (CR3PCID p)
  note m = masks_disjoint
  have "(cr3_paddr x OR (p AND PCID_MASK)) AND BASE_MASK = cr3_paddr x"
    by (rule disjoint_or_and [OF assms(1)]) (rule and_mask_disjoint [OF m(2)])
  moreover have "(cr3_paddr x OR (p AND PCID_MASK)) AND PCID_MASK = p AND PCID_MASK"
    using disjoint_or_and_mask [OF assms(1) m(1), of "p AND PCID_MASK"] by (simp add: ac_simps)
  ultimately show ?thesis
    using CR3PCID cr3_write_pcide [of x c]
    by (simp add: cr3_read_def cr4_read_def cr3_write_cr3 del: cr4_bits.simps)
qed

definition demo_cpu :: cpu where
  "demo_cpu = \<lparr>rflags = 2, cr0 = 0x80010033, cr2 = 0, cr3 = 0x1000, cr4 = 0x20, msrs = \<lambda>_. 0\<rparr>"

theorem cr3_read_write_witness:
  "cr3_read (cr3_write \<lparr>cr3_data = CR3PCID 0x234, cr3_paddr = 0x5000\<rparr> demo_cpu) =
     \<lparr>cr3_data = CR3PCID 0x34, cr3_paddr = 0x5000\<rparr>"
  using cr3_read_write [of "\<lparr>cr3_data = CR3PCID 0x234, cr3_paddr = 0x5000\<rparr>" demo_cpu]
  by (simp add: BASE_MASK_def PCID_MASK_def)

end
