(* ===== verification/Paging.thy ===== *)
theory Paging
  imports Registers
begin

text \<open>
  Model of \<^verbatim>\<open>amd64/src/paging.rs\<close>: constants and flags of page table entries, the page attribute
  table, the arithmetic on linear addresses and the recursive page table addresses. The
  specification of the recursive addresses is the processor's page walk, written here as a function
  of the memory that holds the tables.
\<close>

section \<open>Constants\<close>

definition PT_IDX_MASK :: isize where "PT_IDX_MASK = 0x1FF000"
definition PD_IDX_MASK :: isize where "PD_IDX_MASK = 0x3FE00000"
definition PDPT_IDX_MASK :: isize where "PDPT_IDX_MASK = 0x7FC0000000"
definition PML4_IDX_MASK :: isize where "PML4_IDX_MASK = 0xFF8000000000"

definition LOWER_HALF :: isize where "LOWER_HALF = 0x800000000000"
definition HIGHER_HALF :: isize where "HIGHER_HALF = - LOWER_HALF"

definition PTE_SIZE :: usize where "PTE_SIZE = 0x1000"
definition PDE_SIZE :: usize where "PDE_SIZE = 0x200000"
definition PDPTE_SIZE :: usize where "PDPTE_SIZE = 0x40000000"
definition PML4E_SIZE :: usize where "PML4E_SIZE = 0x8000000000"

datatype page_size_enum = PTE4KiB | PDE2MiB | PDPTE1GiB

fun page_size_to_usize :: "page_size_enum \<Rightarrow> usize" where
  "page_size_to_usize PTE4KiB = PTE_SIZE"
| "page_size_to_usize PDE2MiB = PDE_SIZE"
| "page_size_to_usize PDPTE1GiB = PDPTE_SIZE"

text \<open>\<open>PageSize::from_usize\<close> is a transmute, undefined on any other value.\<close>

definition page_size_from_usize :: "usize \<Rightarrow> page_size_enum option" where
  "page_size_from_usize sz =
     (if sz = PTE_SIZE then Some PTE4KiB else if sz = PDE_SIZE then Some PDE2MiB
      else if sz = PDPTE_SIZE then Some PDPTE1GiB else None)"

instantiation page_size_enum :: linorder
begin

definition less_eq_page_size_enum :: "page_size_enum \<Rightarrow> page_size_enum \<Rightarrow> bool" where
  "less_eq_page_size_enum a b \<longleftrightarrow> page_size_to_usize a \<le> page_size_to_usize b"

definition less_page_size_enum :: "page_size_enum \<Rightarrow> page_size_enum \<Rightarrow> bool" where
  "less_page_size_enum a b \<longleftrightarrow> page_size_to_usize a < page_size_to_usize b"

instance
proof
  fix a b c :: page_size_enum
  have inj: "page_size_to_usize a = page_size_to_usize b \<Longrightarrow> a = b" for a b
    by (cases a; cases b) (simp_all add: PTE_SIZE_def PDE_SIZE_def PDPTE_SIZE_def)
  show "(a < b) = (a \<le> b \<and> \<not> b \<le> a)"
    by (auto simp: less_page_size_enum_def less_eq_page_size_enum_def)
  show "a \<le> a" by (simp add: less_eq_page_size_enum_def)
  show "a \<le> b \<Longrightarrow> b \<le> c \<Longrightarrow> a \<le> c" by (simp add: less_eq_page_size_enum_def)
  show "a \<le> b \<Longrightarrow> b \<le> a \<Longrightarrow> a = b" using inj by (simp add: less_eq_page_size_enum_def)
  show "a \<le> b \<or> b \<le> a" by (auto simp: less_eq_page_size_enum_def)
qed

end

definition PT_LVL :: nat where "PT_LVL = 1"
definition PD_LVL :: nat where "PD_LVL = 2"
definition PDPT_LVL :: nat where "PDPT_LVL = 3"
definition PML4_LVL :: nat where "PML4_LVL = 4"

section \<open>Page table entries\<close>

type_synonym pte = u64

datatype pte_flag =
    PTE_P | PTE_RW | PTE_US | PTE_PWT | PTE_PCD | PTE_A | PTE_D | PTE_PS | PTE_PAT | PTE_G
  | PTE_AVL_MASK_0 | PTE_PAT_PS | PTE_BASE_MASK | PTE_AVL_MASK_1 | PTE_PKM | PTE_NX

fun pte_bits :: "pte_flag \<Rightarrow> pte" where
  "pte_bits PTE_P = push_bit 0 1"
| "pte_bits PTE_RW = push_bit 1 1"
| "pte_bits PTE_US = push_bit 2 1"
| "pte_bits PTE_PWT = push_bit 3 1"
| "pte_bits PTE_PCD = push_bit 4 1"
| "pte_bits PTE_A = push_bit 5 1"
| "pte_bits PTE_D = push_bit 6 1"
| "pte_bits PTE_PS = push_bit 7 1"
| "pte_bits PTE_PAT = push_bit 7 1"
| "pte_bits PTE_G = push_bit 8 1"
| "pte_bits PTE_AVL_MASK_0 = 0xE00"
| "pte_bits PTE_PAT_PS = push_bit 12 1"
| "pte_bits PTE_BASE_MASK = BASE_MASK"
| "pte_bits PTE_AVL_MASK_1 = 0x7F0000000000000"
| "pte_bits PTE_PKM = 0x7800000000000000"
| "pte_bits PTE_NX = push_bit 63 1"

definition from_paddr :: "usize \<Rightarrow> pte option" where
  "from_paddr paddr = do {
     rust_assert (paddr AND NOT (pte_bits PTE_BASE_MASK) = 0);
     Some paddr
   }"

definition from_pat :: "u8 \<Rightarrow> bool \<Rightarrow> pte" where
  "from_pat pat_idx is_hpage =
     (let pte = 0;
          pte = (if pat_idx AND push_bit 0 1 \<noteq> 0 then pte OR pte_bits PTE_PWT else pte);
          pte = (if pat_idx AND push_bit 1 1 \<noteq> 0 then pte OR pte_bits PTE_PCD else pte);
          pte = (if pat_idx AND push_bit 2 1 \<noteq> 0
                 then (if is_hpage then pte OR pte_bits PTE_PAT_PS else pte OR pte_bits PTE_PAT)
                 else pte)
      in pte)"

definition get_paddr :: "pte \<Rightarrow> usize" where
  "get_paddr e = e AND pte_bits PTE_BASE_MASK"

section \<open>The page attribute table\<close>

datatype pat_type =
  Uncacheable | WriteCombining | WriteThrough | WriteProtect | WriteBack | UncacheableMinus

definition pat_type_from_bits :: "u8 \<Rightarrow> pat_type option" where
  "pat_type_from_bits code =
     (if code = 0 then Some Uncacheable else if code = 1 then Some WriteCombining
      else if code = 4 then Some WriteThrough else if code = 5 then Some WriteProtect
      else if code = 6 then Some WriteBack else if code = 7 then Some UncacheableMinus else None)"

fun pat_type_to_bits :: "pat_type \<Rightarrow> u8" where
  "pat_type_to_bits Uncacheable = 0"
| "pat_type_to_bits WriteCombining = 1"
| "pat_type_to_bits WriteThrough = 4"
| "pat_type_to_bits WriteProtect = 5"
| "pat_type_to_bits WriteBack = 6"
| "pat_type_to_bits UncacheableMinus = 7"

instantiation pat_type :: linorder
begin

definition less_eq_pat_type :: "pat_type \<Rightarrow> pat_type \<Rightarrow> bool" where
  "less_eq_pat_type a b \<longleftrightarrow> pat_type_to_bits a \<le> pat_type_to_bits b"

definition less_pat_type :: "pat_type \<Rightarrow> pat_type \<Rightarrow> bool" where
  "less_pat_type a b \<longleftrightarrow> pat_type_to_bits a < pat_type_to_bits b"

instance
proof
  fix a b c :: pat_type
  have inj: "pat_type_to_bits a = pat_type_to_bits b \<Longrightarrow> a = b" for a b
    by (cases a; cases b) simp_all
  show "(a < b) = (a \<le> b \<and> \<not> b \<le> a)" by (auto simp: less_pat_type_def less_eq_pat_type_def)
  show "a \<le> a" by (simp add: less_eq_pat_type_def)
  show "a \<le> b \<Longrightarrow> b \<le> c \<Longrightarrow> a \<le> c" by (simp add: less_eq_pat_type_def)
  show "a \<le> b \<Longrightarrow> b \<le> a \<Longrightarrow> a = b" using inj by (simp add: less_eq_pat_type_def)
  show "a \<le> b \<or> b \<le> a" by (auto simp: less_eq_pat_type_def)
qed

end

text \<open>The two arrays of four types are quadruples of the record.\<close>

type_synonym pat_quad = "pat_type \<times> pat_type \<times> pat_type \<times> pat_type"

record pat =
  std_types :: pat_quad
  pat_types :: pat_quad

definition pat_default :: pat where
  "pat_default =
     \<lparr>std_types = (WriteBack, WriteThrough, UncacheableMinus, Uncacheable),
      pat_types = (WriteBack, WriteThrough, UncacheableMinus, Uncacheable)\<rparr>"

definition PAT_MSR :: u64 where "PAT_MSR = 0x00000277"

definition pat_read :: "('m cpu_scheme) \<Rightarrow> pat option" where
  "pat_read c = do {
     let pat_msr = rdmsr PAT_MSR c;
     t0 \<leftarrow> pat_type_from_bits (ucast (drop_bit 0 pat_msr));
     t1 \<leftarrow> pat_type_from_bits (ucast (drop_bit 8 pat_msr));
     t2 \<leftarrow> pat_type_from_bits (ucast (drop_bit 16 pat_msr));
     t3 \<leftarrow> pat_type_from_bits (ucast (drop_bit 24 pat_msr));
     t4 \<leftarrow> pat_type_from_bits (ucast (drop_bit 32 pat_msr));
     t5 \<leftarrow> pat_type_from_bits (ucast (drop_bit 40 pat_msr));
     t6 \<leftarrow> pat_type_from_bits (ucast (drop_bit 48 pat_msr));
     t7 \<leftarrow> pat_type_from_bits (ucast (drop_bit 56 pat_msr));
     Some \<lparr>std_types = (t0, t1, t2, t3), pat_types = (t4, t5, t6, t7)\<rparr>
   }"

definition pat_write :: "pat \<Rightarrow> ('m cpu_scheme) \<Rightarrow> ('m cpu_scheme)" where
  "pat_write p c =
     (case std_types p of (s0, s1, s2, s3) \<Rightarrow> case pat_types p of (p0, p1, p2, p3) \<Rightarrow>
        (let pat = 0;
             pat = pat OR push_bit 0 (ucast (pat_type_to_bits s0));
             pat = pat OR push_bit 8 (ucast (pat_type_to_bits s1));
             pat = pat OR push_bit 16 (ucast (pat_type_to_bits s2));
             pat = pat OR push_bit 24 (ucast (pat_type_to_bits s3));
             pat = pat OR push_bit 32 (ucast (pat_type_to_bits p0));
             pat = pat OR push_bit 40 (ucast (pat_type_to_bits p1));
             pat = pat OR push_bit 48 (ucast (pat_type_to_bits p2));
             pat = pat OR push_bit 56 (ucast (pat_type_to_bits p3))
         in wrmsr PAT_MSR pat c))"

section \<open>Linear addresses\<close>

definition page_size :: "nat \<Rightarrow> usize option" where
  "page_size lvl = checked_shl 8 (lvl * 9)"

definition table_index :: "ptr \<Rightarrow> nat \<Rightarrow> usize option" where
  "table_index laddr lvl =
     (if lvl * 9 + 3 < 64 then Some (signed_drop_bit (lvl * 9 + 3) laddr AND 0x1FF) else None)"

definition set_pml4_idx :: "ptr \<Rightarrow> usize \<Rightarrow> ptr" where
  "set_pml4_idx laddr guest_idx =
     (laddr AND NOT PML4_IDX_MASK) OR (push_bit (trailing_zeros PML4_IDX_MASK) guest_idx AND PML4_IDX_MASK)"

definition recur_to_pte :: "ptr \<Rightarrow> usize \<Rightarrow> ptr" where
  "recur_to_pte laddr rcrsv_idx =
     (signed_drop_bit 9 laddr AND NOT (HIGHER_HALF OR PML4_IDX_MASK OR 7))
     OR signed_drop_bit 16 (push_bit 55 rcrsv_idx)"

definition recur_to_pde :: "ptr \<Rightarrow> usize \<Rightarrow> ptr" where
  "recur_to_pde laddr rcrsv_idx = recur_to_pte (recur_to_pte laddr rcrsv_idx) rcrsv_idx"

definition recur_to_pdpte :: "ptr \<Rightarrow> usize \<Rightarrow> ptr" where
  "recur_to_pdpte laddr rcrsv_idx = recur_to_pde (recur_to_pte laddr rcrsv_idx) rcrsv_idx"

definition recur_to_pml4e :: "ptr \<Rightarrow> usize \<Rightarrow> ptr" where
  "recur_to_pml4e laddr rcrsv_idx = recur_to_pdpte (recur_to_pte laddr rcrsv_idx) rcrsv_idx"

definition table_of_entry :: "ptr \<Rightarrow> ptr \<times> nat" where
  "table_of_entry laddr = (laddr AND NOT 0xFFF, 512)"

section \<open>The page walk\<close>

text \<open>
  What the processor does with a linear address: the index of each level, nine bits, selects an
  entry; an entry that is not present ends the walk; a level 1 entry, or a level 2 or 3 entry with
  \<open>PS\<close>, maps a page, whose offset the remaining bits of the address give.
\<close>

definition lvl_shift :: "nat \<Rightarrow> nat" where "lvl_shift lvl = lvl * 9 + 3"

definition lidx :: "ptr \<Rightarrow> nat \<Rightarrow> usize" where
  "lidx l lvl = take_bit 9 (drop_bit (lvl_shift lvl) l)"

definition entry_addr :: "u64 \<Rightarrow> ptr \<Rightarrow> nat \<Rightarrow> u64" where
  "entry_addr tbl l lvl = tbl + 8 * lidx l lvl"

definition present :: "pte \<Rightarrow> bool" where "present e \<longleftrightarrow> bit e 0"

definition is_leaf :: "nat \<Rightarrow> pte \<Rightarrow> bool" where
  "is_leaf lvl e \<longleftrightarrow> lvl = 1 \<or> lvl < 4 \<and> bit e 7"

fun page_walk :: "(u64 \<Rightarrow> pte) \<Rightarrow> nat \<Rightarrow> u64 \<Rightarrow> ptr \<Rightarrow> u64 option" where
  "page_walk mem 0 tbl l = None"
| "page_walk mem (Suc n) tbl l =
     (let e = mem (entry_addr tbl l (Suc n))
      in if \<not> present e then None
         else if is_leaf (Suc n) e
         then Some ((e AND BASE_MASK AND NOT (mask (lvl_shift (Suc n)))) OR take_bit (lvl_shift (Suc n)) l)
         else page_walk mem n (e AND BASE_MASK) l)"

text \<open>The table that translates \<open>l\<close> \<open>k\<close> levels below level \<open>lvl\<close>.\<close>

fun walk_table :: "(u64 \<Rightarrow> pte) \<Rightarrow> nat \<Rightarrow> nat \<Rightarrow> u64 \<Rightarrow> ptr \<Rightarrow> u64 option" where
  "walk_table mem 0 lvl tbl l = Some tbl"
| "walk_table mem (Suc k) lvl tbl l =
     (let e = mem (entry_addr tbl l lvl)
      in if present e \<and> \<not> bit e 7 then walk_table mem k (lvl - 1) (e AND BASE_MASK) l else None)"

lemma low9: "(0x1FF :: u64) = mask 9"
  by (simp add: mask_eq_exp_minus_1)

lemma table_index_lidx: "lvl \<le> 5 \<Longrightarrow> table_index l lvl = Some (lidx l lvl)"
  unfolding table_index_def lidx_def lvl_shift_def low9
  by (auto intro!: bit_word_eqI simp: bit_simps split: if_splits)

lemma page_size_eq: "lvl \<le> 6 \<Longrightarrow> page_size lvl = Some (2 ^ lvl_shift lvl)"
  by (simp add: page_size_def checked_shl_def lvl_shift_def push_bit_eq_mult power_add mult.commute)

lemma bit_lidx: "bit (lidx l lvl) n \<longleftrightarrow> n < 9 \<and> bit l (lvl_shift lvl + n)"
  by (auto simp: lidx_def bit_simps)

lemma uint_lidx: "uint (lidx l lvl) = uint l div 2 ^ lvl_shift lvl mod 512"
proof -
  have "uint (lidx l lvl) = take_bit 9 (uint (drop_bit (lvl_shift lvl) l))"
    unfolding lidx_def by (rule unsigned_take_bit_eq)
  then show ?thesis by (simp add: uint_drop_bit take_bit_eq_mod)
qed

lemma lidx_less: "uint (lidx l lvl) < 512"
  by (simp add: uint_lidx)

lemma lidx_step:
  assumes "lvl \<le> 5"
  shows "uint (lidx (l + 2 ^ lvl_shift lvl) lvl) = (uint (lidx l lvl) + 1) mod 512"
proof -
  let ?s = "lvl_shift lvl"
  have s: "?s + 9 \<le> 64" "?s < 64" using assms by (auto simp: lvl_shift_def)
  have "uint (l + 2 ^ ?s) = take_bit 64 (uint l + 2 ^ ?s)"
    using s(2) by (simp add: uint_word_ariths take_bit_eq_mod uint_pow2 [where 'a = 64, simplified])
  then have "uint (lidx (l + 2 ^ ?s) lvl) = take_bit 9 (drop_bit ?s (take_bit 64 (uint l + 2 ^ ?s)))"
    by (simp only: uint_lidx take_bit_eq_mod drop_bit_eq_div) simp
  also have "\<dots> = take_bit 9 (drop_bit ?s (uint l + 2 ^ ?s))"
    using s by (simp add: drop_bit_take_bit)
  also have "drop_bit ?s (uint l + 2 ^ ?s) = uint l div 2 ^ ?s + 1"
    unfolding drop_bit_eq_div by (rule div_add_self2) simp
  finally show ?thesis by (simp add: uint_lidx take_bit_eq_mod mod_simps)
qed

text \<open>The recursive address shifts the indices down by one level and puts the index on top.\<close>

lemma recur_mask: "NOT (HIGHER_HALF OR PML4_IDX_MASK OR 7) = (push_bit 3 (mask 36) :: u64)"
  by (simp add: HIGHER_HALF_def LOWER_HALF_def PML4_IDX_MASK_def mask_eq_exp_minus_1)

lemma bit_recur_to_pte:
  "bit (recur_to_pte l r) n \<longleftrightarrow>
     n < 64 \<and> (if n < 3 then False else if n < 39 then bit l (n + 9) else bit r (min 8 (n - 39)))"
proof -
  have "bit (push_bit 3 (mask 36) :: u64) n \<longleftrightarrow> 3 \<le> n \<and> n < 39" by (auto simp: bit_simps)
  moreover have "bit (signed_drop_bit 16 (push_bit 55 r)) n \<longleftrightarrow>
      n < 64 \<and> 39 \<le> n \<and> bit r (min 8 (n - 39))"
    by (cases "n = 47") (auto simp: bit_simps min_def)
  moreover have "n < 39 \<Longrightarrow> bit (signed_drop_bit 9 l) n \<longleftrightarrow> bit l (n + 9)"
    by (auto simp: bit_simps add.commute)
  ultimately show ?thesis
    unfolding recur_to_pte_def recur_mask by (auto simp: bit_simps)
qed

lemma lidx_recur_to_pte:
  "lvl \<in> {1, 2, 3} \<Longrightarrow> lidx (recur_to_pte l r) lvl = lidx l (Suc lvl)"
  by (auto intro!: bit_word_eqI simp: bit_lidx bit_recur_to_pte lvl_shift_def ac_simps)

lemma lidx_recur_to_pte_top: "r < 512 \<Longrightarrow> lidx (recur_to_pte l r) 4 = r"
proof -
  assume "r < 512"
  then have "uint r < 512" by (simp add: word_less_def)
  then have "uint (take_bit 9 r) = uint r" by (simp add: unsigned_take_bit_eq take_bit_int_eq_self)
  then have "take_bit 9 r = r" by (rule word_uint_eqI)
  then have r9: "bit r n \<Longrightarrow> n < 9" for n by (metis bit_take_bit_iff)
  show ?thesis
  proof (rule bit_word_eqI)
    fix n :: nat assume "n < LENGTH(64)"
    have "n < 9 \<Longrightarrow> min 8 n = n" by simp
    with r9 [of n] show "bit (lidx (recur_to_pte l r) 4) n \<longleftrightarrow> bit r n"
      by (auto simp: bit_lidx bit_recur_to_pte lvl_shift_def)
  qed
qed

lemma offset_recur_to_pte: "take_bit 12 (recur_to_pte l r) = 8 * lidx l 1"
proof -
  have eq: "8 * lidx l 1 = push_bit 3 (lidx l 1)" by (simp add: push_bit_eq_mult)
  show ?thesis
    unfolding eq
    by (rule bit_word_eqI) (auto simp: bit_lidx bit_recur_to_pte lvl_shift_def bit_simps add.commute
      split: if_splits)
qed

lemma entry_add_or:
  "(e AND BASE_MASK AND NOT (mask 12)) OR 8 * lidx l lvl = (e AND BASE_MASK) + 8 * lidx l lvl"
proof -
  have eq: "8 * lidx l lvl = push_bit 3 (lidx l lvl)" by (simp add: push_bit_eq_mult)
  have "BASE_MASK = NOT (mask 12) AND mask 52" by (simp add: BASE_MASK_def mask_eq_exp_minus_1)
  then have al: "e AND BASE_MASK AND NOT (mask 12) = e AND BASE_MASK"
    by (auto simp: bit_eq_iff bit_simps)
  have low: "bit BASE_MASK n \<Longrightarrow> 12 \<le> n" for n
    unfolding \<open>BASE_MASK = _\<close> by (auto simp: bit_simps)
  have "(e AND BASE_MASK) AND push_bit 3 (lidx l lvl) = 0"
  proof (rule bit_word_eqI)
    fix n
    show "bit ((e AND BASE_MASK) AND push_bit 3 (lidx l lvl)) n \<longleftrightarrow> bit (0 :: u64) n"
      using low [of n] by (auto simp: bit_simps bit_lidx)
  qed
  then show ?thesis
    unfolding al eq using word_plus_and_or [of "e AND BASE_MASK" "push_bit 3 (lidx l lvl)"] by simp
qed

lemma walk_table_end:
  "walk_table mem (Suc k) lvl tbl l = do {
     t \<leftarrow> walk_table mem k lvl tbl l;
     let e = mem (entry_addr t l (lvl - k));
     if present e \<and> \<not> bit e 7 then Some (e AND BASE_MASK) else None
   }"
proof (induction k arbitrary: lvl tbl)
  case (Suc k)
  let ?e = "mem (entry_addr tbl l lvl)"
  have "walk_table mem (Suc n) lvl tbl l =
      (if present ?e \<and> \<not> bit ?e 7 then walk_table mem n (lvl - 1) (?e AND BASE_MASK) l else None)" for n
    by (simp add: Let_def)
  then show ?case by (simp add: Suc.IH del: walk_table.simps)
qed (simp add: Let_def)

lemma walk_table_recur: "k \<le> lvl \<Longrightarrow> lvl \<le> 3 \<Longrightarrow>
  walk_table mem k lvl tbl (recur_to_pte l r) = walk_table mem k (Suc lvl) tbl l"
proof (induction k arbitrary: lvl tbl)
  case (Suc k)
  then have "lvl \<in> {1, 2, 3}" by auto
  then have "entry_addr tbl (recur_to_pte l r) lvl = entry_addr tbl l (Suc lvl)"
    by (simp add: entry_addr_def lidx_recur_to_pte)
  moreover have "walk_table mem k (lvl - 1) t (recur_to_pte l r) = walk_table mem k lvl t l" for t
    using Suc.IH [of "lvl - 1" t] Suc.prems by simp
  ultimately show ?case by (simp add: Let_def)
qed simp

lemma page_walk_walk_table:
  "walk_table mem k lvl tbl l = Some t \<Longrightarrow> lvl = Suc k \<Longrightarrow> lvl \<le> 4 \<Longrightarrow>
     page_walk mem lvl tbl l = page_walk mem 1 t l"
proof (induction k arbitrary: lvl tbl)
  case (Suc k)
  let ?e = "mem (entry_addr tbl l lvl)"
  have e: "present ?e" "\<not> bit ?e 7" "walk_table mem k (Suc k) (?e AND BASE_MASK) l = Some t"
    using Suc.prems by (auto simp: Let_def split: if_splits)
  have "page_walk mem (Suc k) (?e AND BASE_MASK) l = page_walk mem 1 t l"
    by (rule Suc.IH [OF e(3)]) (use Suc.prems in auto)
  with e(1,2) show ?case using Suc.prems(2) by (simp add: is_leaf_def)
qed simp

text \<open>The entry through which the tables are mapped into themselves.\<close>

definition recursive_entry :: "(u64 \<Rightarrow> pte) \<Rightarrow> u64 \<Rightarrow> usize \<Rightarrow> bool" where
  "recursive_entry mem pml4 r \<longleftrightarrow>
     r < 512 \<and> (let e = mem (pml4 + 8 * r) in present e \<and> \<not> bit e 7 \<and> e AND BASE_MASK = pml4)"

lemma walk_table_through:
  assumes "recursive_entry mem pml4 r" "k \<le> 3"
  shows "walk_table mem (Suc k) 4 pml4 (recur_to_pte l r) = walk_table mem k 4 pml4 l"
proof -
  have "entry_addr pml4 (recur_to_pte l r) 4 = pml4 + 8 * r"
    using assms(1) by (simp add: entry_addr_def recursive_entry_def lidx_recur_to_pte_top)
  then show ?thesis
    using assms walk_table_recur [OF assms(2), of mem pml4 l r] by (simp add: recursive_entry_def Let_def)
qed

lemma page_walk_recur_to_pte:
  assumes "recursive_entry mem pml4 r" "walk_table mem 3 4 pml4 l = Some t"
  shows "page_walk mem 4 pml4 (recur_to_pte l r) = Some (entry_addr t l 1)"
proof -
  obtain u where u: "walk_table mem 2 4 pml4 l = Some u"
      "present (mem (entry_addr u l 2))" "t = mem (entry_addr u l 2) AND BASE_MASK"
    using assms(2) walk_table_end [of mem 2 4 pml4 l] by (auto simp: Let_def numeral_3_eq_3 split: bind_splits if_splits)
  have "walk_table mem 3 4 pml4 (recur_to_pte l r) = Some u"
    using walk_table_through [OF assms(1), of 2 l] u(1) by (simp add: numeral_3_eq_3)
  then have "page_walk mem 4 pml4 (recur_to_pte l r) = page_walk mem 1 u (recur_to_pte l r)"
    by (rule page_walk_walk_table) simp_all
  also have "entry_addr u (recur_to_pte l r) 1 = entry_addr u l 2"
    by (simp add: entry_addr_def lidx_recur_to_pte numeral_2_eq_2)
  then have "page_walk mem 1 u (recur_to_pte l r) = Some (t + 8 * lidx l 1)"
    using u(2,3) by (simp add: is_leaf_def lvl_shift_def offset_recur_to_pte [simplified] entry_add_or [simplified])
  finally show ?thesis by (simp add: entry_addr_def)
qed

lemma pat_type_from_to [simp]: "pat_type_from_bits (pat_type_to_bits t) = Some t"
  by (cases t) (simp_all add: pat_type_from_bits_def)

text \<open>The bytes of a word put together from bytes.\<close>

definition pack_bytes :: "u8 \<Rightarrow> u8 \<Rightarrow> u8 \<Rightarrow> u8 \<Rightarrow> u8 \<Rightarrow> u8 \<Rightarrow> u8 \<Rightarrow> u8 \<Rightarrow> u64" where
  "pack_bytes b0 b1 b2 b3 b4 b5 b6 b7 =
     push_bit 0 (ucast b0) OR push_bit 8 (ucast b1) OR push_bit 16 (ucast b2) OR push_bit 24 (ucast b3) OR
     push_bit 32 (ucast b4) OR push_bit 40 (ucast b5) OR push_bit 48 (ucast b6) OR push_bit 56 (ucast b7)"

lemma byte_high: "8 \<le> m \<Longrightarrow> \<not> bit (b :: u8) m"
  using bit_imp_le_length [of b m] by auto

lemma unpack_bytes [simp]:
  "(ucast (drop_bit 0 (pack_bytes b0 b1 b2 b3 b4 b5 b6 b7)) :: u8) = b0"
  "(ucast (drop_bit 8 (pack_bytes b0 b1 b2 b3 b4 b5 b6 b7)) :: u8) = b1"
  "(ucast (drop_bit 16 (pack_bytes b0 b1 b2 b3 b4 b5 b6 b7)) :: u8) = b2"
  "(ucast (drop_bit 24 (pack_bytes b0 b1 b2 b3 b4 b5 b6 b7)) :: u8) = b3"
  "(ucast (drop_bit 32 (pack_bytes b0 b1 b2 b3 b4 b5 b6 b7)) :: u8) = b4"
  "(ucast (drop_bit 40 (pack_bytes b0 b1 b2 b3 b4 b5 b6 b7)) :: u8) = b5"
  "(ucast (drop_bit 48 (pack_bytes b0 b1 b2 b3 b4 b5 b6 b7)) :: u8) = b6"
  "(ucast (drop_bit 56 (pack_bytes b0 b1 b2 b3 b4 b5 b6 b7)) :: u8) = b7"
  by (rule bit_word_eqI, simp add: pack_bytes_def bit_simps byte_high; fail)+

lemma rdmsr_pat_write:
  "rdmsr PAT_MSR (pat_write \<lparr>std_types = (s0, s1, s2, s3), pat_types = (p0, p1, p2, p3)\<rparr> c) =
     pack_bytes (pat_type_to_bits s0) (pat_type_to_bits s1) (pat_type_to_bits s2) (pat_type_to_bits s3)
       (pat_type_to_bits p0) (pat_type_to_bits p1) (pat_type_to_bits p2) (pat_type_to_bits p3)"
  by (simp add: pat_write_def pack_bytes_def Let_def or.assoc)

section \<open>Properties\<close>

text \<open>
  C24. With the tables mapped into themselves through entry \<open>r\<close> of the PML4, the four recursive
  addresses of a linear address are translated by the processor to the physical addresses of its
  page table, page directory, PDPT and PML4 entries.
\<close>

theorem recursive_addresses_correct:
  assumes "recursive_entry mem pml4 r"
  shows "(\<forall>t. walk_table mem 3 4 pml4 l = Some t \<longrightarrow> page_walk mem 4 pml4 (recur_to_pte l r) = Some (entry_addr t l 1)) \<and>
    (\<forall>t. walk_table mem 2 4 pml4 l = Some t \<longrightarrow> page_walk mem 4 pml4 (recur_to_pde l r) = Some (entry_addr t l 2)) \<and>
    (\<forall>t. walk_table mem 1 4 pml4 l = Some t \<longrightarrow> page_walk mem 4 pml4 (recur_to_pdpte l r) = Some (entry_addr t l 3)) \<and>
    page_walk mem 4 pml4 (recur_to_pml4e l r) = Some (entry_addr pml4 l 4)"
proof -
  note M = page_walk_recur_to_pte [OF assms]
  have T: "walk_table mem (Suc k) 4 pml4 (recur_to_pte a r) = walk_table mem k 4 pml4 a" if "k \<le> 3" for k a
    using walk_table_through [OF assms that] .
  have E: "entry_addr t (recur_to_pte a r) n = entry_addr t a (Suc n)" if "n \<in> {1, 2, 3}" for t a n
    using that by (simp add: entry_addr_def lidx_recur_to_pte)
  have P2: "walk_table mem 2 4 pml4 a = Some t \<Longrightarrow> page_walk mem 4 pml4 (recur_to_pde a r) = Some (entry_addr t a 2)" for a t
    using M [of "recur_to_pte a r" t] T [of 2 a] E [of 1 t a]
    by (simp add: recur_to_pde_def eval_nat_numeral)
  have P3: "walk_table mem 1 4 pml4 a = Some t \<Longrightarrow> page_walk mem 4 pml4 (recur_to_pdpte a r) = Some (entry_addr t a 3)" for a t
    using P2 [of "recur_to_pte a r" t] T [of 1 a] E [of 2 t a]
    by (simp add: recur_to_pdpte_def eval_nat_numeral)
  have P4: "page_walk mem 4 pml4 (recur_to_pml4e a r) = Some (entry_addr pml4 a 4)" for a
    using P3 [of "recur_to_pte a r" pml4] T [of 0 a] E [of 3 pml4 a]
    by (simp add: recur_to_pml4e_def eval_nat_numeral)
  show ?thesis using M P2 P3 P4 by blast
qed

text \<open>Tables for the witness: the address 0x40201000 has the index 0 in the PML4 and 1 below.\<close>

definition demo_tables :: "u64 \<Rightarrow> pte" where
  "demo_tables = (\<lambda>_. 0)(0x1FF8 := 0x1003, 0x1000 := 0x2003, 0x2008 := 0x3003, 0x3008 := 0x4003)"

theorem recursive_addresses_correct_witness:
  "page_walk demo_tables 4 0x1000 (recur_to_pte 0x40201000 511) = Some 0x4008 \<and>
   page_walk demo_tables 4 0x1000 (recur_to_pde 0x40201000 511) = Some 0x3008 \<and>
   page_walk demo_tables 4 0x1000 (recur_to_pdpte 0x40201000 511) = Some 0x2008 \<and>
   page_walk demo_tables 4 0x1000 (recur_to_pml4e 0x40201000 511) = Some 0x1000"
proof -
  have r: "recursive_entry demo_tables 0x1000 511"
    by (simp add: recursive_entry_def demo_tables_def present_def BASE_MASK_def)
  have w: "walk_table demo_tables (Suc (Suc (Suc 0))) 4 0x1000 0x40201000 = Some 0x4000"
    "walk_table demo_tables (Suc (Suc 0)) 4 0x1000 0x40201000 = Some 0x3000"
    "walk_table demo_tables (Suc 0) 4 0x1000 0x40201000 = Some 0x2000"
    by (simp_all add: demo_tables_def entry_addr_def lidx_def lvl_shift_def present_def BASE_MASK_def)
  have e: "entry_addr 0x4000 0x40201000 1 = 0x4008" "entry_addr 0x3000 0x40201000 2 = 0x3008"
    "entry_addr 0x2000 0x40201000 3 = 0x2008" "entry_addr 0x1000 0x40201000 4 = 0x1000"
    by (simp_all add: entry_addr_def lidx_def lvl_shift_def)
  note T = recursive_addresses_correct [OF r, of "0x40201000", unfolded numeral_3_eq_3 numeral_2_eq_2 One_nat_def]
  note f = T [THEN conjunct1, rule_format, OF w(1)]
    T [THEN conjunct2, THEN conjunct1, rule_format, OF w(2)]
    T [THEN conjunct2, THEN conjunct2, THEN conjunct1, rule_format, OF w(3)]
    T [THEN conjunct2, THEN conjunct2, THEN conjunct2]
  show ?thesis
    by (intro conjI) (simp_all only: f e [unfolded numeral_3_eq_3 numeral_2_eq_2 One_nat_def])
qed

text \<open>
  C25. What \<open>Pat::write\<close> puts into the MSR \<open>Pat::read\<close> decodes to the same table, without a panic,
  and no other MSR is changed.
\<close>

theorem pat_read_write:
  "pat_read (pat_write p c) = Some p \<and>
   msrs (pat_write p c) = (msrs c)(0x277 := msrs (pat_write p c) 0x277)"
proof -
  obtain s0 s1 s2 s3 p0 p1 p2 p3 where
    p: "p = \<lparr>std_types = (s0, s1, s2, s3), pat_types = (p0, p1, p2, p3)\<rparr>"
    by (cases p) auto
  have "pat_read (pat_write p c) = Some p"
    unfolding p pat_read_def rdmsr_pat_write by (simp add: unpack_bytes(1) [simplified])
  moreover have "msrs (pat_write p c) = (msrs c)(0x277 := msrs (pat_write p c) 0x277)"
    by (simp add: p pat_write_def wrmsr_def PAT_MSR_def Let_def)
  ultimately show ?thesis by simp
qed

end
