(* ===== verification/Memm.thy ===== *)
theory Memm
  imports Paging
begin

text \<open>
  Model of \<^verbatim>\<open>kernel/src/memm/mod.rs\<close>: mapping linear to physical memory by writing page tables,
  looking up entries, the mapper with its physical memory allocator, and the iterator over a
  mapping. The contents of the page tables are a function from the addresses of entries to entries.
  The tables are reached through the offset mapping: the table at physical address \<open>p\<close> is written at
  the linear address \<open>p + PHYS_LADDR_OFFSET\<close>.

  A page getter is a closure with state: a function that returns the page and the new state, or
  \<open>None\<close> when the closure panics.
\<close>

section \<open>Constants\<close>

definition OFFSET_IDX :: usize where "OFFSET_IDX = 256"
definition PHYS_LADDR_OFFSET :: isize where "PHYS_LADDR_OFFSET = - 0x800000000000"

definition from_phys_addr :: "usize \<Rightarrow> ptr option" where
  "from_phys_addr paddr = checked_sadd paddr PHYS_LADDR_OFFSET"

definition to_phys_addr :: "ptr \<Rightarrow> usize option" where
  "to_phys_addr laddr = checked_ssub laddr PHYS_LADDR_OFFSET"

definition KRNL_BOOT_BASE :: usize where "KRNL_BOOT_BASE = 0 - PDPTE_SIZE"
definition KRNL_STACK_ACME :: usize where "KRNL_STACK_ACME = 0 - PDPTE_SIZE"
definition KRNL_STACK_SIZE :: usize where "KRNL_STACK_SIZE = 4 * 1024 * 1024 - PTE_SIZE"

definition KRNL_DEFAULT_PAT :: pat where
  "KRNL_DEFAULT_PAT =
     \<lparr>std_types = (WriteBack, WriteThrough, UncacheableMinus, Uncacheable),
      pat_types = (WriteCombining, WriteProtect, UncacheableMinus, UncacheableMinus)\<rparr>"

definition pat_type_to_pte :: "pat_type \<Rightarrow> bool \<Rightarrow> pte" where
  "pat_type_to_pte t is_hpage =
     (let idx = (case t of
          Uncacheable \<Rightarrow> 3 | WriteCombining \<Rightarrow> 4 | WriteThrough \<Rightarrow> 1
        | WriteProtect \<Rightarrow> 5 | WriteBack \<Rightarrow> 0 | UncacheableMinus \<Rightarrow> 2)
      in from_pat idx is_hpage)"

section \<open>Mapping\<close>

type_synonym table_mem = "ptr \<Rightarrow> pte"
type_synonym 'g page_getter = "'g \<Rightarrow> usize \<Rightarrow> (usize \<times> 'g) option"

text \<open>\<open>write_bytes(0, 512)\<close> on a table, and the address of an entry of a table.\<close>

definition zero_table :: "ptr \<Rightarrow> table_mem \<Rightarrow> table_mem" where
  "zero_table tbl m = (\<lambda>a. if a - tbl < 0x1000 then 0 else m a)"

definition entry_ptr :: "ptr \<Rightarrow> usize \<Rightarrow> ptr" where
  "entry_ptr tbl idx = tbl + 8 * idx"

text \<open>The leaf entry for a page, with the bits that make an entry above level 1 map a page.\<close>

definition leaf_entry :: "nat \<Rightarrow> usize \<Rightarrow> pte \<Rightarrow> pte option" where
  "leaf_entry lvl page leaves = do {
     addr \<leftarrow> from_paddr page;
     let entry = pte_bits PTE_P OR addr OR leaves;
     Some (if lvl \<noteq> PT_LVL
           then (if contains entry (pte_bits PTE_PAT) then entry OR pte_bits PTE_PAT_PS
                 else entry OR pte_bits PTE_PS)
           else entry)
   }"

text \<open>A branch entry; a table that is not present is allocated and zeroed first.\<close>

definition ensure_table ::
  "'g page_getter \<Rightarrow> pte \<Rightarrow> ptr \<Rightarrow> 'g \<times> table_mem \<Rightarrow> ('g \<times> table_mem) option" where
  "ensure_table page_getter branches pte = (\<lambda>(g, m).
     if \<not> contains (m pte) (pte_bits PTE_P) then do {
       (page, g) \<leftarrow> page_getter g PTE_SIZE;
       tbl \<leftarrow> from_phys_addr page;
       let m = zero_table tbl m;
       addr \<leftarrow> from_paddr page;
       Some (g, m(pte := pte_bits PTE_P OR addr OR branches))
     } else Some (g, m))"

declare Option.bind_cong [fundef_cong]

function map_offset ::
  "nat \<Rightarrow> ptr \<Rightarrow> ptr \<Rightarrow> pte \<Rightarrow> pte \<Rightarrow> ptr \<Rightarrow> 'g page_getter \<Rightarrow> 'g \<times> table_mem \<Rightarrow> ('g \<times> table_mem) option" where
  "map_offset lvl base acme branches leaves table page_getter gm =
     (if lvl < PT_LVL \<or> PML4_LVL < lvl then None
      else if base <s acme then do {
        idx \<leftarrow> table_index base lvl;
        let pte = entry_ptr table idx;
        page_size \<leftarrow> page_size lvl;
        let ps_aligned = (base AND (page_size - 1) = 0);
        span \<leftarrow> checked_ssub acme base;
        up \<leftarrow> checked_add span PTE_SIZE;
        remaining \<leftarrow> checked_sub up 1;
        gm \<leftarrow> (if lvl = PT_LVL \<or> page_size \<le> remaining \<and> ps_aligned \<and> lvl < 4 then do {
            (page, g) \<leftarrow> page_getter (fst gm) page_size;
            entry \<leftarrow> leaf_entry lvl page leaves;
            Some (g, (snd gm)(pte := entry))
          } else do {
            gm \<leftarrow> ensure_table page_getter branches pte gm;
            lower_table \<leftarrow> from_phys_addr (get_paddr (snd gm pte));
            map_offset (lvl - 1) base acme branches leaves lower_table page_getter gm
          });
        if idx = 511 then Some gm
        else map_offset lvl (base + page_size) acme branches leaves table page_getter gm
      } else Some gm)"
  by pat_completeness auto

text \<open>The index grows by one with each round of the loop, and 511 is the last.\<close>

lemma next_index_measure:
  assumes "idx \<noteq> 511" "table_index base lvl = Some idx" "page_size lvl = Some ps" "lvl \<le> 4"
  shows "uint (lidx base lvl) < uint (lidx (base + ps) lvl)"
proof -
  have idx: "idx = lidx base lvl" and ps: "ps = 2 ^ lvl_shift lvl"
    using assms by (auto simp: table_index_lidx page_size_eq)
  have "uint (lidx base lvl) \<noteq> uint (511 :: u64)" using assms(1) idx by (metis word_uint_eqI)
  then have "uint (lidx base lvl) < 511" using lidx_less [of base lvl] by simp
  then show ?thesis using lidx_step [of lvl base] assms(4) ps lidx_less [of base lvl] by simp
qed

termination map_offset
  by (relation "measures [\<lambda>(lvl, base, _). lvl, \<lambda>(lvl, base, _). nat (512 - uint (lidx base lvl))]")
    (auto simp: PT_LVL_def PML4_LVL_def next_index_measure lidx_less)

declare map_offset.simps [simp del]

text \<open>
  \<open>map_offset_at\<close>: the same loop with the physical address counted along. A level outside 1 to 4
  that is neither a leaf reaches \<open>unreachable_unchecked\<close>, which is undefined.
\<close>

function map_offset_at ::
  "nat \<Rightarrow> ptr \<Rightarrow> ptr \<Rightarrow> usize \<Rightarrow> pte \<Rightarrow> pte \<Rightarrow> ptr \<Rightarrow> 'g page_getter \<Rightarrow> 'g \<times> table_mem \<Rightarrow>
   ('g \<times> table_mem) option" where
  "map_offset_at lvl base acme paddr branches leaves table page_getter gm = do {
     rust_assert (lvl < PT_LVL \<or> PML4_LVL < lvl);
     if base <s acme then do {
        idx \<leftarrow> table_index base lvl;
        let pte = entry_ptr table idx;
        page_size \<leftarrow> page_size lvl;
        let ps_aligned = ((base OR paddr) AND (page_size - 1) = 0);
        span \<leftarrow> checked_ssub acme base;
        up \<leftarrow> checked_add span PTE_SIZE;
        remaining \<leftarrow> checked_sub up 1;
        gm \<leftarrow> (if lvl = PT_LVL \<or> page_size \<le> remaining \<and> ps_aligned \<and> lvl < 4 then do {
            entry \<leftarrow> leaf_entry lvl paddr leaves;
            Some (fst gm, (snd gm)(pte := entry))
          } else do {
            gm \<leftarrow> ensure_table page_getter branches pte gm;
            lower_table \<leftarrow> from_phys_addr (get_paddr (snd gm pte));
            if lvl = PML4_LVL \<or> lvl = PDPT_LVL \<or> lvl = PD_LVL
            then map_offset_at (lvl - 1) base acme paddr branches leaves lower_table page_getter gm
            else None
          });
        paddr \<leftarrow> checked_add paddr page_size;
        if idx = 511 then Some gm
        else map_offset_at lvl (base + page_size) acme paddr branches leaves table page_getter gm
      } else Some gm
   }"
  by pat_completeness auto

text \<open>Levels that pass the assertion and reach the second round are 0 and 5.\<close>

lemma next_index_measure_6:
  assumes "idx \<noteq> 511" "table_index base lvl = Some idx" "page_size lvl = Some ps" "lvl \<noteq> 6"
  shows "uint (lidx base lvl) < uint (lidx (base + ps) lvl)"
proof -
  have lvl: "lvl \<le> 5" using assms(2,4) by (auto simp: table_index_def split: if_splits)
  have idx: "idx = lidx base lvl" and ps: "ps = 2 ^ lvl_shift lvl"
    using assms lvl by (auto simp: table_index_lidx page_size_eq)
  have "uint (lidx base lvl) \<noteq> uint (511 :: u64)" using assms(1) idx by (metis word_uint_eqI)
  then have "uint (lidx base lvl) < 511" using lidx_less [of base lvl] by simp
  then show ?thesis using lidx_step [of lvl base] lvl ps lidx_less [of base lvl] by simp
qed

termination map_offset_at
  by (relation "measures [\<lambda>(lvl, base, _). lvl, \<lambda>(lvl, base, _). nat (512 - uint (lidx base lvl))]")
    (auto simp: PT_LVL_def PML4_LVL_def PD_LVL_def PDPT_LVL_def next_index_measure_6 lidx_less split: if_splits)

declare map_offset_at.simps [simp del]

section \<open>Looking up entries\<close>

fun get_entry_loop :: "table_mem \<Rightarrow> ptr \<Rightarrow> nat \<Rightarrow> nat \<Rightarrow> (ptr \<times> nat) option" where
  "get_entry_loop m entry lvl_idx lvl =
     (if lvl < lvl_idx then do {
        idx \<leftarrow> table_index entry lvl_idx;
        let pte = m (entry_ptr entry idx);
        entry \<leftarrow> from_phys_addr (get_paddr pte);
        get_entry_loop m entry (lvl_idx - 1) lvl
      } else Some (entry, lvl_idx))"

declare get_entry_loop.simps [simp del]

definition get_entry_offset :: "table_mem \<Rightarrow> ptr \<Rightarrow> nat \<Rightarrow> ptr \<Rightarrow> ptr option" where
  "get_entry_offset m laddr lvl pml4 = do {
     (entry, lvl_idx) \<leftarrow> get_entry_loop m pml4 4 lvl;
     idx \<leftarrow> table_index laddr lvl_idx;
     Some (entry_ptr entry idx)
   }"

end
