(* ===== verification/Memm_Map.thy ===== *)
theory Memm_Map
  imports Memm
begin

text \<open>
  Correctness of \<open>map_offset\<close>. The specification is the processor's page walk over the tables as
  physical memory: after the call, the walk of an address in the covered span ends in a frame the
  page getter handed out, a different one for each page, and the walk of every other address is
  what it was. The tables form a tree without sharing; what a call may write is the tables of that
  tree and the frames it was handed.
\<close>

section \<open>Virtual page numbers\<close>

definition vpn :: "ptr \<Rightarrow> int" where
  "vpn l = uint l div 2 ^ 12 mod 2 ^ 36"

lemma lidx_vpn:
  assumes "lvl = Suc n" "n \<le> 3"
  shows "uint (lidx l lvl) = vpn l div 512 ^ n mod 512"
proof -
  have "vpn l = take_bit 36 (drop_bit 12 (uint l))"
    by (simp add: vpn_def take_bit_eq_mod drop_bit_eq_div)
  then have "vpn l div 2 ^ (9 * n) mod 2 ^ 9 = take_bit 9 (drop_bit (9 * n) (take_bit 36 (drop_bit 12 (uint l))))"
    by (simp add: take_bit_eq_mod drop_bit_eq_div)
  also have "\<dots> = take_bit 9 (drop_bit (9 * n + 12) (uint l))"
    using assms by (simp add: drop_bit_take_bit)
  also have "\<dots> = uint (lidx l lvl)"
    using assms by (simp add: uint_lidx lvl_shift_def take_bit_eq_mod drop_bit_eq_div add.commute mult.commute)
  finally show ?thesis by (simp add: power_mult)
qed

lemma vpn_range: "0 \<le> vpn l" "vpn l < 512 ^ 4"
  by (simp_all add: vpn_def)

lemma div_512_step: "x div 512 ^ n = 512 * (x div 512 ^ Suc n) + x div 512 ^ n mod 512" for x :: int
proof -
  have "x div 512 ^ Suc n = x div 512 ^ n div 512"
    using zdiv_zmult2_eq [of 512 x "512 ^ n"] by (simp add: mult.commute)
  then show ?thesis by simp
qed

lemma same_entry:
  assumes "lvl = Suc n" "n \<le> 3" "vpn l div 512 ^ lvl = vpn k div 512 ^ lvl"
  shows "lidx l lvl = lidx k lvl \<longleftrightarrow> vpn l div 512 ^ n = vpn k div 512 ^ n"
proof -
  have "lidx l lvl = lidx k lvl \<longleftrightarrow> vpn l div 512 ^ n mod 512 = vpn k div 512 ^ n mod 512"
    using lidx_vpn [OF assms(1,2)] by (metis word_uint_eqI)
  then show ?thesis
    using div_512_step [of "vpn l" n] div_512_step [of "vpn k" n] assms(1,3) by metis
qed

text \<open>The next entry of the same table.\<close>

lemma vpn_next:
  assumes "lvl = Suc n" "n \<le> 3" "lidx base lvl \<noteq> 511"
  shows "vpn (base + 2 ^ lvl_shift lvl) = vpn base + 512 ^ n"
proof -
  have small: "vpn base div 512 ^ n mod 512 < 511"
  proof -
    have "uint (lidx base lvl) \<noteq> uint (511 :: u64)" using assms(3) by (metis word_uint_eqI)
    then show ?thesis using lidx_less [of base lvl] lidx_vpn [OF assms(1,2), of base] by simp
  qed
  define q where "q = (2 :: int) ^ (9 * n)"
  have q: "0 < q" "512 ^ n = q" "(2 :: int) ^ lvl_shift lvl = q * 4096"
    using assms(1) by (simp_all add: q_def power_mult [of 2 9 n] lvl_shift_def power_add mult.commute [of n 9])
  have s: "lvl_shift lvl < 64" using assms by (simp add: lvl_shift_def)
  have dvd: "q * 512 dvd 2 ^ 36"
  proof -
    have "q * 512 = 2 ^ (9 * n + 9)" by (simp add: q_def power_add)
    also have "\<dots> dvd (2 :: int) ^ 36" using assms(2) by (intro le_imp_power_dvd) auto
    finally show ?thesis .
  qed
  have "uint (base + 2 ^ lvl_shift lvl) = (uint base + q * 4096) mod 2 ^ 64"
    using s q(3) by (simp add: uint_word_ariths take_bit_eq_mod uint_pow2 [where 'a = 64, simplified])
  then have "vpn (base + 2 ^ lvl_shift lvl) = (uint base + q * 4096) mod 2 ^ 64 div 2 ^ 12 mod 2 ^ 36"
    by (simp add: vpn_def)
  also have "\<dots> = (uint base + q * 4096) div 2 ^ 12 mod 2 ^ 36"
    using drop_bit_take_bit [of 12 64 "uint base + q * 4096"]
    by (simp add: take_bit_eq_mod drop_bit_eq_div mod_mod_cancel)
  also have "\<dots> = (vpn base + q) mod 2 ^ 36"
    by (simp add: vpn_def mod_simps add.commute)
  also have "\<dots> = vpn base + q"
  proof -
    define x where "x = vpn base"
    obtain k where k: "2 ^ 36 = q * 512 * k" using dvd by (elim dvdE)
    have "x < 2 ^ 36" using vpn_range [of base] by (simp add: x_def)
    then have x: "0 \<le> x" "x < q * 512 * k"
      using vpn_range [of base] by (simp_all only: k x_def)
    have "x div q mod 512 < 511" using small q(2) by (simp add: x_def)
    have xq: "x = q * (x div q) + x mod q" "0 \<le> x mod q" "x mod q < q" using q(1) by simp_all
    have "q * (x div q) \<le> x" using xq(1,2) by linarith
    also have "x < q * (512 * k)" using x(2) by (simp only: mult.assoc)
    finally have "x div q < 512 * k" using q(1) by (simp only: mult_less_cancel_left_pos)
    moreover have "x div q \<noteq> 512 * k - 1"
    proof
      assume a: "x div q = 512 * k - 1"
      have "512 * k - 1 = 511 + (k - 1) * 512" by simp
      then have "(512 * k - 1) mod 512 = 511" by (simp only: mod_mult_self1) simp
      with a \<open>x div q mod 512 < 511\<close> show False by simp
    qed
    ultimately have "x div q + 2 \<le> 512 * k" by simp
    then have "q * (x div q + 2) \<le> q * (512 * k)" using q(1) by (intro mult_left_mono) simp_all
    moreover have "q * (x div q + 2) = q * (x div q) + q + q" by (simp add: distrib_left)
    ultimately have "x + q < q * (512 * k)" using xq by linarith
    then have "x + q < q * 512 * k" by (simp only: mult.assoc)
    then have "x + q < 2 ^ 36" unfolding k .
    then show ?thesis using x(1) q(1) by (simp add: x_def)
  qed
  finally show ?thesis using q(2) by simp
qed

section \<open>The tree of tables\<close>

text \<open>Frames, table pages, and the tables that a table reaches, each once for every path to it.\<close>

definition frame :: "u64 \<Rightarrow> u64" where
  "frame p = p AND NOT (mask 12)"

definition is_table :: "u64 \<Rightarrow> bool" where
  "is_table t \<longleftrightarrow> t AND NOT BASE_MASK = 0"

fun tables_of :: "(u64 \<Rightarrow> pte) \<Rightarrow> nat \<Rightarrow> u64 \<Rightarrow> u64 list" where
  "tables_of W 0 t = []"
| "tables_of W (Suc n) t =
     t # concat (map (\<lambda>i. let e = W (t + 8 * of_nat i)
                          in if present e \<and> \<not> is_leaf (Suc n) e
                             then tables_of W n (e AND BASE_MASK) else []) [0..<512])"

definition sub_tables :: "(u64 \<Rightarrow> pte) \<Rightarrow> nat \<Rightarrow> u64 \<Rightarrow> nat \<Rightarrow> u64 list" where
  "sub_tables W n t i =
     (let e = W (t + 8 * of_nat i)
      in if present e \<and> \<not> is_leaf (Suc n) e then tables_of W n (e AND BASE_MASK) else [])"

lemma tables_of_Suc: "tables_of W (Suc n) t = t # concat (map (sub_tables W n t) [0..<512])"
  unfolding tables_of.simps(2) sub_tables_def ..

declare tables_of.simps [simp del]

lemma tables_of_0 [simp]: "tables_of W 0 t = []"
  by (simp add: tables_of.simps)

text \<open>No entry on the walk of \<open>l\<close> maps a page above level 1.\<close>

fun no_huge :: "(u64 \<Rightarrow> pte) \<Rightarrow> nat \<Rightarrow> u64 \<Rightarrow> ptr \<Rightarrow> bool" where
  "no_huge W 0 t l = True"
| "no_huge W (Suc n) t l =
     (let e = W (entry_addr t l (Suc n))
      in n \<noteq> 0 \<and> present e \<longrightarrow> \<not> is_leaf (Suc n) e \<and> no_huge W n (e AND BASE_MASK) l)"

lemma bit_BASE_MASK: "bit BASE_MASK n \<longleftrightarrow> 12 \<le> n \<and> n < 52"
proof -
  have "BASE_MASK = NOT (mask 12) AND mask 52" by (simp add: BASE_MASK_def mask_eq_exp_minus_1)
  then have "bit BASE_MASK n \<longleftrightarrow> bit (NOT (mask 12) AND mask 52 :: u64) n" by simp
  also have "\<dots> \<longleftrightarrow> 12 \<le> n \<and> n < 52" by (auto simp: bit_simps)
  finally show ?thesis .
qed

lemma is_table_base [simp]: "is_table (e AND BASE_MASK)"
  by (auto simp: is_table_def bit_eq_iff bit_simps)

lemma is_table_iff: "is_table t \<longleftrightarrow> (\<forall>n. bit t n \<longrightarrow> 12 \<le> n \<and> n < 52)"
proof
  assume "is_table t"
  then have "\<not> bit (t AND NOT BASE_MASK) n" for n by (simp add: is_table_def)
  then show "\<forall>n. bit t n \<longrightarrow> 12 \<le> n \<and> n < 52"
    using bit_imp_le_length [of t] by (auto simp: bit_simps bit_BASE_MASK)
next
  assume "\<forall>n. bit t n \<longrightarrow> 12 \<le> n \<and> n < 52"
  then show "is_table t" by (auto simp: is_table_def bit_eq_iff bit_simps bit_BASE_MASK)
qed

lemma table_base [simp]: "is_table t \<Longrightarrow> t AND BASE_MASK = t"
  by (auto simp: is_table_iff bit_eq_iff bit_simps bit_BASE_MASK)

lemma frame_table [simp]: "is_table t \<Longrightarrow> frame t = t"
  by (auto simp: frame_def is_table_iff bit_eq_iff bit_simps)

text \<open>The entries of a table lie in its frame; two entries of the same index are the same.\<close>

lemma frame_plus:
  assumes "is_table t" "x < 0x1000"
  shows "frame (t + x) = t" "take_bit 12 (t + x) = x"
proof -
  have "uint x < 2 ^ 12" using assms(2) by (simp add: word_less_def)
  then have x: "take_bit 12 x = x"
    by (intro word_uint_eqI) (simp add: unsigned_take_bit_eq take_bit_int_eq_self)
  then have xb: "bit x n \<Longrightarrow> n < 12" for n by (metis bit_take_bit_iff)
  have "t AND x = 0" using assms(1) xb by (fastforce simp: is_table_iff intro!: bit_word_eqI simp: bit_simps)
  then have or: "t + x = t OR x" using word_plus_and_or [of t x] by simp
  show "frame (t + x) = t" "take_bit 12 (t + x) = x"
    unfolding or frame_def using assms(1) xb
    by (fastforce simp: is_table_iff intro!: bit_word_eqI simp: bit_simps)+
qed

lemma entry_small: "uint i < 512 \<Longrightarrow> 8 * i < (0x1000 :: u64)"
  by (simp add: word_less_def uint_word_ariths take_bit_eq_mod)

lemma frame_entry [simp]: "is_table t \<Longrightarrow> frame (entry_addr t l lvl) = t"
  unfolding entry_addr_def by (rule frame_plus) (simp_all add: entry_small lidx_less)

lemma entry_inj: "uint i < 512 \<Longrightarrow> uint j < 512 \<Longrightarrow> t + 8 * i = t + 8 * j \<longleftrightarrow> i = (j :: u64)"
proof
  assume i: "uint i < 512" "uint j < 512" "t + 8 * i = t + 8 * j"
  then have "uint (8 * i) = uint (8 * j)" by simp
  with i(1,2) show "i = j" by (intro word_uint_eqI) (simp add: uint_word_ariths)
qed simp

lemma nth_entry: "t + 8 * of_nat (unat (lidx l lvl)) = entry_addr t l lvl"
  by (simp add: entry_addr_def)

lemma unat_lidx: "unat (lidx l lvl) < 512"
proof -
  have "int (unat (lidx l lvl)) < 512" using lidx_less [of l lvl] by simp
  then show ?thesis by linarith
qed

lemma frame_nth [simp]: "is_table t \<Longrightarrow> i < 512 \<Longrightarrow> frame (t + 8 * of_nat i) = t"
  by (rule frame_plus) (auto intro!: entry_small simp: unsigned_of_nat take_bit_nat_eq_self)

lemma nth_inj:
  assumes "i < 512" "j < 512"
  shows "t + 8 * (of_nat i :: u64) = t + 8 * of_nat j \<longleftrightarrow> i = j"
proof -
  have u: "k < 512 \<Longrightarrow> uint (of_nat k :: u64) = int k" for k
    by (simp add: unsigned_of_nat take_bit_nat_eq_self)
  have "(of_nat i :: u64) = of_nat j \<longleftrightarrow> i = j" using assms u by (metis of_nat_eq_iff)
  then show ?thesis using assms u entry_inj [of "of_nat i" "of_nat j" t] by simp
qed

section \<open>What a walk depends on\<close>

definition agree :: "(u64 \<Rightarrow> pte) \<Rightarrow> (u64 \<Rightarrow> pte) \<Rightarrow> u64 set \<Rightarrow> bool" where
  "agree W W' T \<longleftrightarrow> (\<forall>p. frame p \<in> T \<longrightarrow> W' p = W p)"

lemma agree_mono: "agree W W' T \<Longrightarrow> S \<subseteq> T \<Longrightarrow> agree W W' S"
  by (auto simp: agree_def)

lemma sub_tables_subset: "i < 512 \<Longrightarrow> set (sub_tables W n t i) \<subseteq> set (tables_of W (Suc n) t)"
  by (auto simp: tables_of_Suc)

lemma sub_tables_entry:
  "present (W (entry_addr t l (Suc n))) \<Longrightarrow> \<not> is_leaf (Suc n) (W (entry_addr t l (Suc n))) \<Longrightarrow>
   sub_tables W n t (unat (lidx l (Suc n))) = tables_of W n (W (entry_addr t l (Suc n)) AND BASE_MASK)"
  unfolding sub_tables_def nth_entry by simp

lemma agree_nth:
  "agree W W' (set (tables_of W (Suc n) t)) \<Longrightarrow> is_table t \<Longrightarrow> i < 512 \<Longrightarrow> W' (t + 8 * of_nat i) = W (t + 8 * of_nat i)"
  by (simp add: agree_def tables_of_Suc)

lemma agree_entry:
  "agree W W' (set (tables_of W (Suc n) t)) \<Longrightarrow> is_table t \<Longrightarrow> W' (entry_addr t l lvl) = W (entry_addr t l lvl)"
  by (simp add: agree_def tables_of_Suc)

lemma agree_tables: "is_table t \<Longrightarrow> agree W W' (set (tables_of W n t)) \<Longrightarrow> tables_of W' n t = tables_of W n t"
proof (induction n arbitrary: t)
  case (Suc n)
  have "sub_tables W' n t i = sub_tables W n t i" if i: "i < 512" for i
  proof -
    let ?e = "W (t + 8 * of_nat i)"
    have e: "W' (t + 8 * of_nat i) = ?e" using agree_nth Suc.prems(2,1) i by blast
    show ?thesis
    proof (cases "present ?e \<and> \<not> is_leaf (Suc n) ?e")
      case True
      then have s: "sub_tables W n t i = tables_of W n (?e AND BASE_MASK)" by (simp add: sub_tables_def)
      have "agree W W' (set (tables_of W n (?e AND BASE_MASK)))"
        using agree_mono [OF Suc.prems(2) sub_tables_subset [OF i]] s by simp
      then have "tables_of W' n (?e AND BASE_MASK) = tables_of W n (?e AND BASE_MASK)"
        by (rule Suc.IH [OF is_table_base])
      then show ?thesis using True e by (simp add: sub_tables_def)
    qed (use e in \<open>auto simp: sub_tables_def\<close>)
  qed
  then have "map (sub_tables W' n t) [0..<512] = map (sub_tables W n t) [0..<512]"
    by (intro map_cong) auto
  then show ?case by (simp only: tables_of_Suc)
qed simp

lemma agree_walk:
  "is_table t \<Longrightarrow> agree W W' (set (tables_of W n t)) \<Longrightarrow>
   page_walk W' n t l = page_walk W n t l \<and> no_huge W' n t l = no_huge W n t l"
proof (induction n arbitrary: t)
  case (Suc n)
  let ?e = "W (entry_addr t l (Suc n))"
  have e: "W' (entry_addr t l (Suc n)) = ?e" using agree_entry Suc.prems(2,1) by blast
  show ?case
  proof (cases "present ?e \<and> \<not> is_leaf (Suc n) ?e")
    case True
    have "set (tables_of W n (?e AND BASE_MASK)) \<subseteq> set (tables_of W (Suc n) t)"
      using sub_tables_subset [OF unat_lidx] sub_tables_entry [of W t l n] True by metis
    then have "agree W W' (set (tables_of W n (?e AND BASE_MASK)))"
      using Suc.prems(2) by (rule agree_mono [rotated])
    from Suc.IH [OF is_table_base this] show ?thesis using e by (simp add: Let_def)
  qed (use e in \<open>auto simp: Let_def\<close>)
qed simp

section \<open>Changing one entry and what is below it\<close>

lemma distinct_concat_map:
  "distinct xs \<Longrightarrow> distinct (concat (map f xs)) \<longleftrightarrow>
     (\<forall>x\<in>set xs. distinct (f x)) \<and> (\<forall>x\<in>set xs. \<forall>y\<in>set xs. x \<noteq> y \<longrightarrow> set (f x) \<inter> set (f y) = {})"
proof (induction xs)
  case (Cons a xs)
  have "set (f a) \<inter> set (concat (map f xs)) = {} \<longleftrightarrow> (\<forall>y\<in>set xs. set (f a) \<inter> set (f y) = {})"
    by auto
  moreover have "y \<in> set xs \<Longrightarrow> a \<noteq> y" for y using Cons.prems by auto
  ultimately show ?case using Cons by (simp add: Int_commute) blast
qed simp

lemma tables_distinct:
  "distinct (tables_of W (Suc n) t) \<longleftrightarrow>
     (\<forall>i<512. t \<notin> set (sub_tables W n t i)) \<and> (\<forall>i<512. distinct (sub_tables W n t i)) \<and>
     (\<forall>i<512. \<forall>j<512. i \<noteq> j \<longrightarrow> set (sub_tables W n t i) \<inter> set (sub_tables W n t j) = {})"
  by (simp add: tables_of_Suc distinct_concat_map Ball_def)

lemma set_tables: "set (tables_of W (Suc n) t) = insert t (\<Union>i<512. set (sub_tables W n t i))"
  by (auto simp: tables_of_Suc)

lemma entry_update:
  assumes t: "is_table t" and d: "distinct (tables_of W (Suc n) t)" and i: "i < 512"
    and e: "\<And>j. j < 512 \<Longrightarrow> j \<noteq> i \<Longrightarrow> W' (t + 8 * of_nat j) = W (t + 8 * of_nat j)"
    and a: "agree W W' (set (tables_of W (Suc n) t) - set (sub_tables W n t i) - {t})"
    and ys: "distinct (sub_tables W' n t i)"
      "set (sub_tables W' n t i) \<inter> (set (tables_of W (Suc n) t) - set (sub_tables W n t i)) = {}"
  shows "distinct (tables_of W' (Suc n) t)"
    and "set (tables_of W' (Suc n) t) \<subseteq> set (tables_of W (Suc n) t) \<union> set (sub_tables W' n t i)"
    and "unat (lidx l (Suc n)) \<noteq> i \<Longrightarrow>
      page_walk W' (Suc n) t l = page_walk W (Suc n) t l \<and> no_huge W' (Suc n) t l = no_huge W (Suc n) t l"
proof -
  note D = d [unfolded tables_distinct]
  have sub_agree: "agree W W' (set (sub_tables W n t j))" if "j < 512" "j \<noteq> i" for j
  proof (rule agree_mono [OF a])
    show "set (sub_tables W n t j) \<subseteq> set (tables_of W (Suc n) t) - set (sub_tables W n t i) - {t}"
      using D that i unfolding set_tables by blast
  qed
  have sub: "sub_tables W' n t j = sub_tables W n t j" if "j < 512" "j \<noteq> i" for j
  proof -
    have "agree W W' (set (tables_of W n (W (t + 8 * of_nat j) AND BASE_MASK)))"
      if "present (W (t + 8 * of_nat j))" "\<not> is_leaf (Suc n) (W (t + 8 * of_nat j))"
      using sub_agree [OF \<open>j < 512\<close> \<open>j \<noteq> i\<close>] that by (simp add: sub_tables_def)
    then show ?thesis using agree_tables [OF is_table_base] e [OF that] by (simp add: sub_tables_def Let_def)
  qed
  have ti: "t \<notin> set (sub_tables W' n t i)" using ys(2) D i unfolding set_tables by blast
  have dis: "set (sub_tables W' n t i) \<inter> set (sub_tables W n t j) = {}" if "j < 512" "j \<noteq> i" for j
    using ys(2) D that i unfolding set_tables by blast
  show "distinct (tables_of W' (Suc n) t)"
    unfolding tables_distinct
  proof (intro conjI allI impI)
    fix j :: nat assume j: "j < 512"
    show "t \<notin> set (sub_tables W' n t j)" using ti D sub j by (cases "j = i") auto
    show "distinct (sub_tables W' n t j)" using ys(1) D sub j by (cases "j = i") auto
    fix k :: nat assume k: "k < 512" "j \<noteq> k"
    show "set (sub_tables W' n t j) \<inter> set (sub_tables W' n t k) = {}"
      using dis [of j] dis [of k] D sub [of j] sub [of k] j k by (cases "j = i"; cases "k = i") auto
  qed
  show "set (tables_of W' (Suc n) t) \<subseteq> set (tables_of W (Suc n) t) \<union> set (sub_tables W' n t i)"
  proof -
    have "set (sub_tables W' n t j) \<subseteq> set (sub_tables W n t j) \<union> set (sub_tables W' n t i)" if "j < 512" for j
      using sub [OF that] by (cases "j = i") auto
    then show ?thesis unfolding set_tables by blast
  qed
  assume l: "unat (lidx l (Suc n)) \<noteq> i"
  let ?e = "W (entry_addr t l (Suc n))"
  have same: "W' (entry_addr t l (Suc n)) = ?e" using e [OF unat_lidx l] by (simp only: nth_entry)
  show "page_walk W' (Suc n) t l = page_walk W (Suc n) t l \<and> no_huge W' (Suc n) t l = no_huge W (Suc n) t l"
  proof (cases "present ?e \<and> \<not> is_leaf (Suc n) ?e")
    case True
    then have "agree W W' (set (tables_of W n (?e AND BASE_MASK)))"
      using sub_agree [OF unat_lidx l] sub_tables_entry [of W t l n] by simp
    from agree_walk [OF is_table_base this] same show ?thesis by (simp add: Let_def)
  qed (use same in \<open>auto simp: Let_def\<close>)
qed

section \<open>The effect of mapping\<close>

text \<open>
  From tables \<open>W\<close> with the frames \<open>A\<close> available to tables \<open>W'\<close> with \<open>A'\<close> available, the pages in \<open>S\<close>
  were mapped below table \<open>t\<close>, whose addresses have the page numbers \<open>x\<close> with \<open>x div 512 ^ n = r\<close>.
\<close>

definition maps_to :: "(u64 \<Rightarrow> pte) \<Rightarrow> nat \<Rightarrow> u64 \<Rightarrow> u64 set \<Rightarrow> ptr \<Rightarrow> bool" where
  "maps_to W n t F l \<longleftrightarrow>
     (\<exists>p. page_walk W n t l = Some p \<and> take_bit 12 p = take_bit 12 l \<and> frame p \<in> F \<and>
          frame p \<notin> set (tables_of W n t))"

definition map_effect ::
  "nat \<Rightarrow> u64 \<Rightarrow> int \<Rightarrow> int set \<Rightarrow> u64 set \<Rightarrow> (u64 \<Rightarrow> pte) \<Rightarrow> u64 set \<Rightarrow> (u64 \<Rightarrow> pte) \<Rightarrow> bool" where
  "map_effect n t r S A W A' W' \<longleftrightarrow>
     A' \<subseteq> A \<and>
     agree W W' (- (set (tables_of W n t) \<union> (A - A'))) \<and>
     distinct (tables_of W' n t) \<and>
     set (tables_of W' n t) \<subseteq> set (tables_of W n t) \<union> (A - A') \<and>
     (\<forall>l. vpn l div 512 ^ n = r \<longrightarrow> vpn l \<in> S \<longrightarrow> maps_to W' n t (A - A') l) \<and>
     (\<forall>l. vpn l div 512 ^ n = r \<longrightarrow> vpn l \<notin> S \<longrightarrow>
        page_walk W' n t l = page_walk W n t l \<and> no_huge W' n t l = no_huge W n t l) \<and>
     (\<forall>k l p q. vpn k div 512 ^ n = r \<longrightarrow> vpn l div 512 ^ n = r \<longrightarrow> vpn k \<in> S \<longrightarrow> vpn l \<in> S \<longrightarrow>
        vpn k \<noteq> vpn l \<longrightarrow> page_walk W' n t k = Some p \<longrightarrow> page_walk W' n t l = Some q \<longrightarrow> frame p \<noteq> frame q)"

lemma map_effectI:
  assumes "A' \<subseteq> A" "agree W W' (- (set (tables_of W n t) \<union> (A - A')))" "distinct (tables_of W' n t)"
    "set (tables_of W' n t) \<subseteq> set (tables_of W n t) \<union> (A - A')"
    "\<And>l. vpn l div 512 ^ n = r \<Longrightarrow> vpn l \<in> S \<Longrightarrow> maps_to W' n t (A - A') l"
    "\<And>l. vpn l div 512 ^ n = r \<Longrightarrow> vpn l \<notin> S \<Longrightarrow>
       page_walk W' n t l = page_walk W n t l \<and> no_huge W' n t l = no_huge W n t l"
    "\<And>k l p q. vpn k div 512 ^ n = r \<Longrightarrow> vpn l div 512 ^ n = r \<Longrightarrow> vpn k \<in> S \<Longrightarrow> vpn l \<in> S \<Longrightarrow>
       vpn k \<noteq> vpn l \<Longrightarrow> page_walk W' n t k = Some p \<Longrightarrow> page_walk W' n t l = Some q \<Longrightarrow> frame p \<noteq> frame q"
  shows "map_effect n t r S A W A' W'"
  unfolding map_effect_def using assms by blast

lemma map_effectD:
  assumes "map_effect n t r S A W A' W'"
  shows "A' \<subseteq> A" "agree W W' (- (set (tables_of W n t) \<union> (A - A')))" "distinct (tables_of W' n t)"
    "set (tables_of W' n t) \<subseteq> set (tables_of W n t) \<union> (A - A')"
    "vpn l div 512 ^ n = r \<Longrightarrow> vpn l \<in> S \<Longrightarrow> maps_to W' n t (A - A') l"
    "vpn l div 512 ^ n = r \<Longrightarrow> vpn l \<notin> S \<Longrightarrow>
       page_walk W' n t l = page_walk W n t l \<and> no_huge W' n t l = no_huge W n t l"
    "vpn k div 512 ^ n = r \<Longrightarrow> vpn l div 512 ^ n = r \<Longrightarrow> vpn k \<in> S \<Longrightarrow> vpn l \<in> S \<Longrightarrow>
       vpn k \<noteq> vpn l \<Longrightarrow> page_walk W' n t k = Some p \<Longrightarrow> page_walk W' n t l = Some q \<Longrightarrow> frame p \<noteq> frame q"
  using assms unfolding map_effect_def by simp_all

lemma map_effect_refl: "distinct (tables_of W n t) \<Longrightarrow> map_effect n t r {} A W A W"
  by (rule map_effectI) (auto simp: agree_def)

text \<open>Two effects one after the other.\<close>

lemma map_effect_trans:
  assumes 1: "map_effect n t r S A W A' W'" and 2: "map_effect n t r S' A' W' A'' W''"
  shows "map_effect n t r (S \<union> S') A W A'' W''"
proof (rule map_effectI)
  note f = map_effectD [OF 1] and g = map_effectD [OF 2]
  show "A'' \<subseteq> A" using f(1) g(1) by blast
  show "agree W W'' (- (set (tables_of W n t) \<union> (A - A'')))"
  proof -
    have "agree W W' (- (set (tables_of W n t) \<union> (A - A'')))"
      by (rule agree_mono [OF f(2)]) (use g(1) in auto)
    moreover have "agree W' W'' (- (set (tables_of W n t) \<union> (A - A'')))"
      by (rule agree_mono [OF g(2)]) (use f(1,4) g(1) in auto)
    ultimately show ?thesis unfolding agree_def by simp
  qed
  show "distinct (tables_of W'' n t)" by (rule g(3))
  show "set (tables_of W'' n t) \<subseteq> set (tables_of W n t) \<union> (A - A'')" using f(1,4) g(1,4) by blast
  have old: "maps_to W'' n t (A - A') l \<and> page_walk W'' n t l = page_walk W' n t l"
    if "vpn l div 512 ^ n = r" "vpn l \<in> S" "vpn l \<notin> S'" for l
    using f(5) [OF that(1,2)] g(6) [OF that(1,3)] g(4) unfolding maps_to_def by auto
  show "maps_to W'' n t (A - A'') l" if "vpn l div 512 ^ n = r" "vpn l \<in> S \<union> S'" for l
  proof (cases "vpn l \<in> S'")
    case True
    then show ?thesis using g(5) [OF that(1)] f(1) unfolding maps_to_def by blast
  next
    case False
    then show ?thesis using old [OF that(1)] that(2) g(1) unfolding maps_to_def by blast
  qed
  show "page_walk W'' n t l = page_walk W n t l \<and> no_huge W'' n t l = no_huge W n t l"
    if "vpn l div 512 ^ n = r" "vpn l \<notin> S \<union> S'" for l
    using f(6) [OF that(1)] g(6) [OF that(1)] that(2) by simp
  have cross: "frame p \<noteq> frame q"
    if "vpn k div 512 ^ n = r" "vpn l div 512 ^ n = r" "vpn k \<in> S" "vpn k \<notin> S'" "vpn l \<in> S'"
      "page_walk W'' n t k = Some p" "page_walk W'' n t l = Some q" for k l p q
  proof -
    have "frame p \<in> A - A'" using old [OF that(1,3,4)] that(6) unfolding maps_to_def by auto
    moreover have "frame q \<in> A' - A''" using g(5) [OF that(2,5)] that(7) unfolding maps_to_def by auto
    ultimately show ?thesis by auto
  qed
  show "frame p \<noteq> frame q"
    if h: "vpn k div 512 ^ n = r" "vpn l div 512 ^ n = r" "vpn k \<in> S \<union> S'" "vpn l \<in> S \<union> S'"
      "vpn k \<noteq> vpn l" "page_walk W'' n t k = Some p" "page_walk W'' n t l = Some q" for k l p q
  proof (cases "vpn k \<in> S'"; cases "vpn l \<in> S'")
    assume "vpn k \<in> S'" "vpn l \<in> S'"
    then show ?thesis using g(7) h by blast
  next
    assume "vpn k \<in> S'" "vpn l \<notin> S'"
    then show ?thesis using cross [of l k q p] h by auto
  next
    assume "vpn k \<notin> S'" "vpn l \<in> S'"
    then show ?thesis using cross [of k l p q] h by auto
  next
    assume "vpn k \<notin> S'" "vpn l \<notin> S'"
    then show ?thesis using f(7) [of k l p q] old [of k] old [of l] h by auto
  qed
qed

text \<open>An effect below one entry is an effect of the table.\<close>

lemma same_index:
  assumes "n \<le> 3" "vpn l div 512 ^ Suc n = vpn b div 512 ^ Suc n"
  shows "unat (lidx l (Suc n)) = unat (lidx b (Suc n)) \<longleftrightarrow> vpn l div 512 ^ n = vpn b div 512 ^ n"
  using same_entry [OF refl assms] by (metis unsigned_word_eqI)

lemma map_effect_lift:
  assumes t: "is_table t" and d: "distinct (tables_of W (Suc n) t)" and A: "A \<inter> set (tables_of W (Suc n) t) = {}"
    and n: "n \<le> 3" and e: "present (W (entry_addr t b (Suc n)))" "\<not> is_leaf (Suc n) (W (entry_addr t b (Suc n)))"
    and s: "s = W (entry_addr t b (Suc n)) AND BASE_MASK"
    and eff: "map_effect n s (vpn b div 512 ^ n) S A W A' W'"
    and S: "\<And>x. x \<in> S \<Longrightarrow> x div 512 ^ n = vpn b div 512 ^ n"
  shows "map_effect (Suc n) t (vpn b div 512 ^ Suc n) S A W A' W'"
proof -
  let ?i = "unat (lidx b (Suc n))"
  note f = map_effectD [OF eff] and D = d [unfolded tables_distinct]
  have sub: "sub_tables W n t ?i = tables_of W n s" using sub_tables_entry [of W t b n] e s by simp
  have ts: "t \<notin> set (tables_of W n s)" using D unat_lidx [of b "Suc n"] sub by metis
  have tA: "t \<notin> A" using A unfolding set_tables by blast
  have same: "W' p = W p" if "frame p = t" for p
    using f(2) ts tA that unfolding agree_def by auto
  have rest: "agree W W' (set (tables_of W (Suc n) t) - set (sub_tables W n t ?i) - {t})"
    by (rule agree_mono [OF f(2)]) (use A sub in auto)
  have sub': "sub_tables W' n t ?i = tables_of W' n s"
    using same [OF frame_entry [OF t]] e s unfolding sub_tables_def nth_entry by simp
  have ys: "set (sub_tables W' n t ?i) \<inter> (set (tables_of W (Suc n) t) - set (sub_tables W n t ?i)) = {}"
    using f(4) A unfolding sub sub' by blast
  note u = entry_update [OF t d unat_lidx same [OF frame_nth [OF t]] rest f(3) [folded sub'] ys]
  have walk: "page_walk W' (Suc n) t l = page_walk W' n s l \<and> page_walk W (Suc n) t l = page_walk W n s l"
    "n \<noteq> 0 \<Longrightarrow> no_huge W' (Suc n) t l = no_huge W' n s l \<and> no_huge W (Suc n) t l = no_huge W n s l"
    if "unat (lidx l (Suc n)) = ?i" for l
  proof -
    have "entry_addr t l (Suc n) = entry_addr t b (Suc n)" using that by (metis nth_entry)
    then show "page_walk W' (Suc n) t l = page_walk W' n s l \<and> page_walk W (Suc n) t l = page_walk W n s l"
      "n \<noteq> 0 \<Longrightarrow> no_huge W' (Suc n) t l = no_huge W' n s l \<and> no_huge W (Suc n) t l = no_huge W n s l"
      using same [OF frame_entry [OF t]] e s by simp_all
  qed
  have n0: "n \<noteq> 0" using e(2) by (auto simp: is_leaf_def)
  have idx: "unat (lidx l (Suc n)) = ?i \<longleftrightarrow> vpn l div 512 ^ n = vpn b div 512 ^ n"
    if "vpn l div 512 ^ Suc n = vpn b div 512 ^ Suc n" for l
    using same_index [OF n that] .
  show ?thesis
  proof (rule map_effectI)
    show "A' \<subseteq> A" by (rule f(1))
    show "agree W W' (- (set (tables_of W (Suc n) t) \<union> (A - A')))"
      by (rule agree_mono [OF f(2)]) (use sub_tables_subset [OF unat_lidx [of b "Suc n"], of W n t] sub in auto)
    show "distinct (tables_of W' (Suc n) t)" by (rule u(1)) simp_all
    show sb: "set (tables_of W' (Suc n) t) \<subseteq> set (tables_of W (Suc n) t) \<union> (A - A')"
      using u(2) f(4) sub sub' sub_tables_subset [OF unat_lidx [of b "Suc n"], of W n t] by auto
    fix l assume l: "vpn l div 512 ^ Suc n = vpn b div 512 ^ Suc n"
    {
      assume "vpn l \<in> S"
      then have i: "unat (lidx l (Suc n)) = ?i" "vpn l div 512 ^ n = vpn b div 512 ^ n" using S idx l by simp_all
      obtain p where p: "page_walk W' n s l = Some p" "take_bit 12 p = take_bit 12 l" "frame p \<in> A - A'"
        "frame p \<notin> set (tables_of W' n s)"
        using f(5) [OF i(2) \<open>vpn l \<in> S\<close>] unfolding maps_to_def by blast
      moreover have "frame p \<notin> set (tables_of W' (Suc n) t)"
        using u(2) p(3,4) A unfolding sub' by blast
      ultimately show "maps_to W' (Suc n) t (A - A') l"
        using walk(1) [OF i(1)] unfolding maps_to_def by auto
    }
    {
      assume "vpn l \<notin> S"
      then show "page_walk W' (Suc n) t l = page_walk W (Suc n) t l \<and> no_huge W' (Suc n) t l = no_huge W (Suc n) t l"
        using f(6) walk idx [OF l] n0 u(3) by (cases "unat (lidx l (Suc n)) = ?i") simp_all
    }
    fix k p q
    assume h: "vpn k div 512 ^ Suc n = vpn b div 512 ^ Suc n" "vpn k \<in> S" "vpn l \<in> S" "vpn k \<noteq> vpn l"
      "page_walk W' (Suc n) t k = Some p" "page_walk W' (Suc n) t l = Some q"
    then show "frame p \<noteq> frame q"
      using f(7) [of k l p q] walk(1) [of k] walk(1) [of l] idx [OF h(1)] idx [OF l] S by simp
  qed
qed

text \<open>Writing a leaf entry for a block of frames.\<close>

definition block_frames :: "u64 \<Rightarrow> nat \<Rightarrow> u64 set" where
  "block_frames q s = {f. frame f = f \<and> f AND NOT (mask s) = q}"

lemma leaf_page:
  assumes q: "q AND mask s = 0" and s: "12 \<le> s"
  shows "take_bit 12 (q OR take_bit s l) = take_bit 12 l" "frame (q OR take_bit s l) \<in> block_frames q s"
    "12 \<le> m \<Longrightarrow> m < s \<Longrightarrow> m < 64 \<Longrightarrow> bit (frame (q OR take_bit s l)) m = bit l m"
proof -
  have b: "bit q m \<Longrightarrow> s \<le> m" for m
  proof (rule ccontr)
    assume "bit q m" "\<not> s \<le> m"
    then have "bit (q AND mask s) m" using bit_imp_le_length [of q m] by (simp add: bit_simps)
    then show False using q by simp
  qed
  show "take_bit 12 (q OR take_bit s l) = take_bit 12 l"
    by (rule bit_word_eqI) (use s in \<open>auto simp: bit_simps dest: b\<close>)
  show "frame (q OR take_bit s l) \<in> block_frames q s"
    unfolding block_frames_def frame_def mem_Collect_eq
    by (intro conjI; rule bit_word_eqI) (use s in \<open>auto simp: bit_simps dest: b\<close>)
  show "12 \<le> m \<Longrightarrow> m < s \<Longrightarrow> m < 64 \<Longrightarrow> bit (frame (q OR take_bit s l)) m = bit l m"
    using b [of m] s by (auto simp: frame_def bit_simps)
qed

lemma vpn_eq_bits:
  assumes "vpn k div 512 ^ n = vpn l div 512 ^ n"
    and "\<And>m. 12 \<le> m \<Longrightarrow> m < 9 * n + 12 \<Longrightarrow> m < 64 \<Longrightarrow> bit k m = bit l m"
  shows "vpn k = vpn l"
proof -
  have v: "vpn x = take_bit 36 (drop_bit 12 (uint x))" for x
    by (simp add: vpn_def take_bit_eq_mod drop_bit_eq_div)
  have p: "(512 :: int) ^ n = 2 ^ (9 * n)" by (simp add: power_mult)
  have "take_bit (9 * n) (vpn k) = take_bit (9 * n) (vpn l)"
  proof (rule bit_eqI)
    fix m
    show "bit (take_bit (9 * n) (vpn k)) m = bit (take_bit (9 * n) (vpn l)) m"
      using assms(2) [of "12 + m"] unfolding v by (auto simp: bit_simps bit_uint_iff)
  qed
  then have "vpn k mod 512 ^ n = vpn l mod 512 ^ n" unfolding p take_bit_eq_mod .
  then show ?thesis using assms(1) by (metis div_mult_mod_eq)
qed

lemma map_effect_leaf:
  assumes t: "is_table t" and d: "distinct (tables_of W (Suc n) t)" and A: "A \<inter> set (tables_of W (Suc n) t) = {}"
    and n: "n \<le> 3" and W': "W' = W(entry_addr t b (Suc n) := e)" and e: "present e" "is_leaf (Suc n) e"
    and q: "e AND BASE_MASK AND NOT (mask (lvl_shift (Suc n))) = q" "q AND mask (lvl_shift (Suc n)) = 0"
    and A': "A' \<subseteq> A" "block_frames q (lvl_shift (Suc n)) \<subseteq> A - A'"
  shows "map_effect (Suc n) t (vpn b div 512 ^ Suc n) {x. x div 512 ^ n = vpn b div 512 ^ n} A W A' W'"
proof -
  let ?i = "unat (lidx b (Suc n))" and ?s = "lvl_shift (Suc n)"
  have s: "12 \<le> ?s" by (simp add: lvl_shift_def)
  have same: "W' (t + 8 * of_nat j) = W (t + 8 * of_nat j)" if "j < 512" "j \<noteq> ?i" for j
    using that nth_inj [OF that(1) unat_lidx, of t b "Suc n"] by (simp add: W' entry_addr_def)
  have rest: "agree W W' (set (tables_of W (Suc n) t) - set (sub_tables W n t ?i) - {t})"
    using frame_entry [OF t, of b "Suc n"] by (auto simp: agree_def W')
  have sub': "sub_tables W' n t ?i = []"
    unfolding sub_tables_def nth_entry W' using e by simp
  note u = entry_update [OF t d unat_lidx same rest, unfolded sub']
  have walk: "page_walk W' (Suc n) t l = Some (q OR take_bit ?s l)" if "unat (lidx l (Suc n)) = ?i" for l
  proof -
    have "entry_addr t l (Suc n) = entry_addr t b (Suc n)" using that by (metis nth_entry)
    then show ?thesis using e q(1) by (simp add: W')
  qed
  show ?thesis
  proof (rule map_effectI)
    show "A' \<subseteq> A" by (rule A'(1))
    show "agree W W' (- (set (tables_of W (Suc n) t) \<union> (A - A')))"
      using frame_entry [OF t, of b "Suc n"] by (auto simp: agree_def W' set_tables)
    show "distinct (tables_of W' (Suc n) t)" by (rule u(1)) simp_all
    have sb: "set (tables_of W' (Suc n) t) \<subseteq> set (tables_of W (Suc n) t)" using u(2) by simp
    then show "set (tables_of W' (Suc n) t) \<subseteq> set (tables_of W (Suc n) t) \<union> (A - A')" by blast
    fix l assume l: "vpn l div 512 ^ Suc n = vpn b div 512 ^ Suc n"
    note idx = same_index [OF n l]
    show "maps_to W' (Suc n) t (A - A') l" if "vpn l \<in> {x. x div 512 ^ n = vpn b div 512 ^ n}"
      unfolding maps_to_def
      using walk [of l] idx that leaf_page(1,2) [OF q(2) s, of l] A' A sb by auto
    show "page_walk W' (Suc n) t l = page_walk W (Suc n) t l \<and> no_huge W' (Suc n) t l = no_huge W (Suc n) t l"
      if "vpn l \<notin> {x. x div 512 ^ n = vpn b div 512 ^ n}"
      using u(3) [of l] idx that by simp
    fix k p p'
    assume h: "vpn k div 512 ^ Suc n = vpn b div 512 ^ Suc n" "vpn k \<in> {x. x div 512 ^ n = vpn b div 512 ^ n}"
      "vpn l \<in> {x. x div 512 ^ n = vpn b div 512 ^ n}" "vpn k \<noteq> vpn l"
      "page_walk W' (Suc n) t k = Some p" "page_walk W' (Suc n) t l = Some p'"
    then have p: "p = q OR take_bit ?s k" "p' = q OR take_bit ?s l"
      using walk [of k] walk [of l] idx same_index [OF n h(1)] by simp_all
    show "frame p \<noteq> frame p'"
    proof
      assume "frame p = frame p'"
      then have "bit k m = bit l m" if "12 \<le> m" "m < 9 * n + 12" "m < 64" for m
      proof -
        have "m < ?s" using that(2) by (simp add: lvl_shift_def)
        with \<open>frame p = frame p'\<close> show ?thesis
          using leaf_page(3) [OF q(2) s that(1) _ that(3)] unfolding p by metis
      qed
      then have "vpn k = vpn l" using h(2,3) vpn_eq_bits [where k = k and l = l and n = n] by simp
      then show False using h(4) by simp
    qed
  qed
qed

text \<open>Adding an empty table.\<close>

lemma zero_table_frame: "is_table q \<Longrightarrow> zero_table q W p = (if frame p = q then 0 else W p)"
proof -
  assume q: "is_table q"
  have "p - q < 0x1000 \<longleftrightarrow> frame p = q"
  proof
    assume "p - q < 0x1000"
    then show "frame p = q" using frame_plus(1) [OF q, of "p - q"] by simp
  next
    assume f: "frame p = q"
    have "p = frame p + take_bit 12 p"
    proof -
      have "frame p AND take_bit 12 p = 0" "frame p OR take_bit 12 p = p"
        by (rule bit_word_eqI; auto simp: frame_def bit_simps)+
      then show ?thesis using word_plus_and_or [of "frame p" "take_bit 12 p"] by simp
    qed
    then have "p - q = take_bit 12 p" using f by (metis add_diff_cancel_left')
    moreover have "uint (take_bit 12 p) < 0x1000"
      by (simp add: unsigned_take_bit_eq) (simp add: take_bit_eq_mod)
    ultimately show "p - q < 0x1000" by (simp add: word_less_def)
  qed
  then show ?thesis by (simp add: zero_table_def)
qed

lemma empty_table:
  assumes "\<And>p. frame p = q \<Longrightarrow> W p = 0" "is_table q"
  shows "tables_of W (Suc m) q = [q]" "page_walk W (Suc m) q l = None" "no_huge W (Suc m) q l"
proof -
  have "sub_tables W m q i = []" if "i < 512" for i
    using assms(1) [OF frame_nth [OF assms(2) that]] by (simp add: sub_tables_def present_def)
  then have "concat (map (sub_tables W m q) [0..<512]) = []" by simp
  then show "tables_of W (Suc m) q = [q]" by (simp only: tables_of_Suc)
  show "page_walk W (Suc m) q l = None" "no_huge W (Suc m) q l"
    using assms by (simp_all add: present_def)
qed

lemma map_effect_table:
  assumes t: "is_table t" and d: "distinct (tables_of W (Suc n) t)" and A: "A \<inter> set (tables_of W (Suc n) t) = {}"
    and n: "n \<le> 3" "n \<noteq> 0" and p: "\<not> present (W (entry_addr t b (Suc n)))"
    and W': "W' = (zero_table q W)(entry_addr t b (Suc n) := e)"
    and e: "present e" "\<not> is_leaf (Suc n) e" "e AND BASE_MASK = q"
    and q: "is_table q" "q \<in> A - A'" "A' \<subseteq> A"
  shows "map_effect (Suc n) t (vpn b div 512 ^ Suc n) {} A W A' W'"
proof -
  let ?i = "unat (lidx b (Suc n))"
  obtain m where m: "n = Suc m" using n(2) by (cases n) auto
  have qt: "q \<notin> set (tables_of W (Suc n) t)" using q A by blast
  then have "q \<noteq> t" by (auto simp: set_tables)
  have same: "W' x = W x" if "frame x \<noteq> q" "x \<noteq> entry_addr t b (Suc n)" for x
    using that by (simp add: W' zero_table_frame q(1))
  have nth: "W' (t + 8 * of_nat j) = W (t + 8 * of_nat j)" if "j < 512" "j \<noteq> ?i" for j
    using that nth_inj [OF that(1) unat_lidx, of t b "Suc n"] \<open>q \<noteq> t\<close> t
    by (intro same) (simp_all add: entry_addr_def)
  have rest: "agree W W' (set (tables_of W (Suc n) t) - set (sub_tables W n t ?i) - {t})"
    unfolding agree_def using qt frame_entry [OF t, of b "Suc n"] by (metis DiffD1 DiffD2 insertI1 same)
  have zero: "W' x = 0" if "frame x = q" for x
    using that \<open>q \<noteq> t\<close> frame_entry [OF t, of b "Suc n"] by (auto simp: W' zero_table_frame q(1))
  note em = empty_table [OF zero q(1), where m = m, folded m]
  have We: "W' (entry_addr t b (Suc n)) = e" by (simp add: W')
  have sub: "sub_tables W n t ?i = []" unfolding sub_tables_def nth_entry using p by simp
  have sub': "sub_tables W' n t ?i = [q]"
    unfolding sub_tables_def nth_entry We using e em(1) by simp
  have ys: "set (sub_tables W' n t ?i) \<inter> (set (tables_of W (Suc n) t) - set (sub_tables W n t ?i)) = {}"
    using qt by (simp add: sub sub')
  have ds: "distinct (sub_tables W' n t ?i)" by (simp add: sub')
  note u = entry_update [OF t d unat_lidx nth rest ds ys]
  show ?thesis
  proof (rule map_effectI)
    show "A' \<subseteq> A" by (rule q(3))
    show "agree W W' (- (set (tables_of W (Suc n) t) \<union> (A - A')))"
      unfolding agree_def
    proof (intro allI impI)
      fix x assume "frame x \<in> - (set (tables_of W (Suc n) t) \<union> (A - A'))"
      then have "frame x \<noteq> q" "frame x \<noteq> t" using q(2) by (auto simp: set_tables)
      then show "W' x = W x" using frame_entry [OF t, of b "Suc n"] by (intro same) auto
    qed
    show "distinct (tables_of W' (Suc n) t)" by (rule u(1)) simp_all
    show "set (tables_of W' (Suc n) t) \<subseteq> set (tables_of W (Suc n) t) \<union> (A - A')"
      using u(2) q(2) by (auto simp: sub')
    fix l
    show "page_walk W' (Suc n) t l = page_walk W (Suc n) t l \<and> no_huge W' (Suc n) t l = no_huge W (Suc n) t l"
    proof (cases "unat (lidx l (Suc n)) = ?i")
      case True
      then have "entry_addr t l (Suc n) = entry_addr t b (Suc n)" by (metis nth_entry)
      then show ?thesis using p We e em(2,3) by simp
    next
      case False
      then show ?thesis using u(3) [of l] by simp
    qed
  qed simp_all
qed

end
