(* ===== verification/Memm_Correct.thy ===== *)
theory Memm_Correct
  imports Memm_Map
begin

text \<open>
  The proof that \<open>map_offset\<close> has the effect that \<open>Memm_Map\<close> describes, for every page getter that
  keeps the contract of the locale \<open>page_source\<close>, and which pages it covers.
\<close>

section \<open>The pages that a call covers\<close>

definition takes_leaf :: "nat \<Rightarrow> ptr \<Rightarrow> ptr \<Rightarrow> bool" where
  "takes_leaf lvl base acme \<longleftrightarrow>
     lvl = 1 \<or> 2 ^ lvl_shift lvl \<le> sint acme - sint base + 4095 \<and> base AND mask (lvl_shift lvl) = 0 \<and> lvl < 4"

function covered :: "nat \<Rightarrow> ptr \<Rightarrow> ptr \<Rightarrow> int set" where
  "covered lvl base acme =
     (if lvl < 1 \<or> 4 < lvl \<or> \<not> base <s acme then {}
      else (if takes_leaf lvl base acme then {x. x div 512 ^ (lvl - 1) = vpn base div 512 ^ (lvl - 1)}
            else covered (lvl - 1) base acme)
        \<union> (if lidx base lvl = 511 then {} else covered lvl (base + 2 ^ lvl_shift lvl) acme))"
  by pat_completeness auto

lemma lidx_grows:
  assumes "lidx base lvl \<noteq> 511" "lvl \<le> 4"
  shows "uint (lidx base lvl) < uint (lidx (base + 2 ^ lvl_shift lvl) lvl)"
  by (rule next_index_measure [OF assms(1)]) (use assms(2) in \<open>simp_all add: table_index_lidx page_size_eq\<close>)

termination covered
  by (relation "measures [\<lambda>(lvl, base, _). lvl, \<lambda>(lvl, base, _). nat (512 - uint (lidx base lvl))]")
    (auto simp: takes_leaf_def lidx_grows lidx_less)

declare covered.simps [simp del]

lemma covered_iff:
  assumes "n \<le> 3" "base <s acme"
  shows "x \<in> covered (Suc n) base acme \<longleftrightarrow>
    (if takes_leaf (Suc n) base acme then x div 512 ^ n = vpn base div 512 ^ n else x \<in> covered n base acme) \<or>
    lidx base (Suc n) \<noteq> 511 \<and> x \<in> covered (Suc n) (base + 2 ^ lvl_shift (Suc n)) acme"
  using assms by (subst covered.simps) simp

lemma covered_nonempty:
  assumes "x \<in> covered lvl base acme"
  shows "\<exists>n. lvl = Suc n \<and> n \<le> 3 \<and> base <s acme"
proof -
  have "\<not> (lvl < 1 \<or> 4 < lvl \<or> \<not> base <s acme)"
    using assms by (subst (asm) covered.simps) (auto split: if_splits)
  then show ?thesis by (cases lvl) auto
qed

lemma vpn_next_div:
  assumes "n \<le> 3" "lidx base (Suc n) \<noteq> 511"
  shows "vpn (base + 2 ^ lvl_shift (Suc n)) div 512 ^ n = vpn base div 512 ^ n + 1"
    "vpn (base + 2 ^ lvl_shift (Suc n)) div 512 ^ Suc n = vpn base div 512 ^ Suc n"
proof -
  have v: "vpn (base + 2 ^ lvl_shift (Suc n)) = vpn base + 512 ^ n" using vpn_next [OF refl assms] .
  then show d: "vpn (base + 2 ^ lvl_shift (Suc n)) div 512 ^ n = vpn base div 512 ^ n + 1"
    by (simp only: v) (rule div_add_self2, simp)
  have "uint (lidx base (Suc n)) \<noteq> uint (511 :: u64)" using assms(2) by (metis word_uint_eqI)
  then have "vpn base div 512 ^ n mod 512 < 511"
    using lidx_less [of base "Suc n"] lidx_vpn [OF refl assms(1), of base] by simp
  moreover have D: "x div 512 ^ Suc n = x div 512 ^ n div 512" for x :: int
    using zdiv_zmult2_eq [of 512 x "512 ^ n"] by (simp add: mult.commute)
  ultimately show "vpn (base + 2 ^ lvl_shift (Suc n)) div 512 ^ Suc n = vpn base div 512 ^ Suc n"
    unfolding D d by (intro int_div_pos_eq [where r = "vpn base div 512 ^ n mod 512 + 1"]) simp_all
qed

lemma covered_region: "x \<in> covered lvl base acme \<Longrightarrow> x div 512 ^ lvl = vpn base div 512 ^ lvl"
proof (induction lvl base acme rule: covered.induct)
  case (1 lvl base acme)
  obtain n where n: "lvl = Suc n" "n \<le> 3" "base <s acme"
    using covered_nonempty [OF "1.prems"] by blast
  have D: "y div 512 ^ Suc n = y div 512 ^ n div 512" for y :: int
    using zdiv_zmult2_eq [of 512 y "512 ^ n"] by (simp add: mult.commute)
  from "1.prems" consider (leaf) "takes_leaf lvl base acme" "x div 512 ^ n = vpn base div 512 ^ n"
    | (low) "\<not> takes_leaf lvl base acme" "x \<in> covered n base acme"
    | (nxt) "lidx base lvl \<noteq> 511" "x \<in> covered lvl (base + 2 ^ lvl_shift lvl) acme"
    using covered_iff [OF n(2,3), of x] n(1) by (auto split: if_splits)
  then show ?case
  proof cases
    case leaf
    then show ?thesis by (simp only: n(1) D)
  next
    case low
    have "x div 512 ^ (lvl - 1) = vpn base div 512 ^ (lvl - 1)" by (rule "1.IH"(1)) (use low n in auto)
    then show ?thesis using n(1) D by simp
  next
    case nxt
    have "x div 512 ^ lvl = vpn (base + 2 ^ lvl_shift lvl) div 512 ^ lvl"
      by (rule "1.IH"(2)) (use nxt n in auto)
    then show ?thesis using vpn_next_div(2) [OF n(2)] nxt n(1) by simp
  qed
qed

lemma covered_ge: "x \<in> covered (Suc n) base acme \<Longrightarrow> vpn base div 512 ^ n \<le> x div 512 ^ n"
proof (induction "Suc n" base acme rule: covered.induct)
  case (1 base acme)
  have n: "n \<le> 3" "base <s acme"
    using covered_nonempty [OF "1.prems"] by auto
  from "1.prems" consider (eq) "x div 512 ^ n = vpn base div 512 ^ n"
    | (nxt) "lidx base (Suc n) \<noteq> 511" "x \<in> covered (Suc n) (base + 2 ^ lvl_shift (Suc n)) acme"
    using covered_iff [OF n, of x] covered_region [of x n base acme] by (auto split: if_splits)
  then show ?case
  proof cases
    case nxt
    have "vpn (base + 2 ^ lvl_shift (Suc n)) div 512 ^ n \<le> x div 512 ^ n"
      by (rule "1.hyps"(2)) (use nxt n in auto)
    then show ?thesis using vpn_next_div(1) [OF n(1) nxt(1)] by simp
  qed simp
qed

lemma covered_base: "base <s acme \<Longrightarrow> n \<le> 3 \<Longrightarrow> vpn base \<in> covered (Suc n) base acme"
proof (induction n)
  case 0
  then show ?case using covered_iff [of 0 base acme "vpn base"] by (simp add: takes_leaf_def)
next
  case (Suc n)
  then show ?case using covered_iff [of "Suc n" base acme "vpn base"] by simp
qed

section \<open>One round of the loop\<close>

definition phys :: "table_mem \<Rightarrow> u64 \<Rightarrow> pte" where
  "phys m p = m (p + PHYS_LADDR_OFFSET)"

lemma phys_upd:
  "phys (m(entry_ptr (t + PHYS_LADDR_OFFSET) (lidx b lvl) := e)) = (phys m)(entry_addr t b lvl := e)"
  by (auto simp: phys_def entry_ptr_def entry_addr_def fun_eq_iff)

lemma phys_entry: "m (entry_ptr (t + PHYS_LADDR_OFFSET) (lidx b lvl)) = phys m (entry_addr t b lvl)"
  by (simp add: phys_def entry_ptr_def entry_addr_def algebra_simps)

lemma phys_zero: "phys (zero_table (q + PHYS_LADDR_OFFSET) m) = zero_table q (phys m)"
  by (auto simp: phys_def zero_table_def fun_eq_iff)

lemma table_less: "is_table q \<Longrightarrow> uint q < 2 ^ 52"
proof -
  assume "is_table q"
  then have "take_bit 52 q = q" by (auto simp: is_table_iff bit_eq_iff bit_simps)
  then have "uint q = take_bit 52 (uint q)" by (metis unsigned_take_bit_eq)
  also have "\<dots> < 2 ^ 52" by (simp add: take_bit_eq_mod)
  finally show ?thesis .
qed

lemma from_phys_addr_table: "is_table q \<Longrightarrow> from_phys_addr q = Some (q + PHYS_LADDR_OFFSET)"
proof -
  assume "is_table q"
  from table_less [OF this] have "sint q = uint q" "uint q < 2 ^ 52" by (simp_all add: sint_eq_uint)
  moreover have "sint PHYS_LADDR_OFFSET = - (2 ^ 47)" by (simp add: PHYS_LADDR_OFFSET_def)
  moreover have "0 \<le> uint q" by simp
  ultimately show ?thesis unfolding from_phys_addr_def
    by (intro checked_sadd_Some) (simp_all del: uint_ge_0)
qed

lemma span_uint:
  fixes base acme :: ptr
  assumes "- (2 ^ 47) \<le> sint base" "base <s acme" "sint acme \<le> 2 ^ 47"
  shows "checked_ssub acme base = Some (acme - base)" "uint (acme - base) = sint acme - sint base"
    "sint acme - sint base \<le> 2 ^ 48" "0 < sint acme - sint base"
proof -
  have lt: "sint base < sint acme" using assms(2) by (simp add: word_sless_alt)
  show "checked_ssub acme base = Some (acme - base)"
    using assms lt by (intro checked_ssub_Some) simp_all
  have "sint (acme - base) = sint acme - sint base" using assms lt by (intro sint_sub_eq) simp_all
  then show "uint (acme - base) = sint acme - sint base" using lt by (subst uint_eq_sint) simp_all
  show "sint acme - sint base \<le> 2 ^ 48" "0 < sint acme - sint base" using assms lt by simp_all
qed

lemma map_offset_step:
  assumes n: "n \<le> 3" and b: "- (2 ^ 47) \<le> sint base" "base <s acme" "sint acme \<le> 2 ^ 47"
  shows "map_offset (Suc n) base acme branches leaves table getter gm = do {
    gm \<leftarrow> (if takes_leaf (Suc n) base acme then do {
        (page, g) \<leftarrow> getter (fst gm) (2 ^ lvl_shift (Suc n));
        entry \<leftarrow> leaf_entry (Suc n) page leaves;
        Some (g, (snd gm)(entry_ptr table (lidx base (Suc n)) := entry))
      } else do {
        gm \<leftarrow> ensure_table getter branches (entry_ptr table (lidx base (Suc n))) gm;
        lower_table \<leftarrow> from_phys_addr (get_paddr (snd gm (entry_ptr table (lidx base (Suc n)))));
        map_offset n base acme branches leaves lower_table getter gm
      });
    if lidx base (Suc n) = 511 then Some gm
    else map_offset (Suc n) (base + 2 ^ lvl_shift (Suc n)) acme branches leaves table getter gm }"
proof -
  note s = span_uint [OF b]
  let ?k = "lvl_shift (Suc n)"
  have k: "?k < 64" "?k \<le> 39" using n by (simp_all add: lvl_shift_def)
  have u: "checked_add (acme - base) PTE_SIZE = Some (acme - base + PTE_SIZE)"
    using s(2,3) by (simp add: checked_add_code PTE_SIZE_def)
  have ua: "uint (acme - base + PTE_SIZE) = sint acme - sint base + 4096"
    using s(2,3) by (subst uint_add_eq) (simp_all add: PTE_SIZE_def)
  have v: "checked_sub (acme - base + PTE_SIZE) 1 = Some (acme - base + PTE_SIZE - 1)"
    using ua s(4) by (intro checked_sub_Some) (simp add: word_le_def)
  have "uint (acme - base + PTE_SIZE - 1) = sint acme - sint base + 4095"
    using ua s(4) by (subst uint_sub_eq) simp_all
  then have r: "(2 :: u64) ^ ?k \<le> acme - base + PTE_SIZE - 1 \<longleftrightarrow> 2 ^ ?k \<le> sint acme - sint base + 4095"
    using k by (simp add: word_le_def uint_pow2 [where 'a = 64, simplified])
  have al: "base AND (2 ^ ?k - 1) = 0 \<longleftrightarrow> base AND mask ?k = 0" by (simp add: mask_eq_exp_minus_1)
  show ?thesis
    using n b(2)
    by (subst map_offset.simps)
      (simp add: PT_LVL_def PML4_LVL_def table_index_lidx page_size_eq s(1) u v r al takes_leaf_def Let_def)
qed

lemma map_offset_done: "n \<le> 3 \<Longrightarrow> \<not> base <s acme \<Longrightarrow>
  map_offset (Suc n) base acme branches leaves table getter gm = Some gm"
  by (subst map_offset.simps) (simp add: PT_LVL_def PML4_LVL_def)

lemma sint_next:
  fixes base acme :: ptr
  assumes "- (2 ^ 47) \<le> sint base" "base <s acme" "sint acme \<le> 2 ^ 47" "n \<le> 3"
  shows "sint (base + 2 ^ lvl_shift (Suc n)) = sint base + 2 ^ lvl_shift (Suc n)"
proof -
  have lt: "sint base < sint acme" using assms(2) by (simp add: word_sless_alt)
  have k: "lvl_shift (Suc n) \<le> 39" using assms(4) by (simp add: lvl_shift_def)
  have p: "sint (2 ^ lvl_shift (Suc n) :: u64) = 2 ^ lvl_shift (Suc n)" using k by (intro sint_pow2) simp
  have "(2 :: int) ^ lvl_shift (Suc n) \<le> 2 ^ 39" using k by (intro power_increasing) auto
  moreover have "0 < (2 :: int) ^ lvl_shift (Suc n)" by simp
  ultimately show ?thesis using assms(1,3) lt p by (subst sint_add_eq) (simp_all del: zero_less_power)
qed

text \<open>The entries that the loop writes.\<close>

lemma bit_flags: "bit (128 :: int) m \<longleftrightarrow> m = 7" "bit (4096 :: int) m \<longleftrightarrow> m = 12"
proof -
  have "(128 :: int) = 2 ^ 7" "(4096 :: int) = 2 ^ 12" by simp_all
  then show "bit (128 :: int) m \<longleftrightarrow> m = 7" "bit (4096 :: int) m \<longleftrightarrow> m = 12"
    by (simp_all only: bit_exp_iff) auto
qed

lemma leaf_entry_ok:
  assumes "n \<le> 2" "is_table p" "p AND mask (lvl_shift (Suc n)) = 0" "leaves AND BASE_MASK = 0"
  shows "\<exists>e. leaf_entry (Suc n) p leaves = Some e \<and> present e \<and> is_leaf (Suc n) e \<and>
    e AND BASE_MASK AND NOT (mask (lvl_shift (Suc n))) = p"
proof -
  let ?e0 = "1 OR p OR leaves"
  let ?e = "if n \<noteq> 0 then (if bit ?e0 7 then ?e0 OR push_bit 12 1 else ?e0 OR push_bit 7 1) else ?e0"
  have c: "contains w (128 :: u64) \<longleftrightarrow> bit w 7" for w :: u64
    using contains_bit [of 7 w] by simp
  have "leaf_entry (Suc n) p leaves = Some ?e"
    using assms(2) by (simp add: leaf_entry_def from_paddr_def is_table_def PT_LVL_def c)
  moreover have "present ?e" by (simp add: present_def bit_simps)
  moreover have "is_leaf (Suc n) ?e" using assms(1) by (auto simp: is_leaf_def bit_simps)
  moreover have "?e AND BASE_MASK AND NOT (mask (lvl_shift (Suc n))) = p"
  proof (rule bit_word_eqI)
    fix m assume "m < LENGTH(64)"
    have "\<not> bit (leaves AND BASE_MASK) m" "\<not> bit (p AND mask (lvl_shift (Suc n))) m"
      using assms(3,4) by simp_all
    moreover have "bit p m \<Longrightarrow> 12 \<le> m \<and> m < 52" using assms(2) by (simp add: is_table_iff)
    ultimately show "bit (?e AND BASE_MASK AND NOT (mask (lvl_shift (Suc n)))) m = bit p m"
      using \<open>m < LENGTH(64)\<close> by (auto simp: bit_simps bit_BASE_MASK lvl_shift_def bit_flags)
  qed
  ultimately show ?thesis by blast
qed

lemma branch_entry_ok:
  assumes "is_table q" "branches AND BASE_MASK = 0" "\<not> bit branches 7" "n \<noteq> 0"
  shows "present (pte_bits PTE_P OR q OR branches)" "\<not> is_leaf (Suc n) (pte_bits PTE_P OR q OR branches)"
    "(pte_bits PTE_P OR q OR branches) AND BASE_MASK = q"
proof -
  show "present (pte_bits PTE_P OR q OR branches)" by (simp add: present_def bit_simps)
  show "\<not> is_leaf (Suc n) (pte_bits PTE_P OR q OR branches)"
    using assms by (auto simp: is_leaf_def bit_simps is_table_iff)
  show "(pte_bits PTE_P OR q OR branches) AND BASE_MASK = q"
  proof (rule bit_word_eqI)
    fix m assume "m < LENGTH(64)"
    have "\<not> bit (branches AND BASE_MASK) m" using assms(2) by simp
    moreover have "bit q m \<Longrightarrow> 12 \<le> m \<and> m < 52" using assms(1) by (simp add: is_table_iff)
    ultimately show "bit ((pte_bits PTE_P OR q OR branches) AND BASE_MASK) m = bit q m"
      using \<open>m < LENGTH(64)\<close> by (auto simp: bit_simps bit_BASE_MASK)
  qed
qed

section \<open>The contract of a page getter\<close>

text \<open>The states a page getter goes through, and the event that it has no page left.\<close>

inductive getter_steps :: "'g page_getter \<Rightarrow> 'g \<Rightarrow> 'g \<Rightarrow> bool" for getter where
  steps_refl: "getter_steps getter g g"
| steps_get: "getter_steps getter g g' \<Longrightarrow> getter g' sz = Some (p, g'') \<Longrightarrow> getter_steps getter g g''"

lemma getter_steps_trans:
  "getter_steps getter g' g'' \<Longrightarrow> getter_steps getter g g' \<Longrightarrow> getter_steps getter g g''"
proof (induction rule: getter_steps.induct)
  case (steps_get g0 g1 sz p g2)
  from getter_steps.steps_get [OF steps_get.IH [OF steps_get.prems] steps_get.hyps(2)] show ?case .
qed

definition starved :: "('g \<Rightarrow> usize \<Rightarrow> bool) \<Rightarrow> 'g page_getter \<Rightarrow> 'g \<Rightarrow> bool" where
  "starved fits getter g \<longleftrightarrow>
     (\<exists>g' sz. getter_steps getter g g' \<and> sz \<in> {PTE_SIZE, PDE_SIZE, PDPTE_SIZE} \<and> \<not> fits g' sz)"

lemma starved_later: "getter_steps getter g g' \<Longrightarrow> starved fits getter g' \<Longrightarrow> starved fits getter g"
  unfolding starved_def by (elim exE conjE) (intro exI conjI, rule getter_steps_trans)

text \<open>
  A page getter hands out pages of the requested size, aligned to it, from a set of frames, and
  never the same frame twice. While \<open>fits\<close> holds it does not panic.
\<close>

locale page_source =
  fixes getter :: "'g page_getter"
    and good :: "'g \<Rightarrow> bool"
    and avail :: "'g \<Rightarrow> u64 set"
    and fits :: "'g \<Rightarrow> usize \<Rightarrow> bool"
  assumes page: "good g \<Longrightarrow> n \<le> 2 \<Longrightarrow> getter g (2 ^ lvl_shift (Suc n)) = Some (p, g') \<Longrightarrow>
      good g' \<and> is_table p \<and> p AND mask (lvl_shift (Suc n)) = 0 \<and>
      block_frames p (lvl_shift (Suc n)) \<subseteq> avail g \<and>
      avail g' = avail g - block_frames p (lvl_shift (Suc n))"
    and progress: "good g \<Longrightarrow> n \<le> 2 \<Longrightarrow> fits g (2 ^ lvl_shift (Suc n)) \<Longrightarrow> getter g (2 ^ lvl_shift (Suc n)) \<noteq> None"
begin

definition outcome :: "nat \<Rightarrow> u64 \<Rightarrow> int \<Rightarrow> int set \<Rightarrow> 'g \<Rightarrow> table_mem \<Rightarrow> ('g \<times> table_mem) option \<Rightarrow> bool" where
  "outcome lvl t r S g m res = (case res of
      None \<Rightarrow> starved fits getter g
    | Some (g', m') \<Rightarrow> good g' \<and> getter_steps getter g g' \<and>
        map_effect lvl t r S (avail g) (phys m) (avail g') (phys m'))"

definition ready :: "nat \<Rightarrow> u64 \<Rightarrow> 'g \<Rightarrow> table_mem \<Rightarrow> bool" where
  "ready lvl t g m \<longleftrightarrow> is_table t \<and> good g \<and> distinct (tables_of (phys m) lvl t) \<and>
     avail g \<inter> set (tables_of (phys m) lvl t) = {}"

lemma ready_after:
  "ready lvl t g m \<Longrightarrow> good g' \<Longrightarrow> map_effect lvl t r S (avail g) (phys m) (avail g') (phys m') \<Longrightarrow> ready lvl t g' m'"
  unfolding ready_def by (auto dest: map_effectD(1,3,4))

lemma outcome_then:
  assumes "outcome lvl t r S g m res"
    and "\<And>g' m'. res = Some (g', m') \<Longrightarrow> good g' \<Longrightarrow> getter_steps getter g g' \<Longrightarrow>
       map_effect lvl t r S (avail g) (phys m) (avail g') (phys m') \<Longrightarrow> outcome lvl t r S' g' m' (f (g', m'))"
  shows "outcome lvl t r (S \<union> S') g m (res \<bind> f)"
proof (cases res)
  case None
  then show ?thesis using assms(1) by (simp add: outcome_def)
next
  case (Some gm)
  obtain g' m' where gm: "gm = (g', m')" by (cases gm)
  have 1: "good g'" "getter_steps getter g g'"
    "map_effect lvl t r S (avail g) (phys m) (avail g') (phys m')"
    using assms(1) by (simp_all add: outcome_def Some gm)
  from assms(2) [OF _ this] have 2: "outcome lvl t r S' g' m' (f (g', m'))" using Some gm by simp
  show ?thesis
  proof (cases "f (g', m')")
    case None
    with 2 have "starved fits getter g'" by (simp add: outcome_def)
    then have "starved fits getter g" by (rule starved_later [OF 1(2)])
    then show ?thesis using None by (simp add: outcome_def Some gm)
  next
    case (Some gm')
    obtain g'' m'' where gm': "gm' = (g'', m'')" by (cases gm')
    have 3: "good g''" "getter_steps getter g' g''"
      "map_effect lvl t r S' (avail g') (phys m') (avail g'') (phys m'')"
      using 2 by (simp_all add: outcome_def Some gm')
    show ?thesis
      using 3(1) getter_steps_trans [OF 3(2) 1(2)] map_effect_trans [OF 1(3) 3(3)]
      by (simp add: outcome_def \<open>res = Some gm\<close> gm Some gm')
  qed
qed

lemma size_cases: "n \<le> 2 \<Longrightarrow> (2 :: u64) ^ lvl_shift (Suc n) \<in> {PTE_SIZE, PDE_SIZE, PDPTE_SIZE}"
proof -
  assume "n \<le> 2"
  then consider "n = 0" | "n = 1" | "n = 2" by linarith
  then show ?thesis by cases (simp_all add: lvl_shift_def PTE_SIZE_def PDE_SIZE_def PDPTE_SIZE_def)
qed

lemma no_page_starved: "good g \<Longrightarrow> n \<le> 2 \<Longrightarrow> getter g (2 ^ lvl_shift (Suc n)) = None \<Longrightarrow> starved fits getter g"
  unfolding starved_def
  by (intro exI [of _ g] exI [of _ "2 ^ lvl_shift (Suc n)"] conjI steps_refl size_cases)
    (use progress [of g n] in auto)

lemma leaf_outcome:
  assumes r: "ready (Suc n) t g m" and n: "n \<le> 2" and lv: "leaves AND BASE_MASK = 0"
  shows "outcome (Suc n) t (vpn b div 512 ^ Suc n) {x. x div 512 ^ n = vpn b div 512 ^ n} g m (do {
     (page, g') \<leftarrow> getter g (2 ^ lvl_shift (Suc n));
     entry \<leftarrow> leaf_entry (Suc n) page leaves;
     Some (g', m(entry_ptr (t + PHYS_LADDR_OFFSET) (lidx b (Suc n)) := entry)) })"
proof (cases "getter g (2 ^ lvl_shift (Suc n))")
  case None
  then show ?thesis using r no_page_starved [of g n] n by (simp add: outcome_def ready_def)
next
  case (Some pg)
  obtain q g' where pg: "pg = (q, g')" by (cases pg)
  have g: "good g'" "is_table q" "q AND mask (lvl_shift (Suc n)) = 0"
    "block_frames q (lvl_shift (Suc n)) \<subseteq> avail g" "avail g' = avail g - block_frames q (lvl_shift (Suc n))"
    using page [of g n q g'] r n Some pg by (simp_all add: ready_def)
  obtain e where e: "leaf_entry (Suc n) q leaves = Some e" "present e" "is_leaf (Suc n) e"
    "e AND BASE_MASK AND NOT (mask (lvl_shift (Suc n))) = q"
    using leaf_entry_ok [OF n g(2,3) lv] by blast
  have "map_effect (Suc n) t (vpn b div 512 ^ Suc n) {x. x div 512 ^ n = vpn b div 512 ^ n} (avail g) (phys m)
      (avail g') ((phys m)(entry_addr t b (Suc n) := e))"
    by (rule map_effect_leaf [OF _ _ _ _ refl e(2,3,4) g(3)]) (use r n g(4,5) in \<open>auto simp: ready_def\<close>)
  moreover have "getter_steps getter g g'" using steps_get [OF steps_refl] Some pg by metis
  ultimately show ?thesis using g(1) e(1) by (simp add: outcome_def Some pg phys_upd)
qed

lemma table_outcome:
  assumes r: "ready (Suc n) t g m" and n: "n \<le> 3" "n \<noteq> 0" and br: "branches AND BASE_MASK = 0" "\<not> bit branches 7"
  shows "outcome (Suc n) t (vpn b div 512 ^ Suc n) {} g m
    (ensure_table getter branches (entry_ptr (t + PHYS_LADDR_OFFSET) (lidx b (Suc n))) (g, m))"
    "ensure_table getter branches (entry_ptr (t + PHYS_LADDR_OFFSET) (lidx b (Suc n))) (g, m) = Some (g', m') \<Longrightarrow>
     present (phys m' (entry_addr t b (Suc n)))"
proof -
  let ?a = "entry_addr t b (Suc n)"
  have c: "contains w (pte_bits PTE_P) \<longleftrightarrow> present w" for w using contains_bit [of 0 w] by (simp add: present_def)
  have 4096: "PTE_SIZE = 2 ^ lvl_shift (Suc 0)" by (simp add: PTE_SIZE_def lvl_shift_def)
  have "outcome (Suc n) t (vpn b div 512 ^ Suc n) {} g m
      (ensure_table getter branches (entry_ptr (t + PHYS_LADDR_OFFSET) (lidx b (Suc n))) (g, m)) \<and>
    (\<forall>g' m'. ensure_table getter branches (entry_ptr (t + PHYS_LADDR_OFFSET) (lidx b (Suc n))) (g, m) = Some (g', m') \<longrightarrow>
     present (phys m' ?a))"
  proof (cases "present (phys m ?a)")
    case True
    then show ?thesis using r map_effect_refl [of "phys m" "Suc n" t]
      by (simp add: ensure_table_def c phys_entry outcome_def ready_def steps_refl del: pte_bits.simps)
  next
    case False
    note E = ensure_table_def [of getter branches "entry_ptr (t + PHYS_LADDR_OFFSET) (lidx b (Suc n))"]
    show ?thesis
    proof (cases "getter g PTE_SIZE")
      case None
      then show ?thesis using False r no_page_starved [of g 0] unfolding 4096
        by (simp add: E c phys_entry outcome_def ready_def 4096 del: pte_bits.simps)
    next
      case (Some pg)
      obtain q g' where pg: "pg = (q, g')" by (cases pg)
      have g: "good g'" "is_table q" "block_frames q 12 \<subseteq> avail g" "avail g' = avail g - block_frames q 12"
        using page [of g 0 q g'] r Some pg by (simp_all add: ready_def 4096 lvl_shift_def)
      have q: "q \<in> block_frames q 12" using g(2) frame_table [OF g(2)] by (simp add: block_frames_def frame_def)
      let ?e = "pte_bits PTE_P OR q OR branches"
      note e = branch_entry_ok [OF g(2) br n(2)]
      have "map_effect (Suc n) t (vpn b div 512 ^ Suc n) {} (avail g) (phys m) (avail g')
          ((zero_table q (phys m))(?a := ?e))"
        by (rule map_effect_table [where e = ?e and q = q])
          (use r n False e g(2,3,4) q in \<open>auto simp: ready_def simp del: pte_bits.simps\<close>)
      moreover have "getter_steps getter g g'" using steps_get [OF steps_refl] Some pg by metis
      moreover have "from_paddr q = Some q" using g(2) by (simp add: from_paddr_def is_table_def)
      ultimately show ?thesis using False g(1) e(1) from_phys_addr_table [OF g(2)]
        by (simp add: E c phys_entry outcome_def Some pg phys_upd phys_zero del: pte_bits.simps)
    qed
  qed
  then show "outcome (Suc n) t (vpn b div 512 ^ Suc n) {} g m
    (ensure_table getter branches (entry_ptr (t + PHYS_LADDR_OFFSET) (lidx b (Suc n))) (g, m))"
    "ensure_table getter branches (entry_ptr (t + PHYS_LADDR_OFFSET) (lidx b (Suc n))) (g, m) = Some (g', m') \<Longrightarrow>
     present (phys m' (entry_addr t b (Suc n)))" by blast+
qed

end

context page_source
begin

lemma ready_sub:
  assumes r: "ready (Suc n) t g m" and e: "present (phys m (entry_addr t b (Suc n)))"
    "\<not> is_leaf (Suc n) (phys m (entry_addr t b (Suc n)))"
  shows "ready n (phys m (entry_addr t b (Suc n)) AND BASE_MASK) g m"
proof -
  have s: "sub_tables (phys m) n t (unat (lidx b (Suc n))) = tables_of (phys m) n (phys m (entry_addr t b (Suc n)) AND BASE_MASK)"
    using sub_tables_entry [of "phys m" t b n] e by simp
  have "distinct (sub_tables (phys m) n t (unat (lidx b (Suc n))))"
    using r unat_lidx [of b "Suc n"] unfolding ready_def tables_distinct by blast
  then show ?thesis
    using r s sub_tables_subset [OF unat_lidx, of "phys m" n t b "Suc n"] unfolding ready_def by auto
qed

lemma outcome_lift:
  assumes "ready (Suc n) t g m" "n \<le> 3" "present (phys m (entry_addr t b (Suc n)))"
    "\<not> is_leaf (Suc n) (phys m (entry_addr t b (Suc n)))"
    "outcome n (phys m (entry_addr t b (Suc n)) AND BASE_MASK) (vpn b div 512 ^ n) (covered n b acme) g m res"
  shows "outcome (Suc n) t (vpn b div 512 ^ Suc n) (covered n b acme) g m res"
proof (cases res)
  case (Some gm)
  obtain g' m' where gm: "gm = (g', m')" by (cases gm)
  have "map_effect (Suc n) t (vpn b div 512 ^ Suc n) (covered n b acme) (avail g) (phys m) (avail g') (phys m')"
    by (rule map_effect_lift [where s = "phys m (entry_addr t b (Suc n)) AND BASE_MASK"])
      (use assms covered_region [of _ n b acme] in \<open>simp_all add: ready_def outcome_def Some gm\<close>)
  then show ?thesis using assms(5) by (simp add: outcome_def Some gm)
qed (use assms(5) in \<open>simp add: outcome_def\<close>)

lemma no_huge_sub:
  assumes "no_huge W (Suc n) t l" "n \<noteq> 0" "present (W (entry_addr t b (Suc n)))"
    "unat (lidx l (Suc n)) = unat (lidx b (Suc n))"
  shows "\<not> is_leaf (Suc n) (W (entry_addr t b (Suc n)))" "no_huge W n (W (entry_addr t b (Suc n)) AND BASE_MASK) l"
proof -
  have "entry_addr t l (Suc n) = entry_addr t b (Suc n)" using assms(4) by (metis nth_entry)
  then show "\<not> is_leaf (Suc n) (W (entry_addr t b (Suc n)))" "no_huge W n (W (entry_addr t b (Suc n)) AND BASE_MASK) l"
    using assms(1-3) by (simp_all add: Let_def)
qed

text \<open>A branch: the table below is made if it is missing, then the level below does the work.\<close>

lemma branch_outcome:
  assumes IH: "\<And>t g m. ready n t g m \<Longrightarrow> (\<And>l. vpn l \<in> covered n base acme \<Longrightarrow> no_huge (phys m) n t l) \<Longrightarrow>
      outcome n t (vpn base div 512 ^ n) (covered n base acme) g m
        (map_offset n base acme branches leaves (t + PHYS_LADDR_OFFSET) getter (g, m))"
    and n: "n \<le> 3" "n \<noteq> 0" and br: "branches AND BASE_MASK = 0" "\<not> bit branches 7"
    and r: "ready (Suc n) t g m"
    and h: "\<And>l. vpn l \<in> insert (vpn base) (covered n base acme) \<Longrightarrow> no_huge (phys m) (Suc n) t l"
  shows "outcome (Suc n) t (vpn base div 512 ^ Suc n) (covered n base acme) g m (do {
     gm \<leftarrow> ensure_table getter branches (entry_ptr (t + PHYS_LADDR_OFFSET) (lidx base (Suc n))) (g, m);
     lower_table \<leftarrow> from_phys_addr (get_paddr (snd gm (entry_ptr (t + PHYS_LADDR_OFFSET) (lidx base (Suc n)))));
     map_offset n base acme branches leaves lower_table getter gm })"
    (is "outcome _ _ ?r _ _ _ (?E \<bind> ?f)")
proof -
  have "outcome (Suc n) t ?r ({} \<union> covered n base acme) g m (?E \<bind> ?f)"
  proof (rule outcome_then [OF table_outcome(1) [OF r n br]])
    fix g' m'
    assume E: "?E = Some (g', m')" and g': "good g'"
      and eff: "map_effect (Suc n) t ?r {} (avail g) (phys m) (avail g') (phys m')"
    let ?e = "phys m' (entry_addr t base (Suc n))"
    have r': "ready (Suc n) t g' m'" by (rule ready_after [OF r g' eff])
    have p: "present ?e" by (rule table_outcome(2) [OF r n br E])
    have h': "no_huge (phys m') (Suc n) t l"
      if "vpn l \<in> insert (vpn base) (covered n base acme)" "vpn l div 512 ^ Suc n = ?r" for l
      using map_effectD(6) [OF eff that(2)] h [OF that(1)] by simp
    have nl: "\<not> is_leaf (Suc n) ?e" by (rule no_huge_sub(1) [OF h' [of base] n(2) p]) simp_all
    have D: "y div 512 ^ Suc n = y div 512 ^ n div 512" for y :: int
      using zdiv_zmult2_eq [of 512 y "512 ^ n"] by (simp add: mult.commute)
    have "outcome n (?e AND BASE_MASK) (vpn base div 512 ^ n) (covered n base acme) g' m'
        (map_offset n base acme branches leaves ((?e AND BASE_MASK) + PHYS_LADDR_OFFSET) getter (g', m'))"
    proof (rule IH [OF ready_sub [OF r' p nl]])
      fix l assume l: "vpn l \<in> covered n base acme"
      then have d: "vpn l div 512 ^ n = vpn base div 512 ^ n" by (rule covered_region)
      then have d': "vpn l div 512 ^ Suc n = ?r" by (simp only: D)
      have "unat (lidx l (Suc n)) = unat (lidx base (Suc n))" using same_index [OF n(1) d'] d by simp
      then show "no_huge (phys m') n (?e AND BASE_MASK) l"
        using no_huge_sub(2) [OF h' [OF _ d'] n(2) p] l by simp
    qed
    then have "outcome (Suc n) t ?r (covered n base acme) g' m'
        (map_offset n base acme branches leaves ((?e AND BASE_MASK) + PHYS_LADDR_OFFSET) getter (g', m'))"
      by (rule outcome_lift [OF r' n(1) p nl])
    then show "outcome (Suc n) t ?r (covered n base acme) g' m' (?f (g', m'))"
      by (simp add: phys_entry get_paddr_def from_phys_addr_table)
  qed
  then show ?thesis by simp
qed

text \<open>The rounds of the loop, given what one round does, by induction on the entries that are left.\<close>

definition round_pages :: "nat \<Rightarrow> ptr \<Rightarrow> ptr \<Rightarrow> int set" where
  "round_pages n base acme =
     (if takes_leaf (Suc n) base acme then {x. x div 512 ^ n = vpn base div 512 ^ n} else covered n base acme)"

definition map_round :: "nat \<Rightarrow> ptr \<Rightarrow> ptr \<Rightarrow> pte \<Rightarrow> pte \<Rightarrow> ptr \<Rightarrow> 'g \<times> table_mem \<Rightarrow> ('g \<times> table_mem) option" where
  "map_round n base acme branches leaves table gm =
     (if takes_leaf (Suc n) base acme then do {
        (page, g) \<leftarrow> getter (fst gm) (2 ^ lvl_shift (Suc n));
        entry \<leftarrow> leaf_entry (Suc n) page leaves;
        Some (g, (snd gm)(entry_ptr table (lidx base (Suc n)) := entry))
      } else do {
        gm \<leftarrow> ensure_table getter branches (entry_ptr table (lidx base (Suc n))) gm;
        lower_table \<leftarrow> from_phys_addr (get_paddr (snd gm (entry_ptr table (lidx base (Suc n)))));
        map_offset n base acme branches leaves lower_table getter gm
      })"

lemma loop_outcome:
  assumes n: "n \<le> 3"
    and round: "\<And>base g m. ready (Suc n) t g m \<Longrightarrow> - (2 ^ 47) \<le> sint base \<Longrightarrow> base <s acme \<Longrightarrow>
      (\<And>l. vpn l \<in> covered (Suc n) base acme \<Longrightarrow> no_huge (phys m) (Suc n) t l) \<Longrightarrow>
      outcome (Suc n) t (vpn base div 512 ^ Suc n) (round_pages n base acme) g m
        (map_round n base acme branches leaves (t + PHYS_LADDR_OFFSET) (g, m))"
    and "ready (Suc n) t g m" "- (2 ^ 47) \<le> sint base" and acme: "sint acme \<le> 2 ^ 47"
    and "\<And>l. vpn l \<in> covered (Suc n) base acme \<Longrightarrow> no_huge (phys m) (Suc n) t l"
  shows "outcome (Suc n) t (vpn base div 512 ^ Suc n) (covered (Suc n) base acme) g m
    (map_offset (Suc n) base acme branches leaves (t + PHYS_LADDR_OFFSET) getter (g, m))"
  using assms(3,4,6)
proof (induction "nat (512 - uint (lidx base (Suc n)))" arbitrary: base g m rule: less_induct)
  case less
  let ?lvl = "Suc n" and ?nxt = "base + 2 ^ lvl_shift (Suc n)"
  show ?case
  proof (cases "base <s acme")
    case False
    then have "covered ?lvl base acme = {}" using covered_nonempty by blast
    then show ?thesis
      using less.prems(1) map_effect_refl [of "phys m" ?lvl t]
      by (simp add: outcome_def ready_def steps_refl map_offset_done [OF n False])
  next
    case True
    let ?rest = "\<lambda>gm. if lidx base ?lvl = 511 then Some gm
      else map_offset ?lvl ?nxt acme branches leaves (t + PHYS_LADDR_OFFSET) getter gm"
    let ?S = "if lidx base ?lvl = 511 then {} else covered ?lvl ?nxt acme"
    have cov: "covered ?lvl base acme = round_pages n base acme \<union> ?S"
      by (rule set_eqI) (simp add: covered_iff [OF n True] round_pages_def)
    have "outcome ?lvl t (vpn base div 512 ^ ?lvl) (round_pages n base acme \<union> ?S) g m
        (map_round n base acme branches leaves (t + PHYS_LADDR_OFFSET) (g, m) \<bind> ?rest)"
    proof (rule outcome_then [OF round [OF less.prems(1,2) True less.prems(3)]])
      fix g' m'
      assume g': "good g'" and eff: "map_effect ?lvl t (vpn base div 512 ^ ?lvl) (round_pages n base acme)
          (avail g) (phys m) (avail g') (phys m')"
      have r': "ready ?lvl t g' m'" by (rule ready_after [OF less.prems(1) g' eff])
      show "outcome ?lvl t (vpn base div 512 ^ ?lvl) ?S g' m' (?rest (g', m'))"
      proof (cases "lidx base ?lvl = 511")
        case True
        then show ?thesis
          using r' map_effect_refl [of "phys m'" ?lvl t] by (simp add: outcome_def ready_def steps_refl)
      next
        case False
        note v = vpn_next_div [OF n False]
        have "outcome ?lvl t (vpn ?nxt div 512 ^ ?lvl) (covered ?lvl ?nxt acme) g' m'
            (map_offset ?lvl ?nxt acme branches leaves (t + PHYS_LADDR_OFFSET) getter (g', m'))"
        proof (rule less.hyps [OF _ r'])
          show "nat (512 - uint (lidx ?nxt ?lvl)) < nat (512 - uint (lidx base ?lvl))"
            using lidx_grows [OF False] n lidx_less [of base ?lvl] lidx_less [of ?nxt ?lvl] by simp
          show "- (2 ^ 47) \<le> sint ?nxt"
            using sint_next [OF less.prems(2) True acme n] less.prems(2) by (simp add: add_increasing2)
          fix l assume l: "vpn l \<in> covered ?lvl ?nxt acme"
          have "vpn base div 512 ^ n < vpn l div 512 ^ n" using covered_ge [OF l] v(1) by simp
          then have "vpn l \<notin> round_pages n base acme"
            using covered_region [of "vpn l" n base acme] by (auto simp: round_pages_def split: if_splits)
          moreover have "vpn l div 512 ^ ?lvl = vpn base div 512 ^ ?lvl" using covered_region [OF l] v(2) by simp
          ultimately have "no_huge (phys m') ?lvl t l = no_huge (phys m) ?lvl t l"
            using map_effectD(6) [OF eff] by blast
          then show "no_huge (phys m') ?lvl t l" using less.prems(3) [of l] l cov False by simp
        qed
        then show ?thesis using False v(2) by simp
      qed
    qed
    then show ?thesis
      unfolding cov map_offset_step [OF n less.prems(2) True acme] map_round_def fst_conv snd_conv .
  qed
qed

lemma map_offset_outcome:
  assumes "n \<le> 3" "ready (Suc n) t g m" "- (2 ^ 47) \<le> sint base" and acme: "sint acme \<le> 2 ^ 47"
    and br: "branches AND BASE_MASK = 0" "\<not> bit branches 7" and lv: "leaves AND BASE_MASK = 0"
    and "\<And>l. vpn l \<in> covered (Suc n) base acme \<Longrightarrow> no_huge (phys m) (Suc n) t l"
  shows "outcome (Suc n) t (vpn base div 512 ^ Suc n) (covered (Suc n) base acme) g m
    (map_offset (Suc n) base acme branches leaves (t + PHYS_LADDR_OFFSET) getter (g, m))"
  using assms(1-3,8)
proof (induction n arbitrary: t g m base)
  case 0
  show ?case
  proof (rule loop_outcome [OF 0(1) _ 0(2,3) acme 0(4)])
    fix b g m
    assume "ready (Suc 0) t g m"
    then show "outcome (Suc 0) t (vpn b div 512 ^ Suc 0) (round_pages 0 b acme) g m
        (map_round 0 b acme branches leaves (t + PHYS_LADDR_OFFSET) (g, m))"
      using leaf_outcome [of 0 t g m leaves b] lv by (simp add: map_round_def round_pages_def takes_leaf_def)
  qed
next
  case (Suc n)
  show ?case
  proof (rule loop_outcome [OF Suc.prems(1) _ Suc.prems(2,3) acme Suc.prems(4)])
    fix b g m
    assume b: "ready (Suc (Suc n)) t g m" "- (2 ^ 47) \<le> sint b" "b <s acme"
      and h: "\<And>l. vpn l \<in> covered (Suc (Suc n)) b acme \<Longrightarrow> no_huge (phys m) (Suc (Suc n)) t l"
    show "outcome (Suc (Suc n)) t (vpn b div 512 ^ Suc (Suc n)) (round_pages (Suc n) b acme) g m
        (map_round (Suc n) b acme branches leaves (t + PHYS_LADDR_OFFSET) (g, m))"
    proof (cases "takes_leaf (Suc (Suc n)) b acme")
      case True
      then have "Suc n \<le> 2" by (simp add: takes_leaf_def)
      from leaf_outcome [OF b(1) this lv, of b] True show ?thesis
        by (simp add: map_round_def round_pages_def)
    next
      case False
      have "outcome (Suc (Suc n)) t (vpn b div 512 ^ Suc (Suc n)) (covered (Suc n) b acme) g m (do {
          gm \<leftarrow> ensure_table getter branches (entry_ptr (t + PHYS_LADDR_OFFSET) (lidx b (Suc (Suc n)))) (g, m);
          lower_table \<leftarrow> from_phys_addr (get_paddr (snd gm (entry_ptr (t + PHYS_LADDR_OFFSET) (lidx b (Suc (Suc n))))));
          map_offset (Suc n) b acme branches leaves lower_table getter gm })"
      proof (rule branch_outcome [OF _ Suc.prems(1) _ br b(1)])
        fix t g m
        assume "ready (Suc n) t g m" "\<And>l. vpn l \<in> covered (Suc n) b acme \<Longrightarrow> no_huge (phys m) (Suc n) t l"
        then show "outcome (Suc n) t (vpn b div 512 ^ Suc n) (covered (Suc n) b acme) g m
            (map_offset (Suc n) b acme branches leaves (t + PHYS_LADDR_OFFSET) getter (g, m))"
          using Suc.IH [of t g m b] Suc.prems(1) b(2) by simp
      next
        fix l assume "vpn l \<in> insert (vpn b) (covered (Suc n) b acme)"
        then have "vpn l \<in> covered (Suc (Suc n)) b acme"
        proof (elim insertE)
          assume "vpn l \<in> covered (Suc n) b acme"
          then show ?thesis using covered_iff [OF Suc.prems(1) b(3), of "vpn l"] False by simp
        qed (simp add: covered_base [OF b(3) Suc.prems(1)])
        then show "no_huge (phys m) (Suc (Suc n)) t l" by (rule h)
      qed simp
      then show ?thesis using False by (simp add: map_round_def round_pages_def)
    qed
  qed
qed

end

end
