(* ===== verification/Memm_Span.thy ===== *)
theory Memm_Span
  imports Memm_Correct
begin

text \<open>
  Which pages \<open>map_offset\<close> covers: the whole span when every level at which the span crosses from
  one entry to the next is one whose entry size the base is aligned to; otherwise pages are left out.
\<close>

lemma and_mask_dvd: "b AND mask k = 0 \<longleftrightarrow> 2 ^ k dvd uint b" for b :: u64
proof -
  have "b AND mask k = 0 \<longleftrightarrow> uint (take_bit k b) = 0" by (simp only: take_bit_eq_mask uint_0_iff)
  also have "uint (take_bit k b) = uint b mod 2 ^ k" by (simp add: unsigned_take_bit_eq) (simp add: take_bit_eq_mod)
  finally show ?thesis by (simp add: dvd_eq_mod_eq_0)
qed

lemma page_aligned_next:
  fixes base :: ptr
  assumes "base AND mask 12 = 0" "n \<le> 3"
  shows "(base + 2 ^ lvl_shift (Suc n)) AND mask 12 = 0"
proof -
  have k: "lvl_shift (Suc n) < 64" "12 \<le> lvl_shift (Suc n)" using assms(2) by (simp_all add: lvl_shift_def)
  have "(2 :: int) ^ 12 dvd uint base + 2 ^ lvl_shift (Suc n)"
    using assms(1) k(2) unfolding and_mask_dvd by (intro dvd_add le_imp_power_dvd) simp_all
  then have "(2 :: int) ^ 12 dvd (uint base + 2 ^ lvl_shift (Suc n)) mod 2 ^ 64"
    by (rule dvd_mod) (rule le_imp_power_dvd, simp)
  moreover have "uint (base + 2 ^ lvl_shift (Suc n)) = (uint base + 2 ^ lvl_shift (Suc n)) mod 2 ^ 64"
    using k(1) by (simp add: uint_word_ariths take_bit_eq_mod uint_pow2 [where 'a = 64, simplified])
  ultimately show ?thesis unfolding and_mask_dvd by simp
qed

lemma aligned_vpn:
  assumes "base AND mask 12 = 0" "n \<le> 2"
  shows "base AND mask (lvl_shift (Suc n)) = 0 \<longleftrightarrow> 512 ^ n dvd vpn base"
proof -
  note m = and_mask_dvd
  define u where "u = uint base div 2 ^ 12"
  have u: "uint base = 2 ^ 12 * u" using assms(1) unfolding m u_def by simp
  define q where "q = (2 :: int) ^ (9 * n)"
  have q: "512 ^ n = q" "(2 :: int) ^ lvl_shift (Suc n) = 2 ^ 12 * q"
    by (simp_all add: q_def power_mult lvl_shift_def power_add mult.commute [of n 9])
  have "q dvd 2 ^ 36" unfolding q_def using assms(2) by (intro le_imp_power_dvd) simp
  then have "q dvd u mod 2 ^ 36 \<longleftrightarrow> q dvd u" by (rule dvd_mod_iff)
  moreover have "vpn base = u mod 2 ^ 36" by (simp add: vpn_def u_def)
  moreover have "(2 :: int) ^ 12 * q dvd 2 ^ 12 * u \<longleftrightarrow> q dvd u" by simp
  ultimately show ?thesis unfolding m q(2) u q(1) by simp
qed

text \<open>The end of the region of a table, and the pages of a span up to it.\<close>

definition region_end :: "nat \<Rightarrow> ptr \<Rightarrow> int" where
  "region_end lvl base = (vpn base div 512 ^ lvl + 1) * 512 ^ lvl"

definition span_pages :: "nat \<Rightarrow> ptr \<Rightarrow> int \<Rightarrow> int set" where
  "span_pages lvl base c = {vpn base ..< min (vpn base + c) (region_end lvl base)}"

lemma region_end_bounds: "vpn base < region_end lvl base"
proof -
  have "vpn base = vpn base div 512 ^ lvl * 512 ^ lvl + vpn base mod 512 ^ lvl" "vpn base mod 512 ^ lvl < 512 ^ lvl"
    by (rule div_mult_mod_eq [symmetric]) simp
  then show ?thesis unfolding region_end_def distrib_right by linarith
qed

lemma region_end_aligned: "512 ^ n dvd vpn base \<Longrightarrow> region_end n base = vpn base + 512 ^ n"
  by (auto simp: region_end_def algebra_simps)

lemma region_end_last:
  assumes "n \<le> 3" "lidx base (Suc n) = 511" "512 ^ n dvd vpn base"
  shows "region_end (Suc n) base = vpn base + 512 ^ n"
proof -
  have "uint (lidx base (Suc n)) = 511" using assms(2) by simp
  then have "vpn base div 512 ^ n mod 512 = 511" using lidx_vpn [OF refl assms(1), of base] by simp
  then have "vpn base div 512 ^ n = 512 * (vpn base div 512 ^ Suc n) + 511" using div_512_step [of "vpn base" n] by simp
  moreover have "vpn base = vpn base div 512 ^ n * 512 ^ n" using assms(3) by simp
  ultimately have "vpn base = (512 * (vpn base div 512 ^ Suc n) + 511) * 512 ^ n" by simp
  then have "vpn base + 512 ^ n = (512 * (vpn base div 512 ^ Suc n) + 512) * 512 ^ n" by (simp add: algebra_simps)
  then show ?thesis by (simp add: region_end_def algebra_simps)
qed

lemma region_end_next:
  assumes "n \<le> 3" "lidx base (Suc n) \<noteq> 511"
  shows "region_end (Suc n) (base + 2 ^ lvl_shift (Suc n)) = region_end (Suc n) base"
    "vpn base + 512 ^ n < region_end (Suc n) base"
proof -
  show e: "region_end (Suc n) (base + 2 ^ lvl_shift (Suc n)) = region_end (Suc n) base"
    unfolding region_end_def using vpn_next_div(2) [OF assms] by simp
  show "vpn base + 512 ^ n < region_end (Suc n) base"
    using region_end_bounds [of "base + 2 ^ lvl_shift (Suc n)" "Suc n"] vpn_next [OF refl assms] e by simp
qed

lemma shift_512: "(2 :: int) ^ lvl_shift (Suc n) = 4096 * 512 ^ n"
proof -
  have "(512 :: int) ^ n = 2 ^ (9 * n)" by (simp add: power_mult)
  then show ?thesis by (simp add: lvl_shift_def power_add mult.commute [of n 9])
qed

lemma div_block: "0 < q \<Longrightarrow> x div q = k \<longleftrightarrow> q * k \<le> x \<and> x < q * k + q" for x q k :: int
proof
  assume q: "0 < q" and k': "x div q = k"
  show "q * k \<le> x \<and> x < q * k + q"
    using mult_div_mod_eq [of q x, unfolded k'] pos_mod_sign [OF q, of x] pos_mod_bound [OF q, of x] by linarith
next
  assume "q * k \<le> x \<and> x < q * k + q"
  then show "x div q = k" by (intro int_div_pos_eq [where r = "x - q * k"]) simp_all
qed

lemma leaf_pages: "512 ^ n dvd b \<Longrightarrow> {x. x div 512 ^ n = b div 512 ^ n} = {b ..< b + 512 ^ n}" for b :: int
proof -
  define q where "q = (512 :: int) ^ n"
  have q: "0 < q" by (simp add: q_def)
  assume "512 ^ n dvd b"
  then obtain k where k: "b = q * k" unfolding q_def [symmetric] by (elim dvdE)
  have "q * k div q = k" using q by simp
  then show ?thesis unfolding q_def [symmetric] k by (simp add: set_eq_iff div_block [OF q])
qed

section \<open>Aligned spans\<close>

lemma round_aligned:
  assumes n: "n \<le> 3" and b: "base AND mask 12 = 0" "512 ^ n dvd vpn base"
    and c: "sint acme = sint base + 4096 * c" "0 < c"
    and low: "n \<noteq> 0 \<Longrightarrow> covered n base acme = span_pages n base c"
  shows "(if takes_leaf (Suc n) base acme then {x. x div 512 ^ n = vpn base div 512 ^ n} else covered n base acme)
    = {vpn base ..< min (vpn base + c) (vpn base + 512 ^ n)}"
proof (cases "takes_leaf (Suc n) base acme")
  case True
  have "512 ^ n \<le> c"
  proof (cases "n = 0")
    case False
    then have "2 ^ lvl_shift (Suc n) \<le> sint acme - sint base + 4095" using True by (simp add: takes_leaf_def)
    then have "4096 * 512 ^ n \<le> 4096 * c + 4095" unfolding shift_512 c(1) by simp
    then show ?thesis by linarith
  qed (use c(2) in simp)
  then show ?thesis using True by (simp add: leaf_pages [OF b(2)])
next
  case False
  then have "n \<noteq> 0" by (auto simp: takes_leaf_def)
  then show ?thesis using False low region_end_aligned [OF b(2)] by (simp add: span_pages_def)
qed

lemma interval_union: "0 < q \<Longrightarrow> 0 < c \<Longrightarrow> a + q < e \<Longrightarrow>
  {a ..< min (a + c) (a + q)} \<union> {a + q ..< min (a + c) e} = {a ..< min (a + c) e}" for a c q e :: int
  by (auto simp: min_def)

lemma covered_aligned_loop:
  assumes n: "n \<le> 3" and acme: "sint acme \<le> 2 ^ 47"
    and low: "\<And>base c. n \<noteq> 0 \<Longrightarrow> base AND mask 12 = 0 \<Longrightarrow> 512 ^ n dvd vpn base \<Longrightarrow> - (2 ^ 47) \<le> sint base \<Longrightarrow>
       sint acme = sint base + 4096 * c \<Longrightarrow> covered n base acme = span_pages n base c"
    and "base AND mask 12 = 0" "512 ^ n dvd vpn base" "- (2 ^ 47) \<le> sint base" "sint acme = sint base + 4096 * c"
  shows "covered (Suc n) base acme = span_pages (Suc n) base c"
  using assms(4-7)
proof (induction "nat (512 - uint (lidx base (Suc n)))" arbitrary: base c rule: less_induct)
  case less
  let ?nxt = "base + 2 ^ lvl_shift (Suc n)"
  show ?case
  proof (cases "0 < c")
    case False
    then have "\<not> base <s acme" using less.prems(4) by (simp add: word_sless_alt)
    then have "covered (Suc n) base acme = {}" using covered_nonempty by blast
    then show ?thesis using False by (simp add: span_pages_def)
  next
    case True
    then have lt: "base <s acme" using less.prems(4) by (simp add: word_sless_alt)
    have R: "(if takes_leaf (Suc n) base acme then {x. x div 512 ^ n = vpn base div 512 ^ n} else covered n base acme)
        = {vpn base ..< min (vpn base + c) (vpn base + 512 ^ n)}"
      by (rule round_aligned [OF n less.prems(1,2,4) True low [OF _ less.prems]])
    have C: "covered (Suc n) base acme = {vpn base ..< min (vpn base + c) (vpn base + 512 ^ n)} \<union>
        (if lidx base (Suc n) = 511 then {} else covered (Suc n) ?nxt acme)"
      unfolding R [symmetric] by (rule set_eqI) (simp add: covered_iff [OF n lt])
    show ?thesis
    proof (cases "lidx base (Suc n) = 511")
      case True
      then show ?thesis using C region_end_last [OF n True less.prems(2)] by (simp add: span_pages_def)
    next
      case False
      note v = vpn_next [OF refl n False] and e = region_end_next [OF n False]
      have si: "sint ?nxt = sint base + 4096 * 512 ^ n"
        using sint_next [OF less.prems(3) lt acme n] shift_512 [of n] by simp
      have "covered (Suc n) ?nxt acme = span_pages (Suc n) ?nxt (c - 512 ^ n)"
      proof (rule less.hyps)
        show "nat (512 - uint (lidx ?nxt (Suc n))) < nat (512 - uint (lidx base (Suc n)))"
          using lidx_grows [OF False] n lidx_less [of base "Suc n"] lidx_less [of ?nxt "Suc n"] by simp
        show "?nxt AND mask 12 = 0" by (rule page_aligned_next [OF less.prems(1) n])
        show "512 ^ n dvd vpn ?nxt" using v less.prems(2) by simp
        have "0 < (512 :: int) ^ n" by simp
        then show "- (2 ^ 47) \<le> sint ?nxt" using si less.prems(3) by linarith
        show "sint acme = sint ?nxt + 4096 * (c - 512 ^ n)" using si less.prems(4) by (simp add: algebra_simps)
      qed
      also have "\<dots> = {vpn base + 512 ^ n ..< min (vpn base + c) (region_end (Suc n) base)}"
        using e(1) v by (simp add: span_pages_def)
      finally have "covered (Suc n) base acme = {vpn base ..< min (vpn base + c) (vpn base + 512 ^ n)} \<union>
          {vpn base + 512 ^ n ..< min (vpn base + c) (region_end (Suc n) base)}"
        using C False by simp
      also have "\<dots> = span_pages (Suc n) base c"
        unfolding span_pages_def by (rule interval_union [OF _ True e(2)]) simp
      finally show ?thesis .
    qed
  qed
qed

lemma covered_aligned:
  assumes "n \<le> 3" "base AND mask 12 = 0" "512 ^ n dvd vpn base" "- (2 ^ 47) \<le> sint base"
    "sint acme = sint base + 4096 * c" and acme: "sint acme \<le> 2 ^ 47"
  shows "covered (Suc n) base acme = span_pages (Suc n) base c"
  using assms(1-5)
proof (induction n arbitrary: base c)
  case 0
  show ?case by (rule covered_aligned_loop [OF 0(1) acme _ 0(2-5)]) simp
next
  case (Suc n)
  show ?case
  proof (rule covered_aligned_loop [OF Suc.prems(1) acme _ Suc.prems(2-5)])
    fix b d
    assume h: "b AND mask 12 = 0" "512 ^ Suc n dvd vpn b" "- (2 ^ 47) \<le> sint b" "sint acme = sint b + 4096 * d"
    have "(512 :: int) ^ n dvd 512 ^ Suc n" by simp
    then have "512 ^ n dvd vpn b" using h(2) by (rule dvd_trans)
    then show "covered (Suc n) b acme = span_pages (Suc n) b d" using Suc.IH [OF _ h(1) _ h(3,4)] Suc.prems(1) by simp
  qed
qed

section \<open>Spans inside one entry\<close>

text \<open>A span that does not leave an entry that its base is not aligned to is left to the level below.\<close>

lemma covered_descend:
  assumes n: "n \<le> 3" and b: "base AND mask 12 = 0" "\<not> 512 ^ n dvd vpn base" "- (2 ^ 47) \<le> sint base"
    and a: "base <s acme" "sint acme \<le> 2 ^ 47" "sint acme \<le> sint base + 4096 * 512 ^ n"
  shows "covered (Suc n) base acme = covered n base acme"
proof -
  have "n \<noteq> 0" using b(2) by (cases n) auto
  then have nl: "\<not> takes_leaf (Suc n) base acme"
    using b(2) aligned_vpn [OF b(1), of n] by (auto simp: takes_leaf_def)
  have "\<not> base + 2 ^ lvl_shift (Suc n) <s acme"
    using sint_next [OF b(3) a(1,2) n] shift_512 [of n] a(3) by (simp add: word_sless_alt)
  then have rest: "covered (Suc n) (base + 2 ^ lvl_shift (Suc n)) acme = {}"
    using covered_nonempty by blast
  have "x \<in> covered (Suc n) base acme \<longleftrightarrow> x \<in> covered n base acme" for x
    unfolding covered_iff [OF n a(1)] rest using nl by simp
  then show ?thesis by (rule set_eqI)
qed

text \<open>With or without holes, only pages of the span are mapped.\<close>

lemma covered_span:
  assumes "x \<in> covered lvl base acme" "base AND mask 12 = 0" "- (2 ^ 47) \<le> sint base" "sint acme \<le> 2 ^ 47"
    and "sint acme = sint base + 4096 * c"
  shows "vpn base \<le> x \<and> x < vpn base + c"
  using assms
proof (induction lvl base acme arbitrary: c rule: covered.induct)
  case (1 lvl base acme)
  obtain n where n: "lvl = Suc n" "n \<le> 3" "base <s acme" using covered_nonempty [OF "1.prems"(1)] by blast
  have c: "0 < c" using n(3) "1.prems"(5) by (simp add: word_sless_alt)
  from "1.prems"(1) consider (leaf) "takes_leaf lvl base acme" "x div 512 ^ n = vpn base div 512 ^ n"
    | (low) "\<not> takes_leaf lvl base acme" "x \<in> covered n base acme"
    | (nxt) "lidx base lvl \<noteq> 511" "x \<in> covered lvl (base + 2 ^ lvl_shift lvl) acme"
    using covered_iff [OF n(2,3), of x] n(1) by (auto split: if_splits)
  then show ?case
  proof cases
    case leaf
    have "512 ^ n \<le> c \<and> 512 ^ n dvd vpn base"
    proof (cases "n = 0")
      case False
      then have "2 ^ lvl_shift (Suc n) \<le> sint acme - sint base + 4095" "base AND mask (lvl_shift (Suc n)) = 0" "n \<le> 2"
        using leaf(1) n(1) by (auto simp: takes_leaf_def)
      moreover from this(1) have "4096 * 512 ^ n \<le> 4096 * c + 4095" unfolding shift_512 "1.prems"(5) by simp
      ultimately show ?thesis using aligned_vpn [OF "1.prems"(2), of n] by auto
    qed (use c in simp)
    moreover from this have "x \<in> {vpn base ..< vpn base + 512 ^ n}" using leaf(2) leaf_pages [of n "vpn base"] by blast
    ultimately show ?thesis by auto
  next
    case low
    show ?thesis by (rule "1.IH"(1)) (use low n "1.prems" in auto)
  next
    case nxt
    let ?b = "base + 2 ^ lvl_shift lvl"
    have si: "sint ?b = sint base + 4096 * 512 ^ n"
      using sint_next [OF "1.prems"(3) n(3) "1.prems"(4) n(2)] shift_512 [of n] n(1) by simp
    have p: "0 < (512 :: int) ^ n" by simp
    have "vpn ?b \<le> x \<and> x < vpn ?b + (c - 512 ^ n)"
    proof (rule "1.IH"(2))
      show "?b AND mask 12 = 0" using page_aligned_next [OF "1.prems"(2) n(2)] n(1) by simp
      show "- (2 ^ 47) \<le> sint ?b" using si "1.prems"(3) p by linarith
      show "sint acme = sint ?b + 4096 * (c - 512 ^ n)" using si "1.prems"(5) by (simp add: algebra_simps)
    qed (use nxt n "1.prems"(4) in auto)
    then show ?thesis using vpn_next [OF n(1,2) nxt(1)] p by linarith
  qed
qed

section \<open>Spans without a hole\<close>

text \<open>
  The span of \<open>c\<close> pages crosses from one entry to the next only at levels whose entry size the
  base is aligned to.
\<close>

fun no_hole :: "nat \<Rightarrow> ptr \<Rightarrow> int \<Rightarrow> bool" where
  "no_hole 0 base c = True"
| "no_hole (Suc n) base c =
     (if vpn base div 512 ^ n = (vpn base + c - 1) div 512 ^ n then no_hole n base c else 512 ^ n dvd vpn base)"

lemma covered_no_hole:
  assumes "n \<le> 3" "base AND mask 12 = 0" "- (2 ^ 47) \<le> sint base"
    "sint acme = sint base + 4096 * c" "0 < c" and acme: "sint acme \<le> 2 ^ 47"
    and "vpn base + c \<le> region_end (Suc n) base" "no_hole (Suc n) base c"
  shows "covered (Suc n) base acme = {vpn base ..< vpn base + c}"
  using assms(1-5,7,8)
proof (induction n)
  case 0
  have "covered (Suc 0) base acme = span_pages (Suc 0) base c"
    using covered_aligned [of 0 base acme c] 0 acme by simp
  then show ?case using 0 by (simp add: span_pages_def)
next
  case (Suc n)
  show ?case
  proof (cases "512 ^ Suc n dvd vpn base")
    case True
    then have "covered (Suc (Suc n)) base acme = span_pages (Suc (Suc n)) base c"
      using covered_aligned [of "Suc n" base acme c] Suc.prems acme by simp
    then show ?thesis using Suc.prems(6) by (simp add: span_pages_def)
  next
    case False
    then have same: "vpn base div 512 ^ Suc n = (vpn base + c - 1) div 512 ^ Suc n" and nh: "no_hole (Suc n) base c"
      using Suc.prems(7) by (simp_all only: no_hole.simps(2) [of "Suc n"] split: if_splits)
    have lt: "base <s acme" using Suc.prems(4,5) by (simp add: word_sless_alt)
    have q: "0 < (512 :: int) ^ Suc n" by simp
    have "vpn base + c \<le> region_end (Suc n) base"
    proof -
      have "vpn base + c - 1 < ((vpn base + c - 1) div 512 ^ Suc n + 1) * 512 ^ Suc n"
        using region_end_bounds [of base "Suc n"] div_mult_mod_eq [of "vpn base + c - 1" "512 ^ Suc n"]
          pos_mod_bound [OF q, of "vpn base + c - 1"] unfolding distrib_right by linarith
      then show ?thesis unfolding region_end_def same by linarith
    qed
    then have low: "covered (Suc n) base acme = {vpn base ..< vpn base + c}"
      using Suc.IH Suc.prems nh by simp
    have "c \<le> 512 ^ Suc n"
      using \<open>vpn base + c \<le> region_end (Suc n) base\<close> div_mult_mod_eq [of "vpn base" "512 ^ Suc n"]
        pos_mod_sign [OF q, of "vpn base"] unfolding region_end_def distrib_right by linarith
    then have "covered (Suc (Suc n)) base acme = covered (Suc n) base acme"
      using Suc.prems(4) by (intro covered_descend [OF Suc.prems(1,2) False Suc.prems(3) lt acme]) linarith
    then show ?thesis using low by simp
  qed
qed

section \<open>Holes\<close>

text \<open>Nothing below the base of the span is covered.\<close>

lemma covered_ge_base:
  "x \<in> covered lvl base acme \<Longrightarrow> base AND mask 12 = 0 \<Longrightarrow> vpn base \<le> x"
proof (induction lvl base acme rule: covered.induct)
  case (1 lvl base acme)
  obtain n where n: "lvl = Suc n" "n \<le> 3" "base <s acme" using covered_nonempty [OF "1.prems"(1)] by blast
  from "1.prems"(1) consider (leaf) "takes_leaf lvl base acme" "x div 512 ^ n = vpn base div 512 ^ n"
    | (low) "\<not> takes_leaf lvl base acme" "x \<in> covered n base acme"
    | (nxt) "lidx base lvl \<noteq> 511" "x \<in> covered lvl (base + 2 ^ lvl_shift lvl) acme"
    using covered_iff [OF n(2,3), of x] n(1) by (auto split: if_splits)
  then show ?case
  proof cases
    case leaf
    have "512 ^ n dvd vpn base"
      using leaf(1) aligned_vpn [OF "1.prems"(2), of n] n(1) by (cases n) (auto simp: takes_leaf_def)
    then have "x \<in> {vpn base ..< vpn base + 512 ^ n}" using leaf(2) leaf_pages [of n "vpn base"] by blast
    then show ?thesis by simp
  next
    case low
    show ?thesis by (rule "1.IH"(1)) (use low n "1.prems" in auto)
  next
    case nxt
    have "vpn (base + 2 ^ lvl_shift lvl) \<le> x"
      by (rule "1.IH"(2)) (use nxt n "1.prems" page_aligned_next [of base n] in auto)
    moreover have "vpn (base + 2 ^ lvl_shift lvl) = vpn base + 512 ^ n" using vpn_next [OF n(1,2) nxt(1)] .
    moreover have "0 < (512 :: int) ^ n" by simp
    ultimately show ?thesis by linarith
  qed
qed

text \<open>
  A round of the loop starts at the same offset in every entry of its level, so the pages before
  that offset are left out in all of them.
\<close>

lemma covered_mod:
  assumes "x \<in> covered (Suc n) base acme" "base AND mask 12 = 0"
  shows "vpn base mod 512 ^ n \<le> x mod 512 ^ n"
  using assms
proof (induction "Suc n" base acme rule: covered.induct)
  case (1 base acme)
  have n: "n \<le> 3" "base <s acme" using covered_nonempty [OF "1.prems"(1)] by auto
  have here: "vpn base mod 512 ^ n \<le> x mod 512 ^ n" if "x div 512 ^ n = vpn base div 512 ^ n" "vpn base \<le> x"
    using that div_mult_mod_eq [of "vpn base" "512 ^ n"] div_mult_mod_eq [of x "512 ^ n"] by simp
  from "1.prems"(1) consider (leaf) "takes_leaf (Suc n) base acme" "x div 512 ^ n = vpn base div 512 ^ n"
    | (low) "x \<in> covered n base acme"
    | (nxt) "lidx base (Suc n) \<noteq> 511" "x \<in> covered (Suc n) (base + 2 ^ lvl_shift (Suc n)) acme"
    using covered_iff [OF n, of x] by (auto split: if_splits)
  then show ?case
  proof cases
    case leaf
    have "512 ^ n dvd vpn base"
      using leaf(1) aligned_vpn [OF "1.prems"(2), of n] by (cases n) (auto simp: takes_leaf_def)
    then show ?thesis by simp
  next
    case low
    then show ?thesis using covered_region [OF low] covered_ge_base [OF low "1.prems"(2)] here by blast
  next
    case nxt
    have "vpn (base + 2 ^ lvl_shift (Suc n)) mod 512 ^ n \<le> x mod 512 ^ n"
      by (rule "1.hyps"(2)) (use nxt n "1.prems" page_aligned_next [of base n] in auto)
    then show ?thesis using vpn_next [OF refl n(1) nxt(1)] by simp
  qed
qed

lemma covered_unaligned:
  assumes b: "base AND mask 12 = 0" "vpn base mod 512 \<noteq> 0" "- (2 ^ 47) \<le> sint base"
    and a: "base <s acme" "sint acme \<le> 2 ^ 47" "sint acme \<le> sint base + 4096 * 512 ^ 2"
  shows "covered 4 base acme = covered (Suc 1) base acme"
proof -
  have nd: "\<not> 512 ^ n dvd vpn base" if "1 \<le> n" for n
  proof
    assume "512 ^ n dvd vpn base"
    moreover have "(512 :: int) dvd 512 ^ n" using that by (simp add: dvd_power)
    ultimately have "512 dvd vpn base" by (rule dvd_trans [rotated])
    then show False using b(2) by simp
  qed
  have "covered (Suc 3) base acme = covered 3 base acme"
    by (rule covered_descend [OF _ b(1) nd b(3) a(1,2)]) (use a(3) in simp_all)
  moreover have "covered (Suc 2) base acme = covered 2 base acme"
    by (rule covered_descend [OF _ b(1) nd b(3) a(1,2)]) (use a(3) in simp_all)
  ultimately show ?thesis by (simp add: numeral_eq_Suc)
qed

lemma covered_hole:
  assumes b: "base AND mask 12 = 0" "vpn base mod 512 \<noteq> 0" "- (2 ^ 47) \<le> sint base"
    and a: "base <s acme" "sint acme \<le> 2 ^ 47" "sint acme \<le> sint base + 4096 * 512 ^ 2"
  shows "512 * k \<notin> covered 4 base acme"
proof
  assume "512 * k \<in> covered 4 base acme"
  then have "512 * k \<in> covered (Suc 1) base acme" unfolding covered_unaligned [OF assms] .
  from covered_mod [OF this b(1)] have "vpn base mod 512 \<le> 0" by simp
  moreover have "0 \<le> vpn base mod 512" by simp
  ultimately show False using b(2) by linarith
qed

text \<open>A span that starts one page into an entry of 2 MiB and ends with the next entry: one page is left out.\<close>

lemma covered_two_entries:
  assumes b: "base AND mask 12 = 0" "vpn base mod 512 = 1" "- (2 ^ 47) \<le> sint base"
    and a: "sint acme \<le> 2 ^ 47" "sint acme = sint base + 4096 * 1023" and i: "lidx base (Suc 1) \<noteq> 511"
  shows "covered 4 base acme = {vpn base ..< vpn base + 1023} - {vpn base + 511}"
proof -
  let ?b = "base + 2 ^ lvl_shift (Suc 1)"
  have lt: "base <s acme" using a(2) by (simp add: word_sless_alt)
  have nd: "\<not> 512 ^ 1 dvd vpn base" using b(2) by (simp add: dvd_eq_mod_eq_0)
  have nl: "\<not> takes_leaf (Suc 1) base acme" using nd aligned_vpn [OF b(1), of 1] by (auto simp: takes_leaf_def)
  have v: "vpn ?b = vpn base + 512" using vpn_next [OF refl _ i] by simp
  have si: "sint ?b = sint base + 4096 * 512" using sint_next [OF b(3) lt a(1), of 1] shift_512 [of 1] by simp
  have vb: "?b AND mask 12 = 0" by (rule page_aligned_next [OF b(1)]) simp
  define q where "q = vpn base div 512"
  have r: "vpn base = 512 * q + 1" using b(2) mult_div_mod_eq [of 512 "vpn base"] by (simp add: q_def)
  have r': "vpn ?b div 512 = q + 1" unfolding v by (simp add: q_def)
  have e: "region_end 1 base = vpn base + 511"
    unfolding region_end_def power_one_right q_def [symmetric] using r by (simp add: algebra_simps)
  have e': "region_end 1 ?b = vpn base + 1023"
    unfolding region_end_def power_one_right r' using r by (simp add: algebra_simps)
  have "covered 4 base acme = covered (Suc 1) base acme"
    by (rule covered_unaligned [OF b(1) _ b(3) lt a(1)]) (use b(2) a(2) in simp_all)
  also have "\<dots> = covered (Suc 0) base acme \<union> covered (Suc 1) ?b acme"
    using covered_iff [of 1 base acme] lt nl i by auto
  also have "covered (Suc 1) ?b acme = covered (Suc 0) ?b acme"
  proof (cases "?b <s acme")
    case True
    have "covered (Suc 1) ?b acme = covered 1 ?b acme"
      by (rule covered_descend [OF _ vb _ _ True a(1)]) (use nd v si a(2) b(3) in \<open>simp_all add: dvd_eq_mod_eq_0 b(2)\<close>)
    then show ?thesis by simp
  next
    case False
    then show ?thesis using si a(2) by (simp add: word_sless_alt)
  qed
  also have "covered (Suc 0) base acme = span_pages (Suc 0) base 1023"
    by (rule covered_aligned [OF _ b(1) _ b(3) a(2,1)]) simp_all
  also have "covered (Suc 0) ?b acme = span_pages (Suc 0) ?b 511"
  proof (rule covered_aligned [OF _ vb _ _ _ a(1)])
    show "- (2 ^ 47) \<le> sint ?b" using si b(3) by linarith
    show "sint acme = sint ?b + 4096 * 511" using si a(2) by linarith
  qed simp_all
  finally have "covered 4 base acme =
      {vpn base ..< min (vpn base + 1023) (vpn base + 511)} \<union> {vpn base + 512 ..< min (vpn base + 512 + 511) (vpn base + 1023)}"
    unfolding span_pages_def One_nat_def [symmetric] e e' v .
  moreover have "{k ..< min (k + 1023) (k + 511)} \<union> {k + 512 ..< min (k + 512 + 511) (k + 1023)} = {k ..< k + 1023} - {k + 511}"
    for k :: int by auto
  ultimately show ?thesis by simp
qed

end
