(* ===== verification/Mapper.thy ===== *)
theory Mapper
  imports Memm_Span Talloc_Contract
begin

text \<open>
  Model of \<open>Mapper\<close>, \<open>Mapping\<close> and \<open>IterMut\<close> of \<^verbatim>\<open>kernel/src/memm/mod.rs\<close>. The page getter
  of \<open>Mapper::map\<close> is the closure around \<open>alloc_phys\<close>, whose state is the mapper with its buddy
  allocator. The mapper's allocator manages the offset-mapped physical memory, so it keeps the
  contract of \<open>page_source\<close>: a frame is available when its bytes are free in the allocator.
\<close>

section \<open>The mapper\<close>

record mapper =
  krnl_pml4 :: usize
  mapper_talloc :: talloc

definition mapper_new_invalid :: "unit node_heap \<Rightarrow> mapper" where
  "mapper_new_invalid h = \<lparr>krnl_pml4 = 0, mapper_talloc = new_invalid PTE_SIZE h\<rparr>"

definition alloc_phys :: "mapper page_getter" where
  "alloc_phys mp sz = do {
     (r, t) \<leftarrow> talloc_alloc mapper_oom_handler (mapper_talloc mp) \<lparr>layout_size = sz, layout_align = sz\<rparr>;
     p \<leftarrow> (case r of Inr p \<Rightarrow> Some p | Inl e \<Rightarrow> None);
     paddr \<leftarrow> to_phys_addr p;
     Some (paddr, mp\<lparr>mapper_talloc := t\<rparr>)
   }"

record mapping =
  mapping_base :: ptr
  mapping_acme :: ptr
  mapping_pml4 :: ptr

definition mapper_map ::
  "mapper \<Rightarrow> ptr \<Rightarrow> usize \<Rightarrow> pte \<Rightarrow> pte \<Rightarrow> ptr \<Rightarrow> table_mem \<Rightarrow> (mapping \<times> mapper \<times> table_mem) option" where
  "mapper_map mp base sz branches leaves pml4 m = do {
     rust_assert (sz \<noteq> 0);
     let base = base AND NOT (PTE_SIZE - 1);
     up \<leftarrow> checked_add sz PTE_SIZE;
     up \<leftarrow> checked_sub up 1;
     let acme = base + (up AND NOT (PTE_SIZE - 1));
     (mp, m) \<leftarrow> map_offset 4 base acme branches leaves pml4 alloc_phys (mp, m);
     Some (\<lparr>mapping_base = base, mapping_acme = acme, mapping_pml4 = pml4\<rparr>, mp, m)
   }"

section \<open>Iterating over a mapping\<close>

definition mapping_new :: "ptr \<Rightarrow> ptr \<Rightarrow> ptr \<Rightarrow> mapping" where
  "mapping_new base acme pml4 = \<lparr>mapping_base = base, mapping_acme = acme, mapping_pml4 = pml4\<rparr>"

record mapping_iter =
  it_ptr :: ptr
  it_acme :: ptr

definition mapping_iter_new :: "mapping \<Rightarrow> mapping_iter" where
  "mapping_iter_new mp = \<lparr>it_ptr = mapping_base mp, it_acme = mapping_acme mp\<rparr>"

definition iter_pages :: "mapping \<Rightarrow> mapping_iter" where
  "iter_pages mp = mapping_iter_new mp"

definition mapping_iter_next :: "mapping_iter \<Rightarrow> ((ptr \<times> nat) option \<times> mapping_iter) option" where
  "mapping_iter_next it =
     (let p = it_ptr it in
      if p <s it_acme it then do {
        span \<leftarrow> checked_ssub (it_acme it) p;
        let remaining = fast_non0_log2 span;
        let align = leading_zeros p;
        lvl3 \<leftarrow> (if 3 \<le> min remaining align then Some (min remaining align - 3) else None);
        let lvl = lvl3 div 9;
        page_size \<leftarrow> page_size lvl;
        Some (Some (p, lvl), it\<lparr>it_ptr := p + page_size\<rparr>)
      } else Some (None, it))"

definition iter_entries_next ::
  "table_mem \<Rightarrow> ptr \<Rightarrow> mapping_iter \<Rightarrow> ((ptr \<times> nat \<times> ptr) option \<times> mapping_iter) option" where
  "iter_entries_next m pml4 it = do {
     (r, it) \<leftarrow> mapping_iter_next it;
     (case r of
        None \<Rightarrow> Some (None, it)
      | Some (laddr, lvl) \<Rightarrow> do {
          e \<leftarrow> get_entry_offset m laddr lvl pml4;
          Some (Some (laddr, lvl, e), it)
        })
   }"

section \<open>The physical allocator as a source of pages\<close>

lemma uint_align: "k < 64 \<Longrightarrow> uint (w AND NOT (mask k)) = uint w div 2 ^ k * 2 ^ k" for w :: u64
proof -
  assume "k < 64"
  have "w AND NOT (mask k) = push_bit k (drop_bit k w)" by (auto simp: bit_eq_iff bit_simps)
  then have "uint (w AND NOT (mask k)) = take_bit 64 (push_bit k (uint (drop_bit k w)))"
    by (simp add: unsigned_push_bit_eq)
  also have "push_bit k (uint (drop_bit k w)) = uint w div 2 ^ k * 2 ^ k"
    by (simp add: push_bit_eq_mult uint_drop_bit)
  also have "take_bit 64 \<dots> = \<dots>"
  proof (rule take_bit_int_eq_self)
    show "0 \<le> uint w div 2 ^ k * 2 ^ k" by (intro mult_nonneg_nonneg) (simp_all add: pos_imp_zdiv_nonneg_iff)
    have "0 \<le> uint w mod 2 ^ k" by (rule pos_mod_sign) simp
    then have "uint w div 2 ^ k * 2 ^ k \<le> uint w" using div_mult_mod_eq [of "uint w" "2 ^ k"] by linarith
    also have "uint w < 2 ^ 64" using uint_lt2p [of w] by simp
    finally show "uint w div 2 ^ k * 2 ^ k < 2 ^ 64" .
  qed
  finally show ?thesis .
qed

lemma is_table_uint: "is_table f \<longleftrightarrow> 2 ^ 12 dvd uint f \<and> uint f < 2 ^ 52"
proof
  assume f: "is_table f"
  have "frame f = f" using f by simp
  then have "uint f = uint f div 2 ^ 12 * 2 ^ 12" using uint_align [of 12 f] by (simp add: frame_def)
  then show "2 ^ 12 dvd uint f \<and> uint f < 2 ^ 52" using table_less [OF f] by (metis dvd_triv_right)
next
  assume f: "2 ^ 12 dvd uint f \<and> uint f < 2 ^ 52"
  have "bit f n \<Longrightarrow> 12 \<le> n \<and> n < 52" for n
  proof -
    assume "bit f n"
    then have b: "bit (uint f) n" using bit_imp_le_length [of f n] by (simp add: bit_uint_iff)
    have "take_bit 12 (uint f) = 0" using f by (simp add: take_bit_eq_mod dvd_eq_mod_eq_0)
    then have "\<not> n < 12" using b by (metis bit_0_eq bit_take_bit_iff bot_apply bot_bool_def)
    moreover have "take_bit 52 (uint f) = uint f" using f by (intro take_bit_int_eq_self) simp_all
    then have "n < 52" using b by (metis bit_take_bit_iff)
    ultimately show ?thesis by simp
  qed
  then show "is_table f" by (simp add: is_table_iff)
qed

lemma block_frames_uint:
  assumes "is_table q" "2 ^ s dvd uint q" "12 \<le> s" "s < 52"
  shows "f \<in> block_frames q s \<longleftrightarrow> 2 ^ 12 dvd uint f \<and> uint q \<le> uint f \<and> uint f < uint q + 2 ^ s"
proof -
  have "frame f = f \<longleftrightarrow> uint f div 2 ^ 12 * 2 ^ 12 = uint f"
  proof -
    have "uint (frame f) = uint f div 2 ^ 12 * 2 ^ 12" unfolding frame_def by (rule uint_align) simp
    then show ?thesis by (metis word_uint_eqI)
  qed
  also have "\<dots> \<longleftrightarrow> 2 ^ 12 dvd uint f" by (metis dvd_div_mult_self dvd_triv_right)
  finally have 12: "frame f = f \<longleftrightarrow> 2 ^ 12 dvd uint f" .
  obtain k where k: "uint q = 2 ^ s * k" using assms(2) by (elim dvdE)
  have "uint (f AND NOT (mask s)) = uint f div 2 ^ s * 2 ^ s" using uint_align [of s f] assms(4) by simp
  then have "f AND NOT (mask s) = q \<longleftrightarrow> uint f div 2 ^ s * 2 ^ s = uint q" by (metis word_uint_eqI)
  also have "\<dots> \<longleftrightarrow> uint f div 2 ^ s = k" unfolding k by (simp add: mult.commute)
  also have "\<dots> \<longleftrightarrow> uint q \<le> uint f \<and> uint f < uint q + 2 ^ s" unfolding k by (rule div_block) simp
  finally show ?thesis using 12 by (simp add: block_frames_def)
qed

text \<open>The mapper is in order, and the frames its allocator has free.\<close>

definition mapper_good :: "mapper \<Rightarrow> bool" where
  "mapper_good mp \<longleftrightarrow> smlst_block (mapper_talloc mp) = PTE_SIZE \<and> (\<exists>S. talloc_free (mapper_talloc mp) S)"

definition frame_bytes :: "u64 \<Rightarrow> int set" where
  "frame_bytes f = {uint f - 2 ^ 47 ..< uint f - 2 ^ 47 + 2 ^ 12}"

definition mapper_avail :: "mapper \<Rightarrow> u64 set" where
  "mapper_avail mp = {f. is_table f \<and> (\<exists>S. talloc_free (mapper_talloc mp) S \<and> frame_bytes f \<subseteq> S)}"

definition mapper_fits :: "mapper \<Rightarrow> usize \<Rightarrow> bool" where
  "mapper_fits mp sz \<longleftrightarrow> talloc_fits (mapper_talloc mp) \<lparr>layout_size = sz, layout_align = sz\<rparr>"

lemma talloc_free_determ: "talloc_free t S \<Longrightarrow> talloc_free t S' \<Longrightarrow> S' = S"
  unfolding talloc_free_def using talloc_inv_determ by metis

lemma mapper_avail_eq:
  "talloc_free (mapper_talloc mp) S \<Longrightarrow> mapper_avail mp = {f. is_table f \<and> frame_bytes f \<subseteq> S}"
  unfolding mapper_avail_def using talloc_free_determ by blast

lemma page_layout_ok:
  assumes "12 \<le> s" "s \<le> 30"
  shows "layout_ok \<lparr>layout_size = 2 ^ s, layout_align = 2 ^ s\<rparr>" "is_power_of_two (2 ^ s :: u64)"
    "fast_non0_log2 (2 ^ s) = s"
proof -
  have s: "s < LENGTH(64)" using assms by simp
  have u: "unat (2 ^ s :: u64) = 2 ^ s" using unat_pow2 [OF s] .
  then have n0: "(2 ^ s :: u64) \<noteq> 0" by (metis unat_0 power_not_zero zero_neq_numeral)
  have "(2 :: u64) ^ s AND (2 ^ s - 1) = 2 ^ s AND mask s" by (simp add: mask_eq_exp_minus_1)
  also have "\<dots> = 0" by (rule bit_word_eqI) (auto simp: bit_simps)
  finally show ip: "is_power_of_two (2 ^ s :: u64)" using n0 by (simp add: is_power_of_two_def)
  show "fast_non0_log2 (2 ^ s) = s" by (simp add: fast_non0_log2_eq [OF n0] u)
  have "(2 :: nat) ^ s \<le> 2 ^ 62" using assms by (intro power_increasing) simp_all
  then show "layout_ok \<lparr>layout_size = 2 ^ s, layout_align = 2 ^ s\<rparr>" using u n0 ip by (simp add: layout_ok_def)
qed

lemma page_layout_level:
  assumes "12 \<le> s" "s \<le> 30" "smlst_block t = PTE_SIZE"
  shows "layout_level t \<lparr>layout_size = 2 ^ s, layout_align = 2 ^ s\<rparr> = s"
proof -
  have s: "s < LENGTH(64)" using assms by simp
  have "(2 :: nat) ^ (s - 1) \<le> 2 ^ s - 1" "(2 :: nat) ^ s - 1 < 2 ^ Suc (s - 1)"
    using assms by (cases s; simp)+
  then have "bit_len (2 ^ s - 1) = Suc (s - 1)" by (rule bit_len_eq)
  moreover have "PTE_SIZE = 2 ^ 12" by (simp add: PTE_SIZE_def)
  then have "geo_min (talloc_geo t) = 12" using assms(3) page_layout_ok(3) [of 12] by (simp add: talloc_geo_def)
  ultimately show ?thesis
    using assms page_layout_ok(3) [OF assms(1,2)] unat_pow2 [OF s] by (simp add: layout_level_def)
qed

lemma alloc_phys_cases:
  assumes "mapper_good mp" "12 \<le> s" "s \<le> 30"
  shows "mapper_fits mp (2 ^ s) \<Longrightarrow> \<exists>q mp'. alloc_phys mp (2 ^ s) = Some (q, mp')"
    "alloc_phys mp (2 ^ s) = Some (q, mp') \<Longrightarrow>
      mapper_good mp' \<and> is_table q \<and> 2 ^ s dvd uint q \<and> same_arena (mapper_talloc mp) (mapper_talloc mp') \<and>
      (\<forall>S. talloc_free (mapper_talloc mp) S \<longrightarrow> {uint q - 2 ^ 47 ..< uint q - 2 ^ 47 + 2 ^ s} \<subseteq> S \<and>
        talloc_free (mapper_talloc mp') (S - {uint q - 2 ^ 47 ..< uint q - 2 ^ 47 + 2 ^ s}))"
proof -
  let ?t = "mapper_talloc mp" and ?l = "\<lparr>layout_size = 2 ^ s, layout_align = 2 ^ s\<rparr> :: layout"
  obtain S where S: "talloc_free ?t S" and sm: "smlst_block ?t = PTE_SIZE" using assms(1) by (auto simp: mapper_good_def)
  note lo = page_layout_ok(1) [OF assms(2,3)]
  note law = talloc_alloc_law [OF S lo] and lv = page_layout_level [OF assms(2,3) sm]
  have own: "to_phys_addr p = Some (p - PHYS_LADDR_OFFSET) \<and> uint (p - PHYS_LADDR_OFFSET) = sint p + 2 ^ 47 \<and>
      2 ^ s dvd uint (p - PHYS_LADDR_OFFSET) \<and> is_table (p - PHYS_LADDR_OFFSET) \<and>
      talloc_span ?t (?l, p) = {sint p ..< sint p + 2 ^ s}" if "talloc_own ?t (?l, p)" for p
  proof -
    obtain F where "talloc_inv ?t F" using S by (auto simp: talloc_free_def)
    then have g: "geo_ok (talloc_geo ?t)" by (simp add: talloc_inv_def talloc_frame_def)
    have v: "blk_valid (talloc_geo ?t) (s, sint p)" using that lv by (simp add: talloc_own_def)
    have b: "- (2 ^ 47) \<le> sint p" "sint p + 2 ^ s \<le> 2 ^ 47" "2 ^ s dvd sint p"
      using v g by (simp_all add: blk_valid_def geo_ok_def)
    have o: "sint PHYS_LADDR_OFFSET = - (2 ^ 47)" by (simp add: PHYS_LADDR_OFFSET_def)
    have lt: "sint p < 2 ^ 47" using b(2) zero_less_power [of "2 :: int" s] by linarith
    have si: "sint (p - PHYS_LADDR_OFFSET) = sint p + 2 ^ 47" using b(1) lt o by (subst sint_sub_eq) simp_all
    have u: "uint (p - PHYS_LADDR_OFFSET) = sint p + 2 ^ 47" using si b(1) by (subst uint_eq_sint) simp_all
    have "(2 :: int) ^ s dvd 2 ^ 47" using assms(3) by (intro le_imp_power_dvd) simp
    then have d: "2 ^ s dvd uint (p - PHYS_LADDR_OFFSET)" unfolding u using b(3) by (rule dvd_add [rotated])
    have "(2 :: int) ^ 12 dvd 2 ^ s" using assms(2) by (rule le_imp_power_dvd)
    then have "2 ^ 12 dvd uint (p - PHYS_LADDR_OFFSET)" using d by (rule dvd_trans)
    moreover have "uint (p - PHYS_LADDR_OFFSET) < 2 ^ 52" unfolding u using lt by simp
    ultimately have "is_table (p - PHYS_LADDR_OFFSET)" by (simp add: is_table_uint)
    moreover have "to_phys_addr p = Some (p - PHYS_LADDR_OFFSET)"
      unfolding to_phys_addr_def using b(1) lt o by (intro checked_ssub_Some) simp_all
    ultimately show ?thesis using u d lv by (simp add: talloc_span_def blk_bytes_def)
  qed
  show "\<exists>q mp'. alloc_phys mp (2 ^ s) = Some (q, mp')" if "mapper_fits mp (2 ^ s)"
    using law(1) that own by (auto simp: mapper_fits_def alloc_phys_def)
  assume a: "alloc_phys mp (2 ^ s) = Some (q, mp')"
  have fits: "talloc_fits ?t ?l"
  proof (rule ccontr)
    assume "\<not> talloc_fits ?t ?l"
    from law(2) [OF this] a show False by (simp add: alloc_phys_def)
  qed
  from law(1) [OF fits] obtain p t' where p: "talloc_alloc mapper_oom_handler ?t ?l = Some (Inr p, t')" "same_arena ?t t'"
    "talloc_free t' (S - talloc_span ?t (?l, p))" "talloc_span ?t (?l, p) \<subseteq> S" "talloc_own ?t (?l, p)" by blast
  note o = own [OF p(5)]
  have q: "q = p - PHYS_LADDR_OFFSET" "mp' = mp\<lparr>mapper_talloc := t'\<rparr>" using a p(1) o by (simp_all add: alloc_phys_def)
  have sp: "talloc_span ?t (?l, p) = {uint q - 2 ^ 47 ..< uint q - 2 ^ 47 + 2 ^ s}" using o by (simp add: q)
  have "smlst_block t' = PTE_SIZE" using p(2) sm by (simp add: same_arena_def)
  then have "mapper_good mp'" using p(3) by (auto simp: mapper_good_def q)
  moreover have "S' = S" if "talloc_free ?t S'" for S' using talloc_free_determ [OF S that] .
  ultimately show "mapper_good mp' \<and> is_table q \<and> 2 ^ s dvd uint q \<and> same_arena ?t (mapper_talloc mp') \<and>
      (\<forall>S. talloc_free ?t S \<longrightarrow> {uint q - 2 ^ 47 ..< uint q - 2 ^ 47 + 2 ^ s} \<subseteq> S \<and>
        talloc_free (mapper_talloc mp') (S - {uint q - 2 ^ 47 ..< uint q - 2 ^ 47 + 2 ^ s}))"
    using o p(2-4) unfolding sp [symmetric] by (auto simp: q)
qed

lemma shift_range: "n \<le> 2 \<Longrightarrow> 12 \<le> lvl_shift (Suc n) \<and> lvl_shift (Suc n) \<le> 30"
  by (simp add: lvl_shift_def)

text \<open>A frame and a block of frames overlap only when the frame is in the block.\<close>

lemma frame_block:
  assumes "is_table q" "2 ^ s dvd uint q" "12 \<le> s" "s \<le> 30" "is_table f"
  shows "f \<in> block_frames q s \<Longrightarrow> frame_bytes f \<subseteq> {uint q - 2 ^ 47 ..< uint q - 2 ^ 47 + 2 ^ s}"
    "f \<notin> block_frames q s \<Longrightarrow> frame_bytes f \<inter> {uint q - 2 ^ 47 ..< uint q - 2 ^ 47 + 2 ^ s} = {}"
proof -
  have f: "2 ^ 12 dvd uint f" using assms(5) by (simp add: is_table_uint)
  have "(2 :: int) ^ 12 dvd 2 ^ s" using assms(3) by (rule le_imp_power_dvd)
  then obtain P where P: "(2 :: int) ^ s = 2 ^ 12 * P" by (elim dvdE)
  obtain a where a: "uint f = 2 ^ 12 * a" using f by (elim dvdE)
  obtain b where b: "uint q = 2 ^ 12 * b" using assms(1) by (auto simp: is_table_uint elim!: dvdE)
  have "2 ^ 12 * a < 2 ^ 12 * b + 2 ^ 12 * P \<longleftrightarrow> a < b + P" unfolding distrib_left [symmetric] by (rule mult_less_cancel_left_pos) simp
  then have iff: "f \<in> block_frames q s \<longleftrightarrow> b \<le> a \<and> a < b + P"
    using block_frames_uint [OF assms(1,2,3), of f] assms(4) unfolding a b P by simp
  show "f \<in> block_frames q s \<Longrightarrow> frame_bytes f \<subseteq> {uint q - 2 ^ 47 ..< uint q - 2 ^ 47 + 2 ^ s}"
    using iff unfolding frame_bytes_def a b P by auto
  show "f \<notin> block_frames q s \<Longrightarrow> frame_bytes f \<inter> {uint q - 2 ^ 47 ..< uint q - 2 ^ 47 + 2 ^ s} = {}"
    using iff unfolding frame_bytes_def a b P by auto
qed

lemma block_frames_table:
  assumes "is_table q" "2 ^ s dvd uint q" "12 \<le> s" "s \<le> 30" "f \<in> block_frames q s"
  shows "is_table f"
proof -
  have "(2 :: int) ^ s dvd 2 ^ 52" using assms(4) by (intro le_imp_power_dvd) simp
  then obtain P where P: "(2 :: int) ^ 52 = 2 ^ s * P" by (elim dvdE)
  obtain k where k: "uint q = 2 ^ s * k" using assms(2) by (elim dvdE)
  have "uint q < 2 ^ 52" using assms(1) by (simp add: is_table_uint)
  then have "2 ^ s * k < 2 ^ s * P" unfolding P k .
  then have "k < P" by simp
  then have "2 ^ s * (k + 1) \<le> 2 ^ s * P" by (intro mult_left_mono) simp_all
  then have "uint q + 2 ^ s \<le> 2 ^ 52" unfolding P k by (simp add: distrib_left)
  then show ?thesis using block_frames_uint [OF assms(1-3), of f] assms(4,5) by (simp add: is_table_uint)
qed

interpretation mp: page_source alloc_phys mapper_good mapper_avail mapper_fits
proof
  fix m m' :: mapper and n :: nat and q :: u64
  assume m: "mapper_good m" and n: "n \<le> 2"
  let ?s = "lvl_shift (Suc n)" and ?B = "{uint q - 2 ^ 47 ..< uint q - 2 ^ 47 + 2 ^ lvl_shift (Suc n)}"
  note s = shift_range [OF n]
  note A = alloc_phys_cases [OF m conjunct1 [OF s] conjunct2 [OF s]]
  show "alloc_phys m (2 ^ ?s) \<noteq> None" if "mapper_fits m (2 ^ ?s)" using A(1) [OF that] by auto
  assume a: "alloc_phys m (2 ^ ?s) = Some (q, m')"
  obtain S where S: "talloc_free (mapper_talloc m) S" using m by (auto simp: mapper_good_def)
  have q: "mapper_good m'" "is_table q" "2 ^ ?s dvd uint q" "?B \<subseteq> S" "talloc_free (mapper_talloc m') (S - ?B)"
    using A(2) [OF a] S by auto
  note fb = frame_block [OF q(2,3) conjunct1 [OF s] conjunct2 [OF s]]
    and bt = block_frames_table [OF q(2,3) conjunct1 [OF s] conjunct2 [OF s]]
  have "q AND mask ?s = 0" using q(3) by (simp add: and_mask_dvd)
  moreover have "block_frames q ?s \<subseteq> mapper_avail m"
    unfolding mapper_avail_eq [OF S] using fb(1) bt q(4) by blast
  moreover have "mapper_avail m' = mapper_avail m - block_frames q ?s"
  proof -
    have "frame_bytes f \<noteq> {}" for f by (simp add: frame_bytes_def)
    then have "frame_bytes f \<subseteq> S - ?B \<longleftrightarrow> frame_bytes f \<subseteq> S \<and> f \<notin> block_frames q ?s" if "is_table f" for f
      using fb [OF that] by blast
    then show ?thesis unfolding mapper_avail_eq [OF S] mapper_avail_eq [OF q(5)] by blast
  qed
  ultimately show "mapper_good m' \<and> is_table q \<and> q AND mask ?s = 0 \<and> block_frames q ?s \<subseteq> mapper_avail m \<and>
      mapper_avail m' = mapper_avail m - block_frames q ?s"
    using q(1,2) by simp
qed

end
