(* ===== verification/Mapper_Props.thy ===== *)
theory Mapper_Props
  imports Mapper
begin

text \<open>
  What \<open>Mapper::map\<close> does to the address space: it maps every page of the span when the span does
  not cross an entry boundary it is not aligned to, and it leaves holes when it does. And what the
  helpers of \<^verbatim>\<open>kernel/src/memm/mod.rs\<close> do not do.
\<close>

section \<open>The span that is mapped\<close>

text \<open>The pages of a request, and what the caller has to keep.\<close>

definition map_base :: "ptr \<Rightarrow> ptr" where
  "map_base base = base AND NOT (mask 12)"

definition map_pages :: "usize \<Rightarrow> int" where
  "map_pages sz = (uint sz + 4095) div 4096"

definition map_args_ok :: "ptr \<Rightarrow> usize \<Rightarrow> pte \<Rightarrow> pte \<Rightarrow> bool" where
  "map_args_ok base sz branches leaves \<longleftrightarrow>
     sz \<noteq> 0 \<and> - (2 ^ 47) \<le> sint (map_base base) \<and> sint (map_base base) + 4096 * map_pages sz \<le> 2 ^ 47 \<and>
     branches AND BASE_MASK = 0 \<and> \<not> bit branches 7 \<and> leaves AND BASE_MASK = 0"

definition pml4_ok :: "mapper \<Rightarrow> u64 \<Rightarrow> table_mem \<Rightarrow> bool" where
  "pml4_ok mp t m \<longleftrightarrow> is_table t \<and> mapper_good mp \<and> distinct (tables_of (phys m) 4 t) \<and>
     mapper_avail mp \<inter> set (tables_of (phys m) 4 t) = {}"

lemma map_base_bits: "map_base base AND mask 12 = 0"
  by (simp add: map_base_def bit_eq_iff bit_simps)

lemma map_pages_pos: "sz \<noteq> 0 \<Longrightarrow> 0 < map_pages sz"
proof -
  assume "sz \<noteq> 0"
  then have "uint sz \<noteq> 0" by (simp add: uint_0_iff)
  then have "1 \<le> uint sz" using uint_ge_0 [of sz] by linarith
  then have "4096 \<le> uint sz + 4095" by simp
  then have "4096 div 4096 \<le> (uint sz + 4095) div 4096" by (rule zdiv_mono1) simp
  then show ?thesis by (simp add: map_pages_def)
qed

lemma map_pages_bound: "map_args_ok base sz br lv \<Longrightarrow> 4096 * map_pages sz \<le> 2 ^ 48"
  by (simp add: map_args_ok_def)

lemma mapper_map_eq:
  assumes "map_args_ok base sz branches leaves"
  defines "acme \<equiv> map_base base + of_int (4096 * map_pages sz)"
  shows "mapper_map mp base sz branches leaves pml4 m = do {
      (mp, m) \<leftarrow> map_offset 4 (map_base base) acme branches leaves pml4 alloc_phys (mp, m);
      Some (\<lparr>mapping_base = map_base base, mapping_acme = acme, mapping_pml4 = pml4\<rparr>, mp, m) }"
    "sint acme = sint (map_base base) + 4096 * map_pages sz"
proof -
  have b: "4096 * map_pages sz \<le> 2 ^ 48" using map_pages_bound [OF assms(1)] .
  have sz: "sz \<noteq> 0" using assms(1) by (simp add: map_args_ok_def)
  have "uint sz \<le> 4096 * map_pages sz"
    using div_mult_mod_eq [of "uint sz + 4095" 4096] pos_mod_bound [of 4096 "uint sz + 4095"]
    unfolding map_pages_def by linarith
  then have u: "uint sz \<le> 2 ^ 48" using b by linarith
  have up: "uint (sz + 4095) = uint sz + 4095"
    using u by (simp add: uint_word_ariths take_bit_eq_mod)
  have "(sz + 4095) AND NOT (mask 12) = of_int (uint ((sz + 4095) AND NOT (mask 12)))" by simp
  also have "uint ((sz + 4095) AND NOT (mask 12)) = 4096 * map_pages sz"
    unfolding map_pages_def by (subst uint_align) (simp_all add: up)
  finally have acme: "(sz + 4095) AND NOT 4095 = of_int (4096 * map_pages sz)" by (simp add: mask_eq_exp_minus_1)
  have 1: "checked_add sz PTE_SIZE = Some (sz + 4096)" using u by (simp add: checked_add_code PTE_SIZE_def)
  have "uint (sz + 4096) = uint sz + 4096" using u by (simp add: uint_word_ariths take_bit_eq_mod)
  then have "1 \<le> sz + 4096" by (simp add: word_le_def)
  then have 2: "checked_sub (sz + 4096) 1 = Some (sz + 4095)" by (simp add: checked_sub_def)
  show "mapper_map mp base sz branches leaves pml4 m = do {
      (mp, m) \<leftarrow> map_offset 4 (map_base base) acme branches leaves pml4 alloc_phys (mp, m);
      Some (\<lparr>mapping_base = map_base base, mapping_acme = acme, mapping_pml4 = pml4\<rparr>, mp, m) }"
    unfolding mapper_map_def using sz 1 2 acme
    by (simp add: Let_def acme_def map_base_def PTE_SIZE_def mask_eq_exp_minus_1 rust_assert_def)
  have "0 \<le> 4096 * map_pages sz" using map_pages_pos [OF sz] by simp
  then have s: "sint (of_int (4096 * map_pages sz) :: u64) = 4096 * map_pages sz" using b by (intro sint_of_int_eq) simp_all
  show "sint acme = sint (map_base base) + 4096 * map_pages sz"
    unfolding acme_def using assms(1) s map_pages_pos [OF sz]
    by (subst sint_add_eq) (simp_all add: map_args_ok_def)
qed

text \<open>The outcome of a request in terms of the pages that \<open>map_offset\<close> covers.\<close>

definition map_request_result ::
  "mapper \<Rightarrow> u64 \<Rightarrow> table_mem \<Rightarrow> int set \<Rightarrow> mapping \<Rightarrow> (mapping \<times> mapper \<times> table_mem) option \<Rightarrow> bool" where
  "map_request_result mp t m S mg res \<longleftrightarrow> (case res of
      None \<Rightarrow> starved mapper_fits alloc_phys mp
    | Some (mg', mp', m') \<Rightarrow> mg' = mg \<and> pml4_ok mp' t m' \<and>
        map_effect 4 t 0 S (mapper_avail mp) (phys m) (mapper_avail mp') (phys m'))"

definition request_mapping :: "ptr \<Rightarrow> usize \<Rightarrow> u64 \<Rightarrow> mapping" where
  "request_mapping base sz t = \<lparr>mapping_base = map_base base,
     mapping_acme = map_base base + of_int (4096 * map_pages sz), mapping_pml4 = t + PHYS_LADDR_OFFSET\<rparr>"

lemma vpn_top: "vpn b div 512 ^ Suc 3 = 0"
  using vpn_range [of b] by (intro div_pos_pos_trivial) simp_all

lemma mapper_map_result:
  assumes "map_args_ok base sz branches leaves" "pml4_ok mp t m"
    and S: "covered 4 (map_base base) (map_base base + of_int (4096 * map_pages sz)) = S"
    and "\<And>l. vpn l \<in> S \<Longrightarrow> no_huge (phys m) 4 t l"
  shows "map_request_result mp t m S (request_mapping base sz t)
    (mapper_map mp base sz branches leaves (t + PHYS_LADDR_OFFSET) m)"
proof -
  let ?a = "map_base base + of_int (4096 * map_pages sz)"
  note eq = mapper_map_eq [OF assms(1)]
  have r: "mp.ready (Suc 3) t mp m" using assms(2) by (simp add: pml4_ok_def mp.ready_def numeral_eq_Suc)
  have "mp.outcome (Suc 3) t (vpn (map_base base) div 512 ^ Suc 3) (covered (Suc 3) (map_base base) ?a) mp m
      (map_offset (Suc 3) (map_base base) ?a branches leaves (t + PHYS_LADDR_OFFSET) alloc_phys (mp, m))"
    by (rule mp.map_offset_outcome [OF _ r]) (use assms(1,4) S eq(2) in \<open>simp_all add: map_args_ok_def\<close>)
  then have o: "mp.outcome 4 t 0 S mp m
      (map_offset 4 (map_base base) ?a branches leaves (t + PHYS_LADDR_OFFSET) alloc_phys (mp, m))"
    unfolding vpn_top using S by (simp add: eval_nat_numeral)
  show ?thesis
  proof (cases "map_offset 4 (map_base base) ?a branches leaves (t + PHYS_LADDR_OFFSET) alloc_phys (mp, m)")
    case None
    then show ?thesis using o eq(1) by (simp add: map_request_result_def mp.outcome_def)
  next
    case (Some gm)
    obtain mp' m' where gm: "gm = (mp', m')" by fastforce
    have e: "mapper_good mp'" "map_effect 4 t 0 S (mapper_avail mp) (phys m) (mapper_avail mp') (phys m')"
      using o Some gm by (simp_all add: mp.outcome_def)
    have "mp.ready 4 t mp' m'" using mp.ready_after [of 4 t mp m mp' 0 S m'] r e by (simp add: numeral_eq_Suc)
    then have "pml4_ok mp' t m'" by (simp add: pml4_ok_def mp.ready_def)
    then show ?thesis using Some gm e eq(1) by (simp add: map_request_result_def request_mapping_def)
  qed
qed

section \<open>A mapper over one mebibyte of memory\<close>

definition demo_mapper_mem :: ptr where
  "demo_mapper_mem = PHYS_LADDR_OFFSET + 0x1000"

lemma demo_mapper_args:
  "arena_args_ok 0x100000 12" "geo_ok (arena_geo demo_mapper_mem 0x100000 12)"
  "status_size 0x100000 12 demo_mapper_mem = 224" "sint demo_mapper_mem = - (2 ^ 47) + 4096"
proof -
  have top: "arena_top 0x100000 = 20" using bit_len_eq [of 19 "0xFFFFF"] by (simp add: arena_top_def)
  show b: "sint demo_mapper_mem = - (2 ^ 47) + 4096" by (simp add: demo_mapper_mem_def PHYS_LADDR_OFFSET_def)
  show "arena_args_ok 0x100000 12" by (simp add: arena_args_ok_def top)
  show "geo_ok (arena_geo demo_mapper_mem 0x100000 12)" by (simp add: geo_ok_def arena_geo_def top b)
  show "status_size 0x100000 12 demo_mapper_mem = 224"
    by (simp add: status_size_def arena_lists_def arena_bitmap_def top b)
qed

lemma phys_empty: "phys (\<lambda>_. 0) = (\<lambda>_. 0)"
  by (simp add: phys_def fun_eq_iff)

lemma no_huge_empty: "no_huge (phys (\<lambda>_. 0)) (Suc n) t l"
  by (simp add: phys_empty present_def)

lemma tables_of_empty: "tables_of (\<lambda>_. 0) (Suc n) t = [t]"
  by (simp add: tables_of_Suc sub_tables_def present_def)

definition demo_mapper :: "mapper option" where
  "demo_mapper = map_option (\<lambda>t. \<lparr>krnl_pml4 = 0, mapper_talloc = t\<rparr>)
     (talloc_new demo_mapper_mem 0x100000 0x1000 demo_mapper_mem 0x100000 zero_nodes)"

lemma demo_pml4_ok: "\<exists>mp. demo_mapper = Some mp \<and> pml4_ok mp 0 (\<lambda>_. 0)"
proof -
  let ?x = "- (2 ^ 47) + 8192 :: int" and ?y = "- (2 ^ 47) + 4096 + 1048576 :: int"
  note args = demo_mapper_args
  have "\<exists>t F. talloc_new demo_mapper_mem 0x100000 (2 ^ 12) demo_mapper_mem 0x100000 zero_nodes = Some t \<and>
      talloc_inv t F \<and> free_bytes (talloc_blocks t F) = {?x ..< ?y} \<and> get_arena t = (demo_mapper_mem, 0x100000) \<and>
      talloc_geo t = arena_geo demo_mapper_mem 0x100000 12 \<and> status_bytes t \<subseteq> {- (2 ^ 47) + 4096 ..< - (2 ^ 47) + 4320}"
    using talloc_new_step [OF args(1,2), of demo_mapper_mem "0x100000" zero_nodes] args(3,4)
    by (simp add: round_up_def round_down_def)
  then obtain t F where new: "talloc_new demo_mapper_mem 0x100000 0x1000 demo_mapper_mem 0x100000 zero_nodes = Some t"
    and F: "talloc_inv t F" "free_bytes (talloc_blocks t F) = {?x ..< ?y}"
    "talloc_geo t = arena_geo demo_mapper_mem 0x100000 12" by auto
  have "smlst_block t = 2 ^ 12" using talloc_invD(1) [OF F(1)] F(3) by (simp add: talloc_frame_def arena_geo_def)
  then have t: "talloc_free t {?x ..< ?y}" "smlst_block t = PTE_SIZE"
    using F by (auto simp: talloc_free_def PTE_SIZE_def)
  define mp where "mp = \<lparr>krnl_pml4 = 0, mapper_talloc = t\<rparr>"
  have "mapper_good mp" using t by (auto simp: mapper_good_def mp_def)
  moreover have "0 \<notin> mapper_avail mp"
    using mapper_avail_eq [of mp "{?x ..< ?y}"] t(1) by (simp add: mp_def frame_bytes_def)
  moreover have "tables_of (phys (\<lambda>_. 0)) 4 0 = [0]"
    using tables_of_empty [of 3 0] by (simp add: phys_empty eval_nat_numeral)
  ultimately have "pml4_ok mp 0 (\<lambda>_. 0)" by (simp add: pml4_ok_def is_table_def)
  then show ?thesis using new by (simp add: demo_mapper_def mp_def)
qed

section \<open>Requests\<close>

lemma mapper_map_no_hole:
  assumes "map_args_ok base sz branches leaves" "pml4_ok mp t m"
    and "vpn (map_base base) + map_pages sz \<le> 512 ^ 4" "no_hole 4 (map_base base) (map_pages sz)"
    and "\<And>l. vpn l \<in> {vpn (map_base base) ..< vpn (map_base base) + map_pages sz} \<Longrightarrow> no_huge (phys m) 4 t l"
  shows "map_request_result mp t m {vpn (map_base base) ..< vpn (map_base base) + map_pages sz}
    (request_mapping base sz t) (mapper_map mp base sz branches leaves (t + PHYS_LADDR_OFFSET) m)"
proof (rule mapper_map_result [OF assms(1,2) _ assms(5)])
  note e = mapper_map_eq(2) [OF assms(1)]
  have "0 < map_pages sz" using assms(1) map_pages_pos by (simp add: map_args_ok_def)
  moreover have "region_end (Suc 3) (map_base base) = 512 ^ 4" unfolding region_end_def vpn_top by simp
  ultimately show "covered 4 (map_base base) (map_base base + of_int (4096 * map_pages sz)) =
      {vpn (map_base base) ..< vpn (map_base base) + map_pages sz}"
    using covered_no_hole [of 3 "map_base base" "map_base base + of_int (4096 * map_pages sz)" "map_pages sz"]
      assms(1,3,4) e map_base_bits [of base] by (simp add: map_args_ok_def eval_nat_numeral)
qed

lemma mapper_map_leaves_hole:
  assumes "map_args_ok base sz branches leaves" "pml4_ok mp t m" "vpn (map_base base) mod 512 \<noteq> 0"
    and "map_pages sz \<le> 512 ^ 2"
    and "\<And>l. vpn l \<in> {vpn (map_base base) ..< vpn (map_base base) + map_pages sz} \<Longrightarrow> no_huge (phys m) 4 t l"
    and "mapper_map mp base sz branches leaves (t + PHYS_LADDR_OFFSET) m = Some (mg, mp', m')" "vpn l mod 512 = 0"
  shows "page_walk (phys m') 4 t l = page_walk (phys m) 4 t l"
proof -
  let ?a = "map_base base + of_int (4096 * map_pages sz)"
  note s = mapper_map_eq(2) [OF assms(1)]
  have "vpn l \<in> {vpn (map_base base) ..< vpn (map_base base) + map_pages sz}" if "vpn l \<in> covered 4 (map_base base) ?a" for l
    using covered_span [OF that map_base_bits _ _ s] assms(1) s by (simp add: map_args_ok_def)
  then have "map_request_result mp t m (covered 4 (map_base base) ?a) (request_mapping base sz t) (Some (mg, mp', m'))"
    using mapper_map_result [OF assms(1,2) refl] assms(5,6) by simp
  then have e: "map_effect 4 t 0 (covered 4 (map_base base) ?a) (mapper_avail mp) (phys m) (mapper_avail mp') (phys m')"
    by (simp add: map_request_result_def)
  have "0 < map_pages sz" using assms(1) map_pages_pos by (simp add: map_args_ok_def)
  then have lt: "map_base base <s ?a" using s by (simp add: word_sless_alt)
  have "512 * (vpn l div 512) \<notin> covered 4 (map_base base) ?a"
    by (rule covered_hole) (use assms s lt in \<open>simp_all add: map_base_bits map_args_ok_def\<close>)
  moreover have "512 * (vpn l div 512) = vpn l" using assms(7) by (intro dvd_mult_div_cancel) auto
  moreover have "vpn l div 512 ^ 4 = 0" using vpn_range [of l] by (rule div_pos_pos_trivial)
  ultimately show ?thesis using map_effectD(6) [OF e, of l] by simp
qed

section \<open>Properties\<close>



text \<open>
  C27. A request whose base is not aligned to 2 MiB maps no page at a multiple of 2 MiB, up to spans
  of 1 GiB: the loop moves on from entry to entry without going back to the start of the next
  entry. Every address of such a page in the requested span translates after the call as it did
  before it, which for a fresh span is: not at all.
\<close>

theorem mapper_map_hole:
  assumes "map_args_ok base sz branches leaves" "pml4_ok mp t m" "vpn (map_base base) mod 512 \<noteq> 0"
    and "map_pages sz \<le> 512 ^ 2"
    and "\<And>l. vpn l \<in> {vpn (map_base base) ..< vpn (map_base base) + map_pages sz} \<Longrightarrow> no_huge (phys m) 4 t l"
    and "mapper_map mp base sz branches leaves (t + PHYS_LADDR_OFFSET) m = Some (mg, mp', m')" "vpn l mod 512 = 0"
  shows "page_walk (phys m') 4 t l = page_walk (phys m) 4 t l"
  by (rule mapper_map_leaves_hole) (use assms in auto)

lemma demo_hole:
  "(do { mp \<leftarrow> demo_mapper; (mg, mp', m') \<leftarrow> mapper_map mp 0x1FF000 0x2000 3 3 PHYS_LADDR_OFFSET (\<lambda>_. 0);
         Some (page_walk (phys m') 4 0 0x1FF123 \<noteq> None) }) = Some True"
  by code_simp

theorem mapper_map_hole_witness:
  "\<exists>mp mg mp' m'. mapper_map mp 0x1FF000 0x2000 3 3 (0 + PHYS_LADDR_OFFSET) (\<lambda>_. 0) = Some (mg, mp', m') \<and>
    page_walk (phys m') 4 0 0x1FF123 \<noteq> None \<and>
    page_walk (phys m') 4 0 0x200000 = page_walk (phys (\<lambda>_. 0)) 4 0 0x200000"
proof -
  obtain mp where mp: "demo_mapper = Some mp" "pml4_ok mp 0 (\<lambda>_. 0)" using demo_pml4_ok by blast
  then obtain mg mp' m' where m: "mapper_map mp 0x1FF000 0x2000 3 3 (0 + PHYS_LADDR_OFFSET) (\<lambda>_. 0) = Some (mg, mp', m')"
    "page_walk (phys m') 4 0 0x1FF123 \<noteq> None"
    using demo_hole by (simp add: mp(1) bind_eq_Some_conv split: prod.splits) blast
  have b: "map_base 0x1FF000 = 0x1FF000" by (simp add: map_base_def mask_eq_exp_minus_1)
  have c: "map_pages 0x2000 = 2" by (simp add: map_pages_def)
  have a: "map_args_ok 0x1FF000 0x2000 3 3" by (simp add: map_args_ok_def b c BASE_MASK_def)
  have "page_walk (phys m') 4 0 0x200000 = page_walk (phys (\<lambda>_. 0)) 4 0 0x200000"
    by (rule mapper_map_hole [OF a mp(2) _ _ _ m(1)])
      (use no_huge_empty [of 3 0] in \<open>simp_all add: b c vpn_def del: no_huge.simps\<close>)
  with m show ?thesis by blast
qed

text \<open>The processor's choice of a memory type for a page.\<close>

definition pat_index :: "pte \<Rightarrow> bool \<Rightarrow> nat" where
  "pat_index e is_hpage = of_bool (bit e 3) + 2 * of_bool (bit e 4) + 4 * of_bool (bit e (if is_hpage then 12 else 7))"

definition pat_select :: "pat \<Rightarrow> nat \<Rightarrow> pat_type" where
  "pat_select p i = (case std_types p of (s0, s1, s2, s3) \<Rightarrow> case pat_types p of (p0, p1, p2, p3) \<Rightarrow>
     [s0, s1, s2, s3, p0, p1, p2, p3] ! i)"

text \<open>
  C29. With the kernel's page attribute table active, the flags that \<open>pat_type_to_pte\<close> computes select
  the requested memory type, for small and for huge pages: the processor's index into the table,
  read from PWT, PCD and the PAT bit (bit 7 of a page table entry, bit 12 of a huge page's entry),
  addresses the type that was asked for.
\<close>

theorem pat_type_to_pte_selects:
  "pat_select KRNL_DEFAULT_PAT (pat_index (pat_type_to_pte t is_hpage) is_hpage) = t"
  by (cases t; cases is_hpage)
    (simp_all add: pat_select_def pat_index_def pat_type_to_pte_def KRNL_DEFAULT_PAT_def from_pat_def bit_or_iff)

text \<open>
  \<open>map_offset_at\<close> panics for each of the four levels that page tables have: the assertion at its
  start lets only the other levels pass.
\<close>

lemma map_offset_at_panics:
  assumes "1 \<le> lvl" "lvl \<le> 4"
  shows "map_offset_at lvl base acme paddr branches leaves table getter gm = None"
  using assms by (subst map_offset_at.simps) (simp add: rust_assert_def PT_LVL_def PML4_LVL_def)

text \<open>
  The iterator over a mapping panics on its first step for every mapping in the higher half, where
  all of the kernel's mappings are: it takes the number of leading zeros of the address, which is 0
  there, for its alignment, and subtracts 3 from it.
\<close>

lemma mapping_iter_next_panics:
  assumes "it_ptr it <s it_acme it" "bit (it_ptr it) 63"
  shows "mapping_iter_next it = None"
proof -
  have "\<not> uint (it_ptr it) < 2 ^ 63"
  proof
    assume "uint (it_ptr it) < 2 ^ 63"
    then have "uint (it_ptr it) div 2 ^ 63 = 0" by (intro div_pos_pos_trivial) simp_all
    then have "\<not> bit (uint (it_ptr it)) 63" by (simp add: bit_iff_odd)
    then show False using assms(2) by (simp add: bit_uint_iff)
  qed
  then have "\<not> int (unat (it_ptr it)) < int (2 ^ 63)" by simp
  then have "2 ^ 63 \<le> unat (it_ptr it)" by (simp only: of_nat_less_iff not_less)
  moreover have "unat (it_ptr it) < 2 ^ LENGTH(64)" by (rule unsigned_less)
  then have "unat (it_ptr it) < 2 ^ Suc 63" by simp
  ultimately have "bit_len (unat (it_ptr it)) = Suc 63" by (rule bit_len_eq)
  then have "leading_zeros (it_ptr it) = 0" by (simp add: leading_zeros_def)
  then show ?thesis using assms(1) by (simp add: mapping_iter_next_def Let_def)
qed

end
