(* ===== verification/Mapper_Setup.thy ===== *)
theory Mapper_Setup
  imports Mapper_Props
begin

text \<open>
  Model of \<open>Mapper::setup\<close>: the switch from the bootloader's page tables to the kernel's, with all
  of physical memory mapped at an offset, and the physical allocator over the available memory.
  Until the switch physical memory is identity mapped, so tables are written at their physical
  addresses.
\<close>

section \<open>The model\<close>

text \<open>
  An entry of the memory map is a base and a size. \<open>max_by_key\<close> of Rust's iterators keeps the last
  of several maxima.
\<close>

type_synonym mmap_entry = "usize \<times> usize"

definition max_by_size :: "mmap_entry list \<Rightarrow> mmap_entry option" where
  "max_by_size mmap = (case mmap of [] \<Rightarrow> None
     | e # es \<Rightarrow> Some (fold (\<lambda>y x. if snd y < snd x then x else y) es e))"

definition last_entry :: "mmap_entry list \<Rightarrow> mmap_entry option" where
  "last_entry mmap = (if mmap = [] then None else Some (last mmap))"

text \<open>The closure \<open>page_getter\<close>, with the captured offset as its state.\<close>

definition setup_page :: "usize \<Rightarrow> usize \<Rightarrow> (usize \<times> usize) option" where
  "setup_page lgst_base page_getter_offset = do {
     offset \<leftarrow> checked_add page_getter_offset PTE_SIZE;
     page \<leftarrow> checked_add lgst_base page_getter_offset;
     Some (page, offset)
   }"

text \<open>One round of the loop that fills the page directory pointer table of the offset mapping.\<close>

definition offset_entry :: "usize \<Rightarrow> nat \<Rightarrow> pte option" where
  "offset_entry hi_phys_addr i = do {
     up \<leftarrow> checked_add hi_phys_addr PDPTE_SIZE;
     up \<leftarrow> checked_sub up 1;
     if i < unat (up div PDPTE_SIZE) then do {
       paddr \<leftarrow> checked_mul (of_nat i) PDPTE_SIZE;
       addr \<leftarrow> from_paddr paddr;
       Some (pte_bits PTE_P OR pte_bits PTE_RW OR pte_bits PTE_PS OR addr)
     } else Some 0
   }"

fun fill_offset_table :: "usize \<Rightarrow> ptr \<Rightarrow> nat list \<Rightarrow> table_mem \<Rightarrow> table_mem option" where
  "fill_offset_table hi_phys_addr tbl [] m = Some m"
| "fill_offset_table hi_phys_addr tbl (i # is) m = do {
     entry \<leftarrow> offset_entry hi_phys_addr i;
     fill_offset_table hi_phys_addr tbl is (m(entry_ptr tbl (of_nat i) := entry))
   }"

text \<open>The physical address of the page directory that maps the topmost gibibyte.\<close>

definition last_old_pd :: "'a cpu_scheme \<Rightarrow> table_mem \<Rightarrow> usize" where
  "last_old_pd c m = get_paddr (m (entry_ptr (get_paddr (m (entry_ptr (cr3_paddr (cr3_read c)) 511))) 511))"

text \<open>The first half of \<open>setup\<close>: the new tables, up to the write of CR3.\<close>

definition setup_tables ::
  "usize \<Rightarrow> mmap_entry \<Rightarrow> 'a cpu_scheme \<Rightarrow> table_mem \<Rightarrow> (usize \<times> 'a cpu_scheme \<times> table_mem) option" where
  "setup_tables hi_phys_addr lgst_blk c m = do {
     up \<leftarrow> checked_add (fst lgst_blk) PTE_SIZE;
     up \<leftarrow> checked_sub up 1;
     let offset = up AND NOT (PTE_SIZE - 1);
     (pml4, offset) \<leftarrow> setup_page (fst lgst_blk) offset;
     let m = zero_table pml4 m;
     (last_pdpt, offset) \<leftarrow> setup_page (fst lgst_blk) offset;
     let m = zero_table last_pdpt m;
     last_pdpt_addr \<leftarrow> from_paddr last_pdpt;
     let m = m(entry_ptr pml4 511 := pte_bits PTE_P OR pte_bits PTE_RW OR last_pdpt_addr);
     old_pd_addr \<leftarrow> from_paddr (last_old_pd c m);
     let m = m(entry_ptr last_pdpt 511 := pte_bits PTE_P OR pte_bits PTE_RW OR old_pd_addr);
     (offset_pdpt, offset) \<leftarrow> setup_page (fst lgst_blk) offset;
     offset_pdpt_addr \<leftarrow> from_paddr offset_pdpt;
     let m = m(entry_ptr pml4 OFFSET_IDX := pte_bits PTE_P OR pte_bits PTE_RW OR offset_pdpt_addr);
     m \<leftarrow> fill_offset_table hi_phys_addr offset_pdpt [0..<512] m;
     Some (offset, cr3_set_nflags pml4 c, m)
   }"

text \<open>The second half: the allocator over the largest block, then the release of the others.\<close>

fun release_blocks :: "usize \<Rightarrow> mmap_entry list \<Rightarrow> talloc \<Rightarrow> talloc option" where
  "release_blocks lgst_base [] t = Some t"
| "release_blocks lgst_base ((base, sz) # es) t =
     (if base = lgst_base then release_blocks lgst_base es t
      else do {
        p \<leftarrow> from_phys_addr base;
        t \<leftarrow> talloc_release t p sz;
        release_blocks lgst_base es t
      })"

definition setup_talloc ::
  "mmap_entry list \<Rightarrow> usize \<Rightarrow> mmap_entry \<Rightarrow> usize \<Rightarrow> unit node_heap \<Rightarrow> talloc option" where
  "setup_talloc mmap hi_phys_addr lgst_blk offset h = do {
     paddr \<leftarrow> checked_add (fst lgst_blk) offset;
     free_mem \<leftarrow> from_phys_addr paddr;
     free_len \<leftarrow> checked_sub (snd lgst_blk) offset;
     base \<leftarrow> from_phys_addr PTE_SIZE;
     t \<leftarrow> talloc_new base hi_phys_addr PTE_SIZE free_mem free_len h;
     release_blocks (fst lgst_blk) mmap t
   }"

definition mapper_setup ::
  "mmap_entry list \<Rightarrow> unit node_heap \<Rightarrow> 'a cpu_scheme \<Rightarrow> table_mem \<Rightarrow>
   (usize \<times> mapper \<times> 'a cpu_scheme \<times> table_mem) option" where
  "mapper_setup mmap h c m = do {
     let c = cr0_write (cr0_read c AND cr0_not (cr0_bits CR0_WP)) c;
     e \<leftarrow> last_entry mmap;
     hi_phys_addr \<leftarrow> checked_add (fst e) (snd e);
     lgst_blk \<leftarrow> max_by_size mmap;
     (offset, c, m) \<leftarrow> setup_tables hi_phys_addr lgst_blk c m;
     let c = cr0_write (cr0_read c OR cr0_bits CR0_WP) c;
     t \<leftarrow> setup_talloc mmap hi_phys_addr lgst_blk offset h;
     Some (cr3_paddr (cr3_read c), \<lparr>krnl_pml4 = cr3_paddr (cr3_read c), mapper_talloc = t\<rparr>, c, m)
   }"

section \<open>The tables\<close>

lemma fill_offset_table_Some:
  assumes "\<And>i. i \<in> set is \<Longrightarrow> offset_entry hi i = Some (f i)" "\<And>i. i \<in> set is \<Longrightarrow> i < 512" "distinct is"
  shows "\<exists>m'. fill_offset_table hi tbl is m = Some m' \<and> (\<forall>i\<in>set is. m' (tbl + 8 * of_nat i) = f i) \<and>
    (\<forall>a. (\<forall>i\<in>set is. a \<noteq> tbl + 8 * of_nat i) \<longrightarrow> m' a = m a)"
  using assms
proof (induction "is" arbitrary: m)
  case (Cons i "is")
  let ?m = "m(tbl + 8 * of_nat i := f i)"
  from Cons.IH [of ?m] Cons.prems obtain m' where m': "fill_offset_table hi tbl is ?m = Some m'"
    "\<forall>i\<in>set is. m' (tbl + 8 * of_nat i) = f i" "\<forall>a. (\<forall>i\<in>set is. a \<noteq> tbl + 8 * of_nat i) \<longrightarrow> m' a = ?m a" by (auto simp del: fun_upd_apply)
  have "j \<in> set is \<Longrightarrow> tbl + 8 * of_nat i \<noteq> tbl + 8 * (of_nat j :: u64)" for j
    using Cons.prems(2,3) nth_inj [of i j tbl] by auto
  then have "m' (tbl + 8 * of_nat i) = f i" using m'(3) by simp
  moreover have "fill_offset_table hi tbl (i # is) m = Some m'"
    using Cons.prems(1) m'(1) by (simp add: entry_ptr_def)
  ultimately show ?case using m'(2,3) by auto
qed simp

text \<open>The entries that map the first gibibytes one to one.\<close>

definition gib :: "nat \<Rightarrow> u64" where
  "gib i = of_int (2 ^ 30 * int i)"

lemma gib_table: "i < 512 \<Longrightarrow> is_table (gib i)" "i < 512 \<Longrightarrow> uint (gib i) = 2 ^ 30 * int i"
proof -
  assume i: "i < 512"
  show u: "uint (gib i) = 2 ^ 30 * int i"
    unfolding gib_def by (subst uint_word_of_int_eq, rule take_bit_int_eq_self) (use i in simp_all)
  have "(2 :: int) ^ 12 dvd 2 ^ 30 * int i" by (intro dvd_mult2 le_imp_power_dvd) simp
  then show "is_table (gib i)" using u i by (simp add: is_table_uint)
qed

lemma from_paddr_table: "is_table p \<Longrightarrow> from_paddr p = Some p"
  by (simp add: from_paddr_def rust_assert_def is_table_def BASE_MASK_def)

lemma offset_entry_eq:
  assumes "uint hi \<le> 2 ^ 39" "i < 512"
  shows "offset_entry hi i =
    Some (if 2 ^ 30 * int i < uint hi then gib i OR 0x83 else 0)"
proof -
  have p: "PDPTE_SIZE = 0x40000000" by (simp add: PDPTE_SIZE_def)
  have 1: "checked_add hi PDPTE_SIZE = Some (hi + 0x40000000)" using assms(1) by (simp add: checked_add_code p)
  have u1: "uint (hi + 0x40000000) = uint hi + 0x40000000"
    using assms(1) by (simp add: uint_word_ariths take_bit_int_eq_self)
  then have 2: "checked_sub (hi + 0x40000000) 1 = Some (hi + 0x3FFFFFFF)" by (simp add: checked_sub_def word_le_def)
  have u2: "uint (hi + 0x3FFFFFFF) = uint hi + 0x3FFFFFFF"
    using assms(1) by (simp add: uint_word_ariths take_bit_int_eq_self)
  have "int (unat ((hi + 0x3FFFFFFF) div PDPTE_SIZE)) = (uint hi + 0x3FFFFFFF) div 0x40000000"
    by (simp add: p uint_div u2 flip: uint_nat)
  moreover have "int i < (uint hi + 0x3FFFFFFF) div 0x40000000 \<longleftrightarrow> 0x40000000 * int i < uint hi" by linarith
  ultimately have "int i < int (unat ((hi + 0x3FFFFFFF) div PDPTE_SIZE)) \<longleftrightarrow> 2 ^ 30 * int i < uint hi" by simp
  then have c: "i < unat ((hi + 0x3FFFFFFF) div PDPTE_SIZE) \<longleftrightarrow> 2 ^ 30 * int i < uint hi" by (simp only: of_nat_less_iff)
  have "uint (of_nat i :: u64) = int i" using assms(2) by (simp add: unsigned_of_nat take_bit_nat_eq_self)
  then have "unat (of_nat i :: u64) * unat PDPTE_SIZE < 2 ^ 64" using assms(2) by (simp add: p unat_of_nat take_bit_nat_eq_self)
  then have 3: "checked_mul (of_nat i) PDPTE_SIZE = Some (gib i)"
    by (simp add: checked_mul_def p gib_def mult.commute)
  note t = from_paddr_table [OF gib_table(1) [OF assms(2)]]
  show ?thesis unfolding offset_entry_def using c
    by (simp only: 1 2 bind.bind_lunit) (simp add: 3 t or.assoc or.commute or.left_commute)
qed

text \<open>What the first half leaves in memory. The three pages it takes start at twice the block's base.\<close>

definition setup_pml4 :: "usize \<Rightarrow> u64" where "setup_pml4 b = b + b"
definition setup_last_pdpt :: "usize \<Rightarrow> u64" where "setup_last_pdpt b = b + b + 0x1000"
definition setup_offset_pdpt :: "usize \<Rightarrow> u64" where "setup_offset_pdpt b = b + b + 0x2000"

definition block_base_ok :: "usize \<Rightarrow> bool" where
  "block_base_ok b \<longleftrightarrow> 2 ^ 12 dvd uint b \<and> uint b \<le> 2 ^ 39"

lemma setup_pages_ok:
  assumes "block_base_ok b"
  shows "is_table (setup_pml4 b)" "is_table (setup_last_pdpt b)" "is_table (setup_offset_pdpt b)"
    "setup_pml4 b \<noteq> setup_last_pdpt b" "setup_pml4 b \<noteq> setup_offset_pdpt b" "setup_last_pdpt b \<noteq> setup_offset_pdpt b"
proof -
  have b: "2 ^ 12 dvd uint b" "uint b \<le> 2 ^ 39" using assms by (simp_all add: block_base_ok_def)
  have u: "uint (setup_pml4 b) = 2 * uint b" "uint (setup_last_pdpt b) = 2 * uint b + 0x1000"
    "uint (setup_offset_pdpt b) = 2 * uint b + 0x2000"
    using b(2) by (simp_all add: setup_pml4_def setup_last_pdpt_def setup_offset_pdpt_def uint_word_ariths take_bit_int_eq_self)
  show "is_table (setup_pml4 b)" "is_table (setup_last_pdpt b)" "is_table (setup_offset_pdpt b)"
    using b by (simp_all add: is_table_uint u)
  show "setup_pml4 b \<noteq> setup_last_pdpt b" "setup_pml4 b \<noteq> setup_offset_pdpt b" "setup_last_pdpt b \<noteq> setup_offset_pdpt b"
    by (simp_all add: setup_pml4_def setup_last_pdpt_def setup_offset_pdpt_def)
qed

lemma setup_page_steps:
  assumes "block_base_ok b"
  shows "checked_add b PTE_SIZE = Some (b + 0x1000)" "checked_sub (b + 0x1000) 1 = Some (b + 0xFFF)"
    "(b + 0xFFF) AND NOT (PTE_SIZE - 1) = b" "setup_page b b = Some (setup_pml4 b, b + 0x1000)"
    "setup_page b (b + 0x1000) = Some (setup_last_pdpt b, b + 0x2000)"
    "setup_page b (b + 0x2000) = Some (setup_offset_pdpt b, b + 0x3000)"
proof -
  have b: "2 ^ 12 dvd uint b" "uint b \<le> 2 ^ 39" using assms by (simp_all add: block_base_ok_def)
  have u: "uint (b + 0x1000) = uint b + 0x1000" "uint (b + 0x2000) = uint b + 0x2000" "uint (b + 0xFFF) = uint b + 0xFFF"
    using b(2) by (simp_all add: uint_word_ariths take_bit_int_eq_self)
  show "checked_add b PTE_SIZE = Some (b + 0x1000)" using b(2) by (simp add: checked_add_code PTE_SIZE_def)
  show "checked_sub (b + 0x1000) 1 = Some (b + 0xFFF)" using u by (simp add: checked_sub_def word_le_def)
  have "uint ((b + 0xFFF) AND NOT (mask 12)) = (uint b + 0xFFF) div 2 ^ 12 * 2 ^ 12"
    using uint_align [of 12 "b + 0xFFF"] by (simp add: u)
  also have "\<dots> = uint b"
  proof -
    obtain k where "uint b = 2 ^ 12 * k" using b(1) by (elim dvdE)
    then show ?thesis by simp
  qed
  finally have "(b + 0xFFF) AND NOT (mask 12) = b" by (rule word_uint_eqI)
  then show "(b + 0xFFF) AND NOT (PTE_SIZE - 1) = b" by (simp add: PTE_SIZE_def mask_eq_exp_minus_1)
  have add: "checked_add x y = Some (x + y)" if "uint x + uint y < 2 ^ 64" for x y :: u64
    using that by (simp add: checked_add_code)
  show "setup_page b b = Some (setup_pml4 b, b + 0x1000)"
    using b(2) by (simp add: setup_page_def add PTE_SIZE_def setup_pml4_def)
  show "setup_page b (b + 0x1000) = Some (setup_last_pdpt b, b + 0x2000)"
    using b(2) by (simp add: setup_page_def add u PTE_SIZE_def setup_last_pdpt_def)
  show "setup_page b (b + 0x2000) = Some (setup_offset_pdpt b, b + 0x3000)"
    using b(2) by (simp add: setup_page_def add u PTE_SIZE_def setup_offset_pdpt_def)
qed

lemma or_1_2: "1 OR (2 OR x) = x OR 3" for x :: u64
proof -
  have "1 OR (2 OR x) = (1 OR 2) OR x" by (rule or.assoc [symmetric])
  then show ?thesis by (simp add: or.commute)
qed

lemma frame_last: "is_table t \<Longrightarrow> frame (t + 4088) = t" "is_table t \<Longrightarrow> frame (t + 2048) = t"
  using frame_nth [of t 511] frame_nth [of t 256] by simp_all

text \<open>The bootloader's page directory for the topmost gibibyte, as the processor finds it.\<close>

definition old_pml4 :: "'a cpu_scheme \<Rightarrow> u64" where
  "old_pml4 c = cr3 c AND BASE_MASK"

definition old_last_pdpt :: "'a cpu_scheme \<Rightarrow> table_mem \<Rightarrow> u64" where
  "old_last_pdpt c m = m (old_pml4 c + 4088) AND BASE_MASK"

definition old_last_pd :: "'a cpu_scheme \<Rightarrow> table_mem \<Rightarrow> u64" where
  "old_last_pd c m = m (old_last_pdpt c m + 4088) AND BASE_MASK"

definition new_tables :: "usize \<Rightarrow> usize \<Rightarrow> u64 \<Rightarrow> table_mem \<Rightarrow> table_mem \<Rightarrow> bool" where
  "new_tables hi b pd m m' \<longleftrightarrow>
     m' (setup_pml4 b + 4088) = setup_last_pdpt b OR 3 \<and> m' (setup_pml4 b + 2048) = setup_offset_pdpt b OR 3 \<and>
     m' (setup_last_pdpt b + 4088) = pd OR 3 \<and>
     (\<forall>i<512. i \<noteq> 256 \<and> i \<noteq> 511 \<longrightarrow> m' (setup_pml4 b + 8 * of_nat i) = 0) \<and>
     (\<forall>i<511. m' (setup_last_pdpt b + 8 * of_nat i) = 0) \<and>
     (\<forall>i<512. m' (setup_offset_pdpt b + 8 * of_nat i) = (if 2 ^ 30 * int i < uint hi then gib i OR 0x83 else 0)) \<and>
     (\<forall>a. frame a \<notin> {setup_pml4 b, setup_last_pdpt b, setup_offset_pdpt b} \<longrightarrow> m' a = m a)"

lemma setup_tables_result:
  assumes b: "block_base_ok b" and hi: "uint hi \<le> 2 ^ 39"
    and old: "{old_pml4 c, old_last_pdpt c m} \<inter> {setup_pml4 b, setup_last_pdpt b} = {}"
  shows "\<exists>m'. setup_tables hi (b, sz) c m = Some (b + 0x3000, cr3_set_nflags (setup_pml4 b) c, m') \<and>
    new_tables hi b (old_last_pd c m) m m'"
proof -
  define T1 T2 T3 where "T1 = setup_pml4 b" and "T2 = setup_last_pdpt b" and "T3 = setup_offset_pdpt b"
  note T = setup_pages_ok [OF b, folded T1_def T2_def T3_def]
  note ss = setup_page_steps [OF b, folded T1_def T2_def T3_def]
  have entry_neq: "T1 + 4088 \<noteq> T2 + 4088" "T1 + 2048 \<noteq> T2 + 4088" "T1 + 4088 \<noteq> T1 + 2048" "T2 + 4088 \<noteq> T1 + 2048"
    using T frame_last by (metis, metis, simp, metis)
  note tb [simp] = from_paddr_table zero_table_frame frame_last T(4-6) T(4-6) [symmetric]
  define m1 where "m1 = (zero_table T2 (zero_table T1 m))(T1 + 4088 := T2 OR 3)"
  have m1: "m1 a = m a" if "frame a \<notin> {T1, T2}" for a
    using that T frame_last(1) [OF T(1)] by (auto simp: m1_def)
  have base: "is_table (old_pml4 c)" "is_table (old_last_pdpt c m)" by (simp_all add: old_pml4_def old_last_pdpt_def)
  have "m1 (old_pml4 c + 4088) = m (old_pml4 c + 4088)" "m1 (old_last_pdpt c m + 4088) = m (old_last_pdpt c m + 4088)"
    using old base by (intro m1; auto simp: T1_def T2_def)+
  then have pd: "last_old_pd c m1 = old_last_pd c m"
    by (simp add: last_old_pd_def old_last_pd_def old_last_pdpt_def old_pml4_def entry_ptr_def get_paddr_def cr3_read_def
        BASE_MASK_def [symmetric] Let_def)
  define m2 where "m2 = m1(T2 + 4088 := old_last_pd c m OR 3, T1 + 2048 := T3 OR 3)"
  obtain m' where m': "fill_offset_table hi T3 [0..<512] m2 = Some m'"
    "\<forall>i\<in>set [0..<512]. m' (T3 + 8 * of_nat i) = (if 2 ^ 30 * int i < uint hi then gib i OR 0x83 else 0)"
    "\<forall>a. (\<forall>i\<in>set [0..<512]. a \<noteq> T3 + 8 * of_nat i) \<longrightarrow> m' a = m2 a"
    using fill_offset_table_Some [of "[0..<512]" hi "\<lambda>i. if 2 ^ 30 * int i < uint hi then gib i OR 0x83 else 0" T3 m2]
      offset_entry_eq [OF hi] by auto
  have keep: "m' a = m2 a" if "frame a \<noteq> T3" for a
  proof -
    have "a \<noteq> T3 + 8 * of_nat i" if "i < 512" for i using \<open>frame a \<noteq> T3\<close> frame_nth [OF T(3) that] by blast
    then show ?thesis using m'(3) by simp
  qed
  have "new_tables hi b (old_last_pd c m) m m'"
    unfolding new_tables_def T1_def [symmetric] T2_def [symmetric] T3_def [symmetric]
  proof (intro conjI allI impI)
    show "m' (T1 + 4088) = T2 OR 3" "m' (T1 + 2048) = T3 OR 3" "m' (T2 + 4088) = old_last_pd c m OR 3"
      using T by (subst keep; simp add: m2_def m1_def entry_neq)+
    show "m' (T1 + 8 * of_nat i) = 0" if "i < 512" "i \<noteq> 256 \<and> i \<noteq> 511" for i
    proof -
      have "T1 + 8 * of_nat i \<noteq> T1 + 2048" "T1 + 8 * of_nat i \<noteq> T1 + 4088"
        using nth_inj [of i 256 T1] nth_inj [of i 511 T1] that by simp_all
      moreover have f: "frame (T1 + 8 * of_nat i) = T1" using T(1) that by (intro frame_nth)
      then have "T1 + 8 * of_nat i \<noteq> T2 + 4088" using T frame_last by metis
      ultimately show ?thesis using T f by (subst keep) (simp_all add: m2_def m1_def)
    qed
    show "m' (T2 + 8 * of_nat i) = 0" if "i < 511" for i
    proof -
      have "T2 + 8 * of_nat i \<noteq> T2 + 4088" using nth_inj [of i 511 T2] that by simp
      moreover have f: "frame (T2 + 8 * of_nat i) = T2" using T(2) that by (intro frame_nth) simp_all
      then have "T2 + 8 * of_nat i \<noteq> T1 + 2048" "T2 + 8 * of_nat i \<noteq> T1 + 4088" using T frame_last by metis+
      ultimately show ?thesis using T f by (subst keep) (simp_all add: m2_def m1_def)
    qed
    show "m' (T3 + 8 * of_nat i) = (if 2 ^ 30 * int i < uint hi then gib i OR 0x83 else 0)" if "i < 512" for i
      using m'(2) that by simp
    show "m' a = m a" if "frame a \<notin> {T1, T2, T3}" for a
      using that T keep [of a] m1 [of a] by (auto simp: m2_def)
  qed
  moreover have "setup_tables hi (b, sz) c m = Some (b + 0x3000, cr3_set_nflags T1 c, m')"
    using ss T pd m'(1) unfolding setup_tables_def
    by (simp add: Let_def entry_ptr_def OFFSET_IDX_def m1_def m2_def or_1_2 old_last_pd_def del: zero_table_frame)
  ultimately show ?thesis unfolding T1_def by blast
qed

section \<open>The new address space\<close>

lemma walk_entry:
  assumes "m (t + 8 * lidx l (Suc n)) = e" "bit e 0" "\<not> is_leaf (Suc n) e"
  shows "page_walk m (Suc n) t l = page_walk m n (e AND BASE_MASK) l"
  using assms by (simp add: entry_addr_def present_def)

lemma table_entry:
  assumes "is_table t"
  shows "bit (t OR 3) 0" "\<not> bit (t OR 3) 7" "(t OR 3) AND BASE_MASK = t"
proof -
  have t: "\<not> bit t 7" using assms by (auto simp: is_table_iff)
  have three: "bit (3 :: u64) n \<longleftrightarrow> n = 0 \<or> n = 1" for n
  proof -
    have "(3 :: u64) = mask 2" by (simp add: mask_eq_exp_minus_1)
    then show ?thesis by (simp only: bit_mask_iff) auto
  qed
  show "bit (t OR 3) 0" by (simp add: bit_or_iff three)
  show "\<not> bit (t OR 3) 7" using t by (simp add: bit_or_iff three)
  show "(t OR 3) AND BASE_MASK = t"
    using assms unfolding is_table_def by (rule disjoint_or_and) (simp add: BASE_MASK_def)
qed

lemma offset_uint: "uint p < 2 ^ 39 \<Longrightarrow> uint (p + PHYS_LADDR_OFFSET) = uint p + (2 ^ 64 - 2 ^ 47)"
proof -
  assume p: "uint p < 2 ^ 39"
  have o: "uint PHYS_LADDR_OFFSET = 2 ^ 64 - 2 ^ 47" by (simp add: PHYS_LADDR_OFFSET_def)
  have "uint (p + PHYS_LADDR_OFFSET) = take_bit 64 (uint p + (2 ^ 64 - 2 ^ 47))"
    using o by (simp only: uint_word_ariths) (simp add: take_bit_eq_mod)
  also have "\<dots> = uint p + (2 ^ 64 - 2 ^ 47)" by (rule take_bit_int_eq_self) (use p in simp_all)
  finally show ?thesis .
qed

lemma offset_lidx:
  assumes "uint p < 2 ^ 39"
  shows "lidx (p + PHYS_LADDR_OFFSET) 4 = 256" "uint (lidx (p + PHYS_LADDR_OFFSET) 3) = uint p div 2 ^ 30"
proof -
  define x where "x = uint p"
  have x: "0 \<le> x" "x < 549755813888" using assms by (simp_all add: x_def)
  have "x div 549755813888 = 0" using x by (rule div_pos_pos_trivial)
  moreover have "(x + 33554176 * 549755813888) div 549755813888 = 33554176 + x div 549755813888"
    by (rule div_mult_self1) simp
  ultimately have "uint (lidx (p + PHYS_LADDR_OFFSET) 4) = 256"
    by (simp add: uint_lidx lvl_shift_def offset_uint [OF assms] flip: x_def)
  then show "lidx (p + PHYS_LADDR_OFFSET) 4 = 256" by (intro word_uint_eqI) simp
  have "(x + 17179738112 * 1073741824) div 1073741824 = 17179738112 + x div 1073741824"
    by (rule div_mult_self1) simp
  moreover have "(17179738112 + x div 1073741824) mod 512 = x div 1073741824"
  proof -
    have "(x div 1073741824 + 33554176 * 512) mod 512 = x div 1073741824 mod 512" by (rule mod_mult_self1)
    also have "\<dots> = x div 1073741824" using x by (intro mod_pos_pos_trivial) (simp_all add: pos_imp_zdiv_nonneg_iff)
    finally show ?thesis by (simp add: add.commute)
  qed
  ultimately show "uint (lidx (p + PHYS_LADDR_OFFSET) 3) = uint p div 2 ^ 30"
    by (simp add: uint_lidx lvl_shift_def offset_uint [OF assms] flip: x_def)
qed

lemma gib_div: "uint p < 2 ^ 39 \<Longrightarrow> gib (nat (uint p div 2 ^ 30)) = p AND NOT (mask 30)"
proof -
  assume p: "uint p < 2 ^ 39"
  have "0 \<le> uint p div 2 ^ 30" by (simp add: pos_imp_zdiv_nonneg_iff)
  moreover have "uint p div 2 ^ 30 < 512" using p by simp
  ultimately have "uint (gib (nat (uint p div 2 ^ 30))) = 2 ^ 30 * (uint p div 2 ^ 30)"
    using gib_table(2) [of "nat (uint p div 2 ^ 30)"] by simp
  also have "\<dots> = uint (p AND NOT (mask 30))" using uint_align [of 30 p] by simp
  finally show ?thesis by (rule word_uint_eqI)
qed

lemma huge_entry:
  shows "bit ((p AND NOT (mask 30)) OR 0x83 :: u64) 0" "bit ((p AND NOT (mask 30)) OR 0x83 :: u64) 7"
    "uint p < 2 ^ 39 \<Longrightarrow> (((p AND NOT (mask 30)) OR 0x83) AND BASE_MASK AND NOT (mask 30)) OR
       take_bit 30 (p + PHYS_LADDR_OFFSET) = p"
proof -
  show "bit ((p AND NOT (mask 30)) OR 0x83 :: u64) 0" "bit ((p AND NOT (mask 30)) OR 0x83 :: u64) 7"
    by (simp_all add: bit_or_iff bit_numeral_word_iff)
  assume p: "uint p < 2 ^ 39"
  have "take_bit 39 p = p" using p by (intro word_uint_eqI) (simp add: unsigned_take_bit_eq take_bit_int_eq_self)
  then have lt: "bit p n \<Longrightarrow> n < 39" for n by (metis bit_take_bit_iff)
  have "(0x83 :: u64) = take_bit 8 0x83" by simp
  then have small: "bit (0x83 :: u64) n \<Longrightarrow> n < 8" for n by (metis bit_take_bit_iff)
  have "(uint p + 17179738112 * 1073741824) mod 1073741824 = uint p mod 1073741824" by (rule mod_mult_self1)
  then have tb: "take_bit 30 (p + PHYS_LADDR_OFFSET) = take_bit 30 p"
    by (intro word_uint_eqI) (simp add: unsigned_take_bit_eq offset_uint [OF p], simp add: take_bit_eq_mod)
  show "(((p AND NOT (mask 30)) OR 0x83) AND BASE_MASK AND NOT (mask 30)) OR take_bit 30 (p + PHYS_LADDR_OFFSET) = p"
    unfolding tb
  proof (rule bit_word_eqI)
    fix n assume "n < LENGTH(64)"
    then show "bit ((((p AND NOT (mask 30)) OR 0x83) AND BASE_MASK AND NOT (mask 30)) OR take_bit 30 p) n = bit p n"
      using lt [of n] small [of n]
      by (auto simp: bit_or_iff bit_and_iff bit_not_iff bit_mask_iff bit_take_bit_iff bit_BASE_MASK)
  qed
qed

text \<open>Physical memory at the offset.\<close>

lemma offset_walk:
  assumes "new_tables hi b pd m m'" "block_base_ok b" "uint p < uint hi" "uint hi \<le> 2 ^ 39"
  shows "page_walk m' 4 (setup_pml4 b) (p + PHYS_LADDR_OFFSET) = Some p"
proof -
  let ?l = "p + PHYS_LADDR_OFFSET" and ?T3 = "setup_offset_pdpt b" and ?i = "nat (uint p div 2 ^ 30)"
  have p: "uint p < 2 ^ 39" using assms by simp
  note x = offset_lidx [OF p] and T = setup_pages_ok [OF assms(2)]
  have "m' (setup_pml4 b + 8 * lidx ?l (Suc 3)) = ?T3 OR 3" using assms(1) x(1) by (simp add: new_tables_def)
  from walk_entry [of m' "setup_pml4 b" ?l 3, OF this table_entry(1) [OF T(3)]]
  have w: "page_walk m' 4 (setup_pml4 b) ?l = page_walk m' 3 ?T3 ?l"
    using table_entry(3) [OF T(3)] by (simp add: is_leaf_def eval_nat_numeral)
  have i: "?i < 512" "int ?i = uint p div 2 ^ 30" using p by (simp_all add: pos_imp_zdiv_nonneg_iff)
  have "lidx ?l 3 = of_nat ?i" using x(2) i by (intro word_uint_eqI) (simp add: unsigned_of_nat take_bit_nat_eq_self)
  moreover have "2 ^ 30 * int ?i \<le> uint p" using i(2) div_mult_mod_eq [of "uint p" "2 ^ 30"] pos_mod_sign [of "2 ^ 30" "uint p"] by simp
  ultimately have e: "m' (?T3 + 8 * lidx ?l 3) = (p AND NOT (mask 30)) OR 0x83"
    using assms(1,3) i(1) gib_div [OF p] by (simp add: new_tables_def)
  have "page_walk m' (Suc 2) ?T3 ?l = Some p"
    using e huge_entry(1,2) [of p] huge_entry(3) [OF p]
    by (simp only: page_walk.simps Let_def) (simp add: entry_addr_def present_def is_leaf_def lvl_shift_def)
  with w show ?thesis by simp
qed

text \<open>The topmost gibibyte keeps the bootloader's mappings.\<close>

lemma top_lidx:
  assumes "2 ^ 64 - 2 ^ 30 \<le> uint l"
  shows "lidx l 4 = 511" "lidx l 3 = 511"
proof -
  define x where "x = uint l - (2 ^ 64 - 2 ^ 30)"
  have x: "0 \<le> x" "x < 2 ^ 30" "uint l = x + (2 ^ 64 - 2 ^ 30)" using assms uint_lt2p [of l] by (simp_all add: x_def)
  have "uint l div 2 ^ 39 = 33554431" unfolding x(3)
    by (rule int_div_pos_eq [where r = "x + 548682072064"]) (use x in simp_all)
  then have "uint (lidx l 4) = 511" by (simp add: uint_lidx lvl_shift_def)
  then show "lidx l 4 = 511" by (intro word_uint_eqI) simp
  have "uint l div 2 ^ 30 = 17179869183" unfolding x(3)
    by (rule int_div_pos_eq [where r = x]) (use x in simp_all)
  then have "uint (lidx l 3) = 511" by (simp add: uint_lidx lvl_shift_def)
  then show "lidx l 3 = 511" by (intro word_uint_eqI) simp
qed

definition top_mapped :: "'a cpu_scheme \<Rightarrow> table_mem \<Rightarrow> bool" where
  "top_mapped c m \<longleftrightarrow> present (m (old_pml4 c + 4088)) \<and>
     present (m (old_last_pdpt c m + 4088)) \<and> \<not> bit (m (old_last_pdpt c m + 4088)) 7"

lemma walk_to_pd:
  assumes "m (t + 4088) AND BASE_MASK = t'" "m (t' + 4088) AND BASE_MASK = pd" "bit (m (t + 4088)) 0"
    "bit (m (t' + 4088)) 0" "\<not> bit (m (t' + 4088)) 7" "2 ^ 64 - 2 ^ 30 \<le> uint l"
  shows "page_walk m 4 t l = page_walk m 2 pd l"
proof -
  note x = top_lidx [OF assms(6)]
  have "page_walk m (Suc 3) t l = page_walk m 3 (m (t + 4088) AND BASE_MASK) l"
    by (rule walk_entry) (use assms x in \<open>simp_all add: is_leaf_def\<close>)
  moreover have "page_walk m (Suc 2) t' l = page_walk m 2 (m (t' + 4088) AND BASE_MASK) l"
    by (rule walk_entry) (use assms x in \<open>simp_all add: is_leaf_def\<close>)
  ultimately show ?thesis using assms by (simp add: eval_nat_numeral)
qed

lemma top_walk:
  assumes "new_tables hi b (old_last_pd c m) m m'" "block_base_ok b" "top_mapped c m" "2 ^ 64 - 2 ^ 30 \<le> uint l"
    and "set (tables_of m 2 (old_last_pd c m)) \<inter> {setup_pml4 b, setup_last_pdpt b, setup_offset_pdpt b} = {}"
  shows "page_walk m' 4 (setup_pml4 b) l = page_walk m 4 (old_pml4 c) l"
proof -
  note T = setup_pages_ok [OF assms(2)]
  have pd: "is_table (old_last_pd c m)" by (simp add: old_last_pd_def)
  have "agree m m' (set (tables_of m 2 (old_last_pd c m)))"
    using assms(1,5) unfolding agree_def new_tables_def by blast
  then have "page_walk m' 2 (old_last_pd c m) l = page_walk m 2 (old_last_pd c m) l"
    using agree_walk [OF pd] by blast
  moreover have "page_walk m' 4 (setup_pml4 b) l = page_walk m' 2 (old_last_pd c m) l"
    by (rule walk_to_pd [where t' = "setup_last_pdpt b"])
      (use assms(1,4) table_entry [OF T(2)] table_entry [OF pd] in \<open>simp_all add: new_tables_def\<close>)
  moreover have "page_walk m 4 (old_pml4 c) l = page_walk m 2 (old_last_pd c m) l"
    by (rule walk_to_pd [where t' = "old_last_pdpt c m"])
      (use assms(3,4) in \<open>simp_all add: top_mapped_def present_def old_last_pdpt_def old_last_pd_def\<close>)
  ultimately show ?thesis by simp
qed

section \<open>The physical allocator\<close>

text \<open>The linear addresses of a block of the memory map, and a usable memory map.\<close>

definition entry_end :: "mmap_entry \<Rightarrow> int" where
  "entry_end e = uint (fst e) + uint (snd e)"

definition entry_bytes :: "mmap_entry \<Rightarrow> int set" where
  "entry_bytes e = {uint (fst e) - 2 ^ 47 ..< entry_end e - 2 ^ 47}"

definition entry_ok :: "int \<Rightarrow> mmap_entry \<Rightarrow> bool" where
  "entry_ok hi e \<longleftrightarrow> 2 ^ 12 dvd uint (fst e) \<and> 2 ^ 12 dvd uint (snd e) \<and> 2 ^ 12 \<le> uint (fst e) \<and> 0 < uint (snd e) \<and>
     entry_end e \<le> hi"

definition mmap_ok :: "int \<Rightarrow> mmap_entry list \<Rightarrow> bool" where
  "mmap_ok hi mmap \<longleftrightarrow> mmap \<noteq> [] \<and> (\<forall>e\<in>set mmap. entry_ok hi e) \<and>
     sorted_wrt (\<lambda>e f. entry_end e \<le> uint (fst f)) mmap \<and> entry_end (last mmap) = hi \<and> hi \<le> 2 ^ 39"

lemma from_phys_addr_small: "uint p \<le> 2 ^ 40 \<Longrightarrow>
  from_phys_addr p = Some (p + PHYS_LADDR_OFFSET) \<and> sint (p + PHYS_LADDR_OFFSET) = uint p - 2 ^ 47"
proof -
  assume p: "uint p \<le> 2 ^ 40"
  then have s: "sint p = uint p" by (intro sint_eq_uint) simp
  have o: "sint PHYS_LADDR_OFFSET = - (2 ^ 47)" by (simp add: PHYS_LADDR_OFFSET_def)
  have "sint (p + PHYS_LADDR_OFFSET) = uint p - 2 ^ 47" using p s o by (subst sint_add_eq) simp_all
  moreover have "from_phys_addr p = Some (p + PHYS_LADDR_OFFSET)"
    unfolding from_phys_addr_def using p s o by (intro checked_sadd_Some) simp_all
  ultimately show ?thesis by simp
qed

lemma release_entry:
  assumes "talloc_inv t F" "talloc_geo t = arena_geo (PTE_SIZE + PHYS_LADDR_OFFSET) hi 12"
    and "entry_ok (uint hi) e" "uint hi \<le> 2 ^ 39"
    and "entry_bytes e \<inter> free_bytes (talloc_blocks t F) = {}" "entry_bytes e \<inter> status_bytes t = {}"
  shows "\<exists>t' F'. talloc_release t (fst e + PHYS_LADDR_OFFSET) (snd e) = Some t' \<and> same_arena t t' \<and> talloc_inv t' F' \<and>
    free_bytes (talloc_blocks t' F') = free_bytes (talloc_blocks t F) \<union> entry_bytes e"
proof -
  let ?p = "fst e + PHYS_LADDR_OFFSET"
  have e: "2 ^ 12 dvd uint (fst e)" "2 ^ 12 dvd uint (snd e)" "2 ^ 12 \<le> uint (fst e)" "0 < uint (snd e)"
    "uint (fst e) + uint (snd e) \<le> uint hi" using assms(3) by (simp_all add: entry_ok_def entry_end_def)
  have p: "sint ?p = uint (fst e) - 2 ^ 47" using from_phys_addr_small [of "fst e"] e assms(4) by simp
  have "(2 :: int) ^ 12 dvd 2 ^ 47" by (rule le_imp_power_dvd) simp
  then have d1: "2 ^ 12 dvd sint ?p" unfolding p by (intro dvd_diff e(1))
  note d = d1 dvd_add [OF d1 e(2)]
  have b: "sint (PTE_SIZE + PHYS_LADDR_OFFSET) = - (2 ^ 47) + 4096" by (simp add: PTE_SIZE_def PHYS_LADDR_OFFSET_def)
  have g: "geo_min (talloc_geo t) = 12" "geo_base (talloc_geo t) = - (2 ^ 47) + 4096" "geo_size (talloc_geo t) = uint hi"
    using assms(2) b by (simp_all add: arena_geo_def)
  have B: "entry_bytes e = {sint ?p ..< sint ?p + uint (snd e)}" 
    unfolding entry_bytes_def entry_end_def p by (simp add: algebra_simps)
  have "can_release t F (sint ?p) (sint ?p + uint (snd e))"
    unfolding can_release_def g B [symmetric] using d e assms(4-6) p by simp
  then show ?thesis
    using talloc_release_step [OF assms(1), of ?p "snd e"] e assms(4) p d B by (simp add: g round_up_dvd)
qed

lemma release_blocks_step:
  assumes "talloc_inv t F" "talloc_geo t = arena_geo (PTE_SIZE + PHYS_LADDR_OFFSET) hi 12" "uint hi \<le> 2 ^ 39"
    and "\<forall>e\<in>set es. entry_ok (uint hi) e" "sorted_wrt (\<lambda>e f. entry_end e \<le> uint (fst f)) es"
    and "\<forall>e\<in>set es. fst e \<noteq> lgst \<longrightarrow> entry_bytes e \<inter> free_bytes (talloc_blocks t F) = {}"
    and "\<forall>e\<in>set es. fst e \<noteq> lgst \<longrightarrow> entry_bytes e \<inter> status_bytes t = {}"
  shows "\<exists>t' F'. release_blocks lgst es t = Some t' \<and> same_arena t t' \<and> talloc_inv t' F' \<and>
    free_bytes (talloc_blocks t' F') = free_bytes (talloc_blocks t F) \<union> (\<Union>e\<in>{e \<in> set es. fst e \<noteq> lgst}. entry_bytes e)"
  using assms(1,2,4-)
proof (induction es arbitrary: t F)
  case (Cons e es)
  show ?case
  proof (cases "fst e = lgst")
    case True
    then have "{x \<in> set (e # es). fst x \<noteq> lgst} = {x \<in> set es. fst x \<noteq> lgst}" by auto
    moreover have "release_blocks lgst (e # es) t = release_blocks lgst es t" using True by (cases e) simp
    ultimately show ?thesis using Cons.IH [OF Cons.prems(1,2)] Cons.prems(3-) by simp
  next
    case False
    obtain t1 F1 where t1: "talloc_release t (fst e + PHYS_LADDR_OFFSET) (snd e) = Some t1" "same_arena t t1"
      "talloc_inv t1 F1" "free_bytes (talloc_blocks t1 F1) = free_bytes (talloc_blocks t F) \<union> entry_bytes e"
      using release_entry [OF Cons.prems(1,2) _ assms(3), of e] Cons.prems(3,5,6) False by auto
    have "entry_bytes f \<inter> entry_bytes e = {}" if "f \<in> set es" for f
      using that Cons.prems(4) by (auto simp: entry_bytes_def)
    then have "\<forall>f\<in>set es. fst f \<noteq> lgst \<longrightarrow> entry_bytes f \<inter> free_bytes (talloc_blocks t1 F1) = {}"
      using Cons.prems(5) by (simp add: t1(4) Int_Un_distrib)
    moreover have "\<forall>f\<in>set es. fst f \<noteq> lgst \<longrightarrow> entry_bytes f \<inter> status_bytes t1 = {}"
      using Cons.prems(6) same_arenaD(4) [OF t1(2)] by simp
    ultimately obtain t' F' where t': "release_blocks lgst es t1 = Some t'" "same_arena t1 t'" "talloc_inv t' F'"
      "free_bytes (talloc_blocks t' F') = free_bytes (talloc_blocks t1 F1) \<union> (\<Union>e\<in>{e \<in> set es. fst e \<noteq> lgst}. entry_bytes e)"
      using Cons.IH [OF t1(3)] Cons.prems(2-4) same_arenaD(1) [OF t1(2)] by auto
    have "{x \<in> set (e # es). fst x \<noteq> lgst} = insert e {x \<in> set es. fst x \<noteq> lgst}" using False by auto
    moreover have "from_phys_addr (fst e) = Some (fst e + PHYS_LADDR_OFFSET)"
      using from_phys_addr_small [of "fst e"] Cons.prems(3) assms(3) by (simp add: entry_ok_def entry_end_def)
    then have "release_blocks lgst (e # es) t = Some t'" using False t1(1) t'(1) by (cases e) simp
    moreover have "same_arena t t'" using t1(2) t'(2) by (simp add: same_arena_def)
    ultimately show ?thesis using t'(3,4) t1(4) by auto
  qed
qed (simp add: same_arena_def, blast)

lemma max_by_size_mem: "max_by_size mmap = Some e \<Longrightarrow> e \<in> set mmap"
proof -
  have "fold (\<lambda>y x. if snd y < snd x then x else y) es e \<in> insert e (set es)" for e :: mmap_entry and es
  proof (induction es arbitrary: e)
    case (Cons y es)
    show ?case using Cons.IH [of e] Cons.IH [of y] by auto
  qed simp
  then show "max_by_size mmap = Some e \<Longrightarrow> e \<in> set mmap" by (auto simp: max_by_size_def split: list.splits)
qed

text \<open>The memory that the allocator starts with, after the three tables and its own status data.\<close>

definition setup_mem :: "usize \<Rightarrow> ptr" where
  "setup_mem b = b + (b + 0x3000) + PHYS_LADDR_OFFSET"

definition setup_status :: "usize \<Rightarrow> usize \<Rightarrow> int" where
  "setup_status hi b = status_size hi 12 (setup_mem b)"

definition setup_free :: "usize \<Rightarrow> mmap_entry list \<Rightarrow> mmap_entry \<Rightarrow> int set" where
  "setup_free hi mmap lgst =
     {round_up 12 (2 * uint (fst lgst) + 0x3000 - 2 ^ 47 + setup_status hi (fst lgst)) ..< entry_end lgst - 2 ^ 47} \<union>
     (\<Union>e\<in>{e \<in> set mmap. fst e \<noteq> fst lgst}. entry_bytes e)"

lemma round_up_le: "a \<le> y \<Longrightarrow> 2 ^ s dvd y \<Longrightarrow> round_up s a \<le> y"
proof -
  assume a: "a \<le> y" "2 ^ s dvd y"
  then have "round_up s a \<le> round_up s y" unfolding round_up_def round_down_def
    by (intro mult_right_mono zdiv_mono1) simp_all
  then show ?thesis by (simp add: round_up_dvd [OF a(2)])
qed

lemma setup_arena:
  assumes "0x3000 \<le> uint hi" "uint hi \<le> 2 ^ 39"
  shows "arena_args_ok hi 12" "geo_ok (arena_geo (PTE_SIZE + PHYS_LADDR_OFFSET) hi 12)"
proof -
  have "int (unat hi) = uint hi" by simp
  moreover have "uint hi \<le> 549755813888" using assms by simp
  ultimately have "0x3000 \<le> unat hi" "unat hi \<le> 549755813888" using assms(1) by linarith+
  then have u: "0x3000 \<le> unat hi" "unat hi \<le> 2 ^ 39" by simp_all
  have top: "13 \<le> arena_top hi" "arena_top hi \<le> 39" "unat hi \<le> 2 ^ arena_top hi"
    using u next_pow2_le_iff [of "unat hi" 12] next_pow2_le_iff [of "unat hi" 39] next_pow2_le_iff [of "unat hi" "arena_top hi"]
    by (simp_all add: arena_top_def)
  show a: "arena_args_ok hi 12" using u top by (simp add: arena_args_ok_def)
  have b: "sint (PTE_SIZE + PHYS_LADDR_OFFSET) = - (2 ^ 47) + 4096" by (simp add: PTE_SIZE_def PHYS_LADDR_OFFSET_def)
  define P where "P = (2 :: int) ^ arena_top hi"
  have "(2 :: int) ^ arena_top hi dvd 2 ^ 47" using top(2) by (intro le_imp_power_dvd) simp
  then obtain k where k: "(2 :: int) ^ 47 = P * k" unfolding P_def by (elim dvdE)
  have "(2 :: int) ^ 13 \<le> P" unfolding P_def using top(1) by (rule power_increasing) simp
  then have "4096 mod P = 4096" by (intro mod_pos_pos_trivial) simp_all
  moreover have "(4096 + P * (- k)) mod P = 4096 mod P" by (rule mod_mult_self2)
  ultimately have "(- (2 ^ 47) + 4096) mod P = 4096" unfolding k by (simp add: add.commute)
  moreover have "uint hi \<le> P" using top(3) \<open>int (unat hi) = uint hi\<close> unfolding P_def by (metis of_nat_le_iff of_nat_power of_nat_numeral)
  ultimately show "geo_ok (arena_geo (PTE_SIZE + PHYS_LADDR_OFFSET) hi 12)"
    using top assms by (simp add: geo_ok_def arena_geo_def b P_def)
qed

lemma sorted_wrt_cases: "sorted_wrt P xs \<Longrightarrow> x \<in> set xs \<Longrightarrow> y \<in> set xs \<Longrightarrow> x \<noteq> y \<Longrightarrow> P x y \<or> P y x"
  by (induction xs) auto

lemma setup_talloc_step:
  assumes ok: "mmap_ok (uint hi) mmap" "max_by_size mmap = Some (b, sz)"
    and room: "uint b + 0x3000 + setup_status hi b \<le> uint sz"
  shows "\<exists>t F. setup_talloc mmap hi (b, sz) (b + 0x3000) h = Some t \<and> talloc_inv t F \<and> smlst_block t = PTE_SIZE \<and>
    free_bytes (talloc_blocks t F) = setup_free hi mmap (b, sz)"
proof -
  define st where "st = setup_status hi b"
  have lg: "(b, sz) \<in> set mmap" using max_by_size_mem [OF ok(2)] .
  then have e: "2 ^ 12 dvd uint b" "2 ^ 12 dvd uint sz" "2 ^ 12 \<le> uint b" "uint b + uint sz \<le> uint hi"
    using ok(1) by (auto simp: mmap_ok_def entry_ok_def entry_end_def)
  have hi: "uint hi \<le> 2 ^ 39" using ok(1) by (simp add: mmap_ok_def)
  have "16 - sint (setup_mem b) mod 16 > 0" using pos_mod_bound [of 16 "sint (setup_mem b)"] by simp
  then have st0: "0 < st" by (simp add: st_def setup_status_def status_size_def)
  note room' = room [folded st_def]
  have u: "uint (b + 0x3000) = uint b + 0x3000" "uint (b + (b + 0x3000)) = 2 * uint b + 0x3000"
    using e hi room' st0 by (simp_all add: uint_word_ariths take_bit_int_eq_self)
  note A = setup_arena [of hi]
  have fm: "from_phys_addr (b + (b + 0x3000)) = Some (setup_mem b)" "sint (setup_mem b) = 2 * uint b + 0x3000 - 2 ^ 47"
    using from_phys_addr_small [of "b + (b + 0x3000)"] u e hi room' st0 by (simp_all add: setup_mem_def)
  have fl: "checked_sub sz (b + 0x3000) = Some (sz - (b + 0x3000))" "uint (sz - (b + 0x3000)) = uint sz - uint b - 0x3000"
  proof -
    show "checked_sub sz (b + 0x3000) = Some (sz - (b + 0x3000))"
      using u(1) room' st0 by (simp add: checked_sub_def word_le_def)
    have "b + 0x3000 \<le> sz" using u(1) room' st0 by (simp add: word_le_def)
    then show "uint (sz - (b + 0x3000)) = uint sz - uint b - 0x3000" using u(1) by (simp add: uint_minus_simple_alt word_le_def)
  qed
  let ?base = "PTE_SIZE + PHYS_LADDR_OFFSET"
  let ?x = "round_up 12 (sint (setup_mem b) + st)" and ?y = "entry_end (b, sz) - 2 ^ 47"
  have end_dvd: "2 ^ 12 dvd ?y"
  proof -
    have "(2 :: int) ^ 12 dvd 2 ^ 47" by (rule le_imp_power_dvd) simp
    then show ?thesis unfolding entry_end_def using e(1,2) by (intro dvd_diff dvd_add) simp_all
  qed
  have sum: "sint (setup_mem b) + uint (sz - (b + 0x3000)) = ?y" by (simp add: fm fl entry_end_def)
  have xy: "?x \<le> ?y" using room' by (intro round_up_le [OF _ end_dvd]) (simp add: fm entry_end_def)
  have neg: "?y < 0" using e(4) hi by (simp add: entry_end_def)
  have base: "from_phys_addr PTE_SIZE = Some ?base" "sint ?base = - (2 ^ 47) + 4096"
    using from_phys_addr_small [of PTE_SIZE] by (simp_all add: PTE_SIZE_def)
  have "\<exists>t F. talloc_new ?base hi (2 ^ 12) (setup_mem b) (sz - (b + 0x3000)) h = Some t \<and> talloc_inv t F \<and>
    free_bytes (talloc_blocks t F) = {?x ..< ?y} \<and> get_arena t = (?base, hi) \<and> talloc_geo t = arena_geo ?base hi 12 \<and>
    status_bytes t \<subseteq> {sint (setup_mem b) ..< sint (setup_mem b) + st}"
    using talloc_new_step [OF A, of "setup_mem b" "sz - (b + 0x3000)" h] e hi room' st0 xy neg base(2) end_dvd
    unfolding sum st_def setup_status_def by (simp add: fm fl entry_end_def)
  then obtain t F where t: "talloc_new ?base hi (2 ^ 12) (setup_mem b) (sz - (b + 0x3000)) h = Some t" "talloc_inv t F"
    "free_bytes (talloc_blocks t F) = {?x ..< ?y}" "talloc_geo t = arena_geo ?base hi 12"
    "status_bytes t \<subseteq> {sint (setup_mem b) ..< sint (setup_mem b) + st}" by blast
  have inside: "{?x ..< ?y} \<union> status_bytes t \<subseteq> entry_bytes (b, sz)"
    using t(5) round_up_bounds(1) [of "sint (setup_mem b) + st" 12] e(3) room' st0
    by (auto simp: entry_bytes_def entry_end_def fm)
  have disj: "entry_bytes f \<inter> entry_bytes (b, sz) = {}" if "f \<in> set mmap" "fst f \<noteq> b" for f
    using sorted_wrt_cases [of "\<lambda>e f. entry_end e \<le> uint (fst f)" mmap f "(b, sz)"] ok(1) that lg
    by (cases "f = (b, sz)") (auto simp: mmap_ok_def entry_bytes_def)
  obtain t' F' where t': "release_blocks b mmap t = Some t'" "same_arena t t'" "talloc_inv t' F'"
    "free_bytes (talloc_blocks t' F') = {?x ..< ?y} \<union> (\<Union>e\<in>{e \<in> set mmap. fst e \<noteq> b}. entry_bytes e)"
    using release_blocks_step [OF t(2,4) hi, of mmap b] ok(1) inside disj unfolding t(3) mmap_ok_def by blast
  have "smlst_block t' = PTE_SIZE"
    using talloc_invD(1) [OF t(2)] t(4) t'(2) by (simp add: talloc_frame_def same_arena_def arena_geo_def PTE_SIZE_def)
  moreover have "setup_talloc mmap hi (b, sz) (b + 0x3000) h = Some t'"
    using u e hi room' st0 t(1) t'(1) fm(1) fl(1) base(1)
    by (simp add: setup_talloc_def checked_add_code PTE_SIZE_def)
  ultimately show ?thesis using t'(3,4) by (auto simp: setup_free_def st_def fm)
qed

section \<open>Properties\<close>

definition setup_frames :: "usize \<Rightarrow> u64 set" where
  "setup_frames b = {setup_pml4 b, setup_last_pdpt b, setup_offset_pdpt b}"

text \<open>The tables that setup reads are among the bootloader's tables.\<close>

lemma old_tables:
  assumes "top_mapped c m"
  shows "old_pml4 c \<in> set (tables_of m 4 (old_pml4 c))" "old_last_pdpt c m \<in> set (tables_of m 4 (old_pml4 c))"
    "set (tables_of m 2 (old_last_pd c m)) \<subseteq> set (tables_of m 4 (old_pml4 c))"
proof -
  have t: "present (m (old_pml4 c + 4088))" "present (m (old_last_pdpt c m + 4088))" "\<not> bit (m (old_last_pdpt c m + 4088)) 7"
    using assms by (simp_all add: top_mapped_def)
  have 4: "sub_tables m 3 (old_pml4 c) 511 = tables_of m 3 (old_last_pdpt c m)"
    using t(1) by (simp add: sub_tables_def is_leaf_def old_last_pdpt_def)
  have 3: "sub_tables m 2 (old_last_pdpt c m) 511 = tables_of m 2 (old_last_pd c m)"
    using t(2,3) by (simp add: sub_tables_def is_leaf_def old_last_pd_def)
  have s3: "set (tables_of m 3 (old_last_pdpt c m)) \<subseteq> set (tables_of m 4 (old_pml4 c))"
    using sub_tables_subset [of 511 m 3 "old_pml4 c"] 4 by (simp add: eval_nat_numeral)
  have "set (tables_of m 2 (old_last_pd c m)) \<subseteq> set (tables_of m 3 (old_last_pdpt c m))"
    using sub_tables_subset [of 511 m 2 "old_last_pdpt c m"] 3 by (simp add: eval_nat_numeral)
  then show "set (tables_of m 2 (old_last_pd c m)) \<subseteq> set (tables_of m 4 (old_pml4 c))" using s3 by (rule subset_trans)
  have "t \<in> set (tables_of m (Suc n) t)" for n t by (simp add: tables_of_Suc)
  from this [of "old_pml4 c" 3] this [of "old_last_pdpt c m" 2] s3
  show "old_pml4 c \<in> set (tables_of m 4 (old_pml4 c))" "old_last_pdpt c m \<in> set (tables_of m 4 (old_pml4 c))"
    by (auto simp: eval_nat_numeral)
qed

lemma mmap_block_ok:
  assumes "mmap_ok (uint hi) mmap" "max_by_size mmap = Some (b, sz)"
  shows "block_base_ok b" "uint hi \<le> 2 ^ 39" "last_entry mmap \<bind> (\<lambda>e. checked_add (fst e) (snd e)) = Some hi"
proof -
  have "entry_ok (uint hi) (b, sz)" using assms max_by_size_mem by (auto simp: mmap_ok_def)
  moreover show hi: "uint hi \<le> 2 ^ 39" using assms(1) by (simp add: mmap_ok_def)
  ultimately show "block_base_ok b" by (simp add: block_base_ok_def entry_ok_def entry_end_def)
  have l: "uint (fst (last mmap)) + uint (snd (last mmap)) = uint hi" "mmap \<noteq> []"
    using assms(1) by (simp_all add: mmap_ok_def entry_end_def)
  then have "fst (last mmap) + snd (last mmap) = hi"
    using hi by (intro word_uint_eqI) (simp add: uint_word_ariths take_bit_int_eq_self)
  then show "last_entry mmap \<bind> (\<lambda>e. checked_add (fst e) (snd e)) = Some hi"
    using l hi by (simp add: last_entry_def checked_add_code)
qed

lemma mapper_setup_tables:
  assumes "mmap_ok (uint hi) mmap" "max_by_size mmap = Some (b, sz)"
    and "top_mapped c m" "set (tables_of m 4 (old_pml4 c)) \<inter> setup_frames b = {}"
  shows "\<exists>c' m'. mapper_setup mmap h c m = do {
       t \<leftarrow> setup_talloc mmap hi (b, sz) (b + 0x3000) h;
       Some (setup_pml4 b, \<lparr>krnl_pml4 = setup_pml4 b, mapper_talloc = t\<rparr>, c', m') } \<and>
    cr3_paddr (cr3_read c') = setup_pml4 b \<and> contains (cr0 c') (cr0_bits CR0_WP) \<and> new_tables hi b (old_last_pd c m) m m'"
proof -
  define c0 where "c0 = cr0_write (cr0_read c AND cr0_not (cr0_bits CR0_WP)) c"
  have c0: "old_pml4 c0 = old_pml4 c" "old_last_pdpt c0 m = old_last_pdpt c m" "old_last_pd c0 m = old_last_pd c m"
    by (simp_all add: c0_def cr0_write_def old_pml4_def old_last_pdpt_def old_last_pd_def)
  note ok = mmap_block_ok [OF assms(1,2)]
  have "{old_pml4 c0, old_last_pdpt c0 m} \<inter> {setup_pml4 b, setup_last_pdpt b} = {}"
    unfolding c0 using old_tables [OF assms(3)] assms(4) by (auto simp: setup_frames_def)
  from setup_tables_result [OF ok(1,2) this, of sz] obtain m' where
    m': "setup_tables hi (b, sz) c0 m = Some (b + 0x3000, cr3_set_nflags (setup_pml4 b) c0, m')"
    "new_tables hi b (old_last_pd c m) m m'" unfolding c0 by blast
  define c1 where "c1 = cr3_set_nflags (setup_pml4 b) c0"
  define c2 where "c2 = cr0_write (cr0_read c1 OR cr0_bits CR0_WP) c1"
  have "cr3 c2 = setup_pml4 b"
    by (simp add: c2_def c1_def cr3_set_nflags_def cr3_write_cr3 cr0_write_def)
  then have p: "cr3_paddr (cr3_read c2) = setup_pml4 b"
    using setup_pages_ok(1) [OF ok(1)] by (simp add: cr3_read_def Let_def)
  have wp: "contains (cr0 c2) (cr0_bits CR0_WP)"
    by (simp add: c2_def cr0_write_def contains_def bit_eq_iff bit_simps)
  obtain e where e: "last_entry mmap = Some e" "checked_add (fst e) (snd e) = Some hi"
    using ok(3) by (auto simp: bind_eq_Some_conv)
  have "mapper_setup mmap h c m = do {
       t \<leftarrow> setup_talloc mmap hi (b, sz) (b + 0x3000) h;
       Some (setup_pml4 b, \<lparr>krnl_pml4 = setup_pml4 b, mapper_talloc = t\<rparr>, c2, m') }"
    unfolding mapper_setup_def Let_def c0_def [symmetric] e(1) assms(2) m'(1)
    using p by (simp add: e(2) m'(1) c1_def c2_def)
  then show ?thesis using p wp m'(2) by blast
qed

lemma mapper_setup_result:
  assumes "mmap_ok (uint hi) mmap" "max_by_size mmap = Some (b, sz)"
    and "uint b + 0x3000 + setup_status hi b \<le> uint sz"
    and "top_mapped c m" "set (tables_of m 4 (old_pml4 c)) \<inter> setup_frames b = {}"
  shows "\<exists>mp c' m'. mapper_setup mmap h c m = Some (setup_pml4 b, mp, c', m') \<and> cr3_paddr (cr3_read c') = setup_pml4 b \<and>
    krnl_pml4 mp = setup_pml4 b \<and> contains (cr0 c') (cr0_bits CR0_WP) \<and>
    mapper_good mp \<and> talloc_free (mapper_talloc mp) (setup_free hi mmap (b, sz)) \<and> new_tables hi b (old_last_pd c m) m m'"
proof -
  from mapper_setup_tables [OF assms(1,2,4,5), of h] obtain c' m' where
    r: "mapper_setup mmap h c m = do {
         t \<leftarrow> setup_talloc mmap hi (b, sz) (b + 0x3000) h;
         Some (setup_pml4 b, \<lparr>krnl_pml4 = setup_pml4 b, mapper_talloc = t\<rparr>, c', m') }"
      "cr3_paddr (cr3_read c') = setup_pml4 b" "contains (cr0 c') (cr0_bits CR0_WP)" "new_tables hi b (old_last_pd c m) m m'"
    by blast
  from setup_talloc_step [OF assms(1,2,3), of h] obtain t F where
    t: "setup_talloc mmap hi (b, sz) (b + 0x3000) h = Some t" "talloc_inv t F" "smlst_block t = PTE_SIZE"
      "free_bytes (talloc_blocks t F) = setup_free hi mmap (b, sz)" by blast
  have f: "talloc_free t (setup_free hi mmap (b, sz))" using t(2,4) by (auto simp: talloc_free_def)
  have "mapper_good \<lparr>krnl_pml4 = setup_pml4 b, mapper_talloc = t\<rparr>" using f t(3) by (auto simp: mapper_good_def)
  then show ?thesis using r f t(1) by simp
qed

lemma new_tables_walks:
  assumes "new_tables hi b (old_last_pd c m) m m'" "block_base_ok b" "uint hi \<le> 2 ^ 39" "top_mapped c m"
    and "set (tables_of m 4 (old_pml4 c)) \<inter> setup_frames b = {}"
  shows "uint p < uint hi \<Longrightarrow> page_walk m' 4 (setup_pml4 b) (p + PHYS_LADDR_OFFSET) = Some p"
    "2 ^ 64 - 2 ^ 30 \<le> uint l \<Longrightarrow> page_walk m' 4 (setup_pml4 b) l = page_walk m 4 (old_pml4 c) l"
proof -
  have "set (tables_of m 2 (old_last_pd c m)) \<inter> {setup_pml4 b, setup_last_pdpt b, setup_offset_pdpt b} = {}"
    using old_tables(3) [OF assms(4)] assms(5) by (auto simp: setup_frames_def)
  then show "2 ^ 64 - 2 ^ 30 \<le> uint l \<Longrightarrow> page_walk m' 4 (setup_pml4 b) l = page_walk m 4 (old_pml4 c) l"
    using top_walk [OF assms(1,2,4)] by blast
  show "uint p < uint hi \<Longrightarrow> page_walk m' 4 (setup_pml4 b) (p + PHYS_LADDR_OFFSET) = Some p"
    using offset_walk [OF assms(1,2) _ assms(3)] .
qed


text \<open>A machine with 17 MiB of memory, and the bootloader's tables at 0x1000, 0x2000 and 0x3000.\<close>

definition demo_mmap :: "mmap_entry list" where
  "demo_mmap = [(0x4000, 0x9B000), (0x100000, 0x1000000)]"

definition demo_boot_tables :: table_mem where
  "demo_boot_tables = (\<lambda>_. 0)(0x1FF8 := 0x2003, 0x2FF8 := 0x3003)"

lemma tables_of_last:
  assumes "\<And>i. i < 511 \<Longrightarrow> m (t + 8 * of_nat i) = 0"
  shows "tables_of m (Suc n) t = t # sub_tables m n t 511"
proof -
  have "map (sub_tables m n t) [0..<511] = map (\<lambda>_. []) [0..<511]"
    using assms by (intro map_cong refl) (simp add: sub_tables_def present_def)
  moreover have "[0..<512] = [0..<511] @ [511 :: nat]" using upt_Suc_append [of 0 511] by simp
  moreover have "concat (map (\<lambda>_. []) [0..<511 :: nat]) = []" by simp
  ultimately show ?thesis unfolding tables_of_Suc by (simp only: map_append concat_append) simp
qed

lemma demo_setup_tables:
  "set (tables_of demo_boot_tables 4 0x1000) = {0x1000, 0x2000, 0x3000}" "tables_of demo_boot_tables 2 0x3000 = [0x3000]"
proof -
  have f: "frame 0x1FF8 = 0x1000" "frame 0x2FF8 = 0x2000" by (simp_all add: frame_def mask_eq_exp_minus_1)
  have t: "is_table 0x1000" "is_table 0x2000" "is_table 0x3000" by (simp_all add: is_table_def BASE_MASK_def)
  have z: "demo_boot_tables (t + 8 * of_nat i) = 0" if "t \<in> {0x1000, 0x2000, 0x3000}" "i < 511" for t i
  proof -
    have "is_table t" using that t by auto
    then have fr: "frame (t + 8 * of_nat i) = t" using that by (intro frame_nth) simp_all
    have "t + 8 * of_nat i \<noteq> t + 8 * of_nat 511" using nth_inj [of i 511 t] that by simp
    then have "t + 8 * of_nat i \<notin> {0x1FF8, 0x2FF8}" using that fr f by auto
    then show ?thesis by (simp add: demo_boot_tables_def)
  qed
  note last = tables_of_last [of demo_boot_tables, OF z]
  have e: "demo_boot_tables 0x1FF8 = 0x2003" "demo_boot_tables 0x2FF8 = 0x3003" "demo_boot_tables 0x3FF8 = 0" by (simp_all add: demo_boot_tables_def)
  show 2: "tables_of demo_boot_tables 2 0x3000 = [0x3000]"
    using last [of "0x3000" 1] e(3) by (simp add: sub_tables_def present_def numeral_2_eq_2)
  have 3: "tables_of demo_boot_tables 3 0x2000 = [0x2000, 0x3000]"
    using last [of "0x2000" 2] e(2) 2 by (simp add: sub_tables_def present_def is_leaf_def BASE_MASK_def)
  show "set (tables_of demo_boot_tables 4 0x1000) = {0x1000, 0x2000, 0x3000}"
    using last [of "0x1000" 3] e(1) 3 by (simp add: sub_tables_def present_def is_leaf_def BASE_MASK_def)
qed

lemma demo_setup:
  "mmap_ok (uint (0x1100000 :: usize)) demo_mmap" "max_by_size demo_mmap = Some (0x100000, 0x1000000)"
  "setup_status 0x1100000 0x100000 = 2288" "top_mapped demo_cpu demo_boot_tables"
  "set (tables_of demo_boot_tables 4 (old_pml4 demo_cpu)) \<inter> setup_frames 0x100000 = {}"
proof -
  show "mmap_ok (uint (0x1100000 :: usize)) demo_mmap"
    by (simp add: mmap_ok_def demo_mmap_def entry_ok_def entry_end_def)
  show "max_by_size demo_mmap = Some (0x100000, 0x1000000)" by (simp add: max_by_size_def demo_mmap_def)
  have "arena_top 0x1100000 = 25" using bit_len_eq [of 24 "0x10FFFFF"] by (simp add: arena_top_def)
  then show "setup_status 0x1100000 0x100000 = 2288"
    by (simp add: setup_status_def status_size_def arena_lists_def arena_bitmap_def setup_mem_def PHYS_LADDR_OFFSET_def)
  have o: "old_pml4 demo_cpu = 0x1000" by (simp add: old_pml4_def demo_cpu_def BASE_MASK_def)
  then have "old_last_pdpt demo_cpu demo_boot_tables = 0x2000" by (simp add: old_last_pdpt_def demo_boot_tables_def BASE_MASK_def)
  then show "top_mapped demo_cpu demo_boot_tables"
    using o by (simp add: top_mapped_def demo_boot_tables_def present_def)
  show "set (tables_of demo_boot_tables 4 (old_pml4 demo_cpu)) \<inter> setup_frames 0x100000 = {}"
    unfolding o demo_setup_tables(1) by (simp add: setup_frames_def setup_pml4_def setup_last_pdpt_def setup_offset_pdpt_def)
qed


text \<open>
  C28. When the largest block of available memory is smaller than its own base address plus three
  pages, setup panics, because the page getter counts the base twice. Such a block is well able to
  hold the three tables.
\<close>

theorem mapper_setup_panics:
  assumes "mmap_ok (uint (hi :: usize)) mmap" "max_by_size mmap = Some (b, sz)" "uint sz < uint b + 0x3000"
    and "top_mapped c m" "set (tables_of m 4 (old_pml4 c)) \<inter> setup_frames b = {}"
  shows "mapper_setup mmap h c m = None"
proof -
  note ok = mmap_block_ok [OF assms(1,2)]
  have "uint (b + 0x3000) = uint b + 0x3000"
    using ok(1) by (simp add: block_base_ok_def uint_word_ariths take_bit_int_eq_self)
  then have "\<not> b + 0x3000 \<le> sz" using assms(3) by (simp add: word_le_def)
  then have "setup_talloc mmap hi (b, sz) (b + 0x3000) h = None"
    by (simp add: setup_talloc_def checked_sub_def bind_eq_None_conv)
  then show ?thesis using mapper_setup_tables [OF assms(1,2,4,5), of h] by auto
qed

text \<open>A machine with 3 GiB of memory below the 4 GiB mark and 4 GiB above it.\<close>

definition demo_mmap_high :: "mmap_entry list" where
  "demo_mmap_high = [(0x100000, 0xBFF00000), (0x100000000, 0x100000000)]"

theorem mapper_setup_panics_witness:
  "mapper_setup demo_mmap_high zero_nodes demo_cpu demo_boot_tables = None"
proof -
  have o: "old_pml4 demo_cpu = 0x1000" by (simp add: old_pml4_def demo_cpu_def BASE_MASK_def)
  have f: "set (tables_of demo_boot_tables 4 (old_pml4 demo_cpu)) \<inter> setup_frames 0x100000000 = {}"
    unfolding o demo_setup_tables(1) by (simp add: setup_frames_def setup_pml4_def setup_last_pdpt_def setup_offset_pdpt_def)
  show ?thesis
    by (rule mapper_setup_panics [where hi = "0x200000000" and b = "0x100000000" and sz = "0x100000000", OF _ _ _ demo_setup(4) f])
      (simp_all add: mmap_ok_def demo_mmap_high_def entry_ok_def entry_end_def max_by_size_def)
qed

end
