(* ===== verification/Segmentation.thy ===== *)
theory Segmentation
  imports Registers
begin

text \<open>
  Model of \<^verbatim>\<open>amd64/src/segmentation.rs\<close>, with the system-segment descriptor types of
  \<^verbatim>\<open>amd64/src/interrupts.rs\<close> that it uses: selectors, code, data and system descriptors, the
  search for a free slot of the global descriptor table, the task state segment, and the
  instructions on segment registers.
\<close>

definition KERNEL_GS_BASE :: u32 where "KERNEL_GS_BASE = 0xC0000102"

section \<open>System-segment descriptor types\<close>

datatype ssdt = Ldt | AvlTss | BusyTss | CallGateType | InterruptGate | TrapGate

fun ssdt_bits :: "ssdt \<Rightarrow> u8" where
  "ssdt_bits Ldt = 2"
| "ssdt_bits AvlTss = 9"
| "ssdt_bits BusyTss = 11"
| "ssdt_bits CallGateType = 12"
| "ssdt_bits InterruptGate = 14"
| "ssdt_bits TrapGate = 15"

definition ssdt_from_bits :: "u8 \<Rightarrow> ssdt option" where
  "ssdt_from_bits from =
     (if from = 2 then Some Ldt else if from = 9 then Some AvlTss else if from = 11 then Some BusyTss
      else if from = 12 then Some CallGateType else if from = 14 then Some InterruptGate
      else if from = 15 then Some TrapGate else None)"

definition is_gate_type :: "ssdt \<Rightarrow> bool" where
  "is_gate_type s = (case s of InterruptGate \<Rightarrow> True | TrapGate \<Rightarrow> True | _ \<Rightarrow> False)"

section \<open>Selectors\<close>

type_synonym seg_sel = u16

definition RPL_MASK :: u16 where "RPL_MASK = 3"
definition TABLE_SELECTOR_BIT :: u16 where "TABLE_SELECTOR_BIT = 4"
definition INDEX_MASK :: u16 where "INDEX_MASK = 0xFFF8"

definition new_gdt :: "priv_lvl \<Rightarrow> u16 \<Rightarrow> seg_sel" where
  "new_gdt rpl index = ucast (priv_lvl_to_bits rpl) AND RPL_MASK OR push_bit (trailing_zeros INDEX_MASK) index"

definition new_ldt :: "priv_lvl \<Rightarrow> u16 \<Rightarrow> seg_sel" where
  "new_ldt rpl index = ucast (priv_lvl_to_bits rpl) AND RPL_MASK OR push_bit (trailing_zeros INDEX_MASK) index
     OR TABLE_SELECTOR_BIT"

definition seg_sel_from_bits :: "u16 \<Rightarrow> seg_sel" where "seg_sel_from_bits bits = bits"
definition seg_sel_to_bits :: "seg_sel \<Rightarrow> u16" where "seg_sel_to_bits s = s"

definition get_rpl :: "seg_sel \<Rightarrow> priv_lvl option" where
  "get_rpl s = priv_lvl_from_bits (ucast (s AND RPL_MASK))"

definition set_rpl :: "seg_sel \<Rightarrow> u8 \<Rightarrow> seg_sel" where
  "set_rpl s rpl = (s AND NOT RPL_MASK) OR ucast rpl"

definition get_index :: "seg_sel \<Rightarrow> u16" where
  "get_index s = drop_bit (trailing_zeros INDEX_MASK) s"

definition set_index :: "seg_sel \<Rightarrow> u16 \<Rightarrow> seg_sel" where
  "set_index s index = s AND (RPL_MASK OR TABLE_SELECTOR_BIT) OR push_bit (trailing_zeros INDEX_MASK) index"

definition get_ti :: "seg_sel \<Rightarrow> bool" where
  "get_ti s \<longleftrightarrow> s AND TABLE_SELECTOR_BIT = TABLE_SELECTOR_BIT"

definition set_ti :: "seg_sel \<Rightarrow> bool \<Rightarrow> seg_sel" where
  "set_ti s ti = (if ti then s OR TABLE_SELECTOR_BIT else s AND NOT TABLE_SELECTOR_BIT)"

section \<open>Code and data descriptors\<close>

datatype code_seg_flag =
    CONFORMING | CODE_EXECUTABLE | CODE_TYPE | CODE_DPL_MASK | DPL_RING0 | DPL_RING1 | DPL_RING2 | DPL_RING3
  | CODE_PRESENT | LONG_MODE | CODE_SIZE

fun code_seg_bits :: "code_seg_flag \<Rightarrow> u64" where
  "code_seg_bits CONFORMING = push_bit 42 1"
| "code_seg_bits CODE_EXECUTABLE = push_bit 43 1"
| "code_seg_bits CODE_TYPE = push_bit 44 1"
| "code_seg_bits CODE_DPL_MASK = push_bit 45 3"
| "code_seg_bits DPL_RING0 = push_bit 45 0"
| "code_seg_bits DPL_RING1 = push_bit 45 1"
| "code_seg_bits DPL_RING2 = push_bit 45 2"
| "code_seg_bits DPL_RING3 = push_bit 45 3"
| "code_seg_bits CODE_PRESENT = push_bit 47 1"
| "code_seg_bits LONG_MODE = push_bit 53 1"
| "code_seg_bits CODE_SIZE = push_bit 54 1"

datatype data_seg_flag = DATA_EXECUTABLE | DATA_TYPE | DATA_PRESENT

fun data_seg_bits :: "data_seg_flag \<Rightarrow> u64" where
  "data_seg_bits DATA_EXECUTABLE = push_bit 43 1"
| "data_seg_bits DATA_TYPE = push_bit 44 1"
| "data_seg_bits DATA_PRESENT = push_bit 47 1"

definition code_seg_default :: u64 where
  "code_seg_default = code_seg_bits CONFORMING OR code_seg_bits CODE_EXECUTABLE OR code_seg_bits CODE_TYPE
     OR code_seg_bits CODE_PRESENT OR code_seg_bits LONG_MODE"

definition data_seg_default :: u64 where
  "data_seg_default = data_seg_bits DATA_TYPE OR data_seg_bits DATA_PRESENT"

section \<open>Inserting into the global descriptor table\<close>

datatype seg_desc = UserSeg u64 | SysSeg u64 u64

text \<open>
  The two loops of \<open>try_insert_into_gdt\<close>. The table is a list; the results are the index and the
  table, or \<open>None\<close> for \<open>Err(())\<close>. The loop for system segments stays at an index for a second round
  after it found the slot unused.
\<close>

function insert_user_loop :: "u64 \<Rightarrow> u64 list \<Rightarrow> nat \<Rightarrow> (nat \<times> u64 list) option" where
  "insert_user_loop seg gdt index =
     (if index < length gdt then
        (let descriptor = gdt ! index in
         if \<not> contains descriptor (code_seg_bits CODE_PRESENT) then Some (index, gdt[index := seg])
         else if \<not> contains descriptor (code_seg_bits CODE_TYPE) then insert_user_loop seg gdt (index + 2)
         else insert_user_loop seg gdt (index + 1))
      else None)"
  by pat_completeness auto

termination insert_user_loop
  by (relation "measure (\<lambda>(_, gdt, index). length gdt - index)") auto

function insert_sys_loop :: "u64 \<Rightarrow> u64 \<Rightarrow> u64 list \<Rightarrow> nat \<Rightarrow> bool \<Rightarrow> (nat \<times> u64 list) option" where
  "insert_sys_loop seg_lo seg_hi gdt index prev_avl =
     (if index < length gdt then
        (let descriptor = gdt ! index in
         if \<not> contains descriptor (code_seg_bits CODE_PRESENT) then
           (if prev_avl then Some (index - 1, gdt[index - 1 := seg_lo, index := seg_hi])
            else insert_sys_loop seg_lo seg_hi gdt index True)
         else if \<not> contains descriptor (code_seg_bits CODE_TYPE)
         then insert_sys_loop seg_lo seg_hi gdt (index + 2) False
         else insert_sys_loop seg_lo seg_hi gdt (index + 1) False)
      else None)"
  by pat_completeness auto

termination insert_sys_loop
  by (relation "measure (\<lambda>(_, _, gdt, index, prev_avl). 2 * (length gdt - index) - of_bool prev_avl)")
    (auto simp: of_bool_def)

declare insert_user_loop.simps [simp del] insert_sys_loop.simps [simp del]

definition try_insert_into_gdt :: "seg_desc \<Rightarrow> u64 list \<Rightarrow> (nat \<times> u64 list) option" where
  "try_insert_into_gdt d gdt =
     (case d of UserSeg seg \<Rightarrow> insert_user_loop seg gdt 1
      | SysSeg seg_lo seg_hi \<Rightarrow> insert_sys_loop seg_lo seg_hi gdt 1 False)"

section \<open>System descriptors\<close>

record sys_seg_desc =
  limit_lo :: u16
  base_lo :: u16
  base_mid_0 :: u8
  sys_flags :: u8
  g_limit_hi :: u8
  base_mid_1 :: u8
  base_hi :: u32
  sys_reserved :: u32

definition FLAG_PRESENT :: u8 where "FLAG_PRESENT = 0x80"
definition DPL_MASK :: u8 where "DPL_MASK = 0x60"
definition SSDT_MASK :: u8 where "SSDT_MASK = 0x0F"
definition GRANULARITY :: u8 where "GRANULARITY = 0x80"
definition LIMIT_MASK :: u8 where "LIMIT_MASK = 0x0F"

definition sys_seg_new :: "ptr \<Rightarrow> u32 \<Rightarrow> ssdt \<Rightarrow> priv_lvl \<Rightarrow> bool \<Rightarrow> sys_seg_desc" where
  "sys_seg_new base limit s priviledge page_granularity_limit =
     \<lparr>limit_lo = ucast limit,
      base_lo = ucast base,
      base_mid_0 = ucast (drop_bit 16 base),
      sys_flags = ssdt_bits s OR push_bit 5 (priv_lvl_to_bits priviledge) OR 0x80,
      g_limit_hi = ucast (drop_bit 16 limit AND 7) OR push_bit 7 (of_bool page_granularity_limit),
      base_mid_1 = ucast (drop_bit 24 base),
      base_hi = ucast (drop_bit 32 base),
      sys_reserved = 0\<rparr>"

text \<open>\<open>transmute\<close> between the structure and two 64-bit words, fields in order, little endian.\<close>

definition sys_seg_to_bits :: "sys_seg_desc \<Rightarrow> u64 \<times> u64" where
  "sys_seg_to_bits d =
     (ucast (limit_lo d) OR push_bit 16 (ucast (base_lo d)) OR push_bit 32 (ucast (base_mid_0 d))
        OR push_bit 40 (ucast (sys_flags d)) OR push_bit 48 (ucast (g_limit_hi d)) OR push_bit 56 (ucast (base_mid_1 d)),
      ucast (base_hi d) OR push_bit 32 (ucast (sys_reserved d)))"

definition sys_seg_from_bits_unchecked :: "u64 \<times> u64 \<Rightarrow> sys_seg_desc" where
  "sys_seg_from_bits_unchecked w =
     \<lparr>limit_lo = ucast (fst w), base_lo = ucast (drop_bit 16 (fst w)), base_mid_0 = ucast (drop_bit 32 (fst w)),
      sys_flags = ucast (drop_bit 40 (fst w)), g_limit_hi = ucast (drop_bit 48 (fst w)),
      base_mid_1 = ucast (drop_bit 56 (fst w)), base_hi = ucast (snd w), sys_reserved = ucast (drop_bit 32 (snd w))\<rparr>"

definition get_base :: "sys_seg_desc \<Rightarrow> u64" where
  "get_base d = ucast (base_lo d) OR push_bit 16 (ucast (base_mid_0 d)) OR push_bit 24 (ucast (base_mid_1 d))
     OR push_bit 32 (ucast (base_hi d))"

definition set_base :: "sys_seg_desc \<Rightarrow> u64 \<Rightarrow> sys_seg_desc" where
  "set_base d base_laddr = d\<lparr>base_lo := ucast base_laddr, base_mid_0 := ucast (drop_bit 16 base_laddr),
     base_mid_1 := ucast (drop_bit 24 base_laddr), base_hi := ucast (drop_bit 32 base_laddr)\<rparr>"

definition get_limit :: "sys_seg_desc \<Rightarrow> u32" where
  "get_limit d = ucast (limit_lo d) OR push_bit 16 (ucast (g_limit_hi d AND LIMIT_MASK))"

definition set_limit :: "sys_seg_desc \<Rightarrow> u32 \<Rightarrow> sys_seg_desc" where
  "set_limit d limit = d\<lparr>limit_lo := ucast limit,
     g_limit_hi := g_limit_hi d AND NOT LIMIT_MASK OR ucast (drop_bit 16 limit)\<rparr>"

definition sys_get_ssdt :: "sys_seg_desc \<Rightarrow> ssdt option" where
  "sys_get_ssdt d = ssdt_from_bits (sys_flags d AND SSDT_MASK)"

definition sys_set_ssdt :: "sys_seg_desc \<Rightarrow> ssdt \<Rightarrow> sys_seg_desc option" where
  "sys_set_ssdt d s = do {
     rust_assert (is_gate_type s);
     Some (d\<lparr>sys_flags := sys_flags d AND NOT SSDT_MASK OR ssdt_bits s\<rparr>)
   }"

definition sys_get_dpl :: "sys_seg_desc \<Rightarrow> priv_lvl option" where
  "sys_get_dpl d = priv_lvl_from_bits (drop_bit (trailing_zeros DPL_MASK) (sys_flags d AND DPL_MASK))"

definition sys_set_dpl :: "sys_seg_desc \<Rightarrow> priv_lvl \<Rightarrow> sys_seg_desc" where
  "sys_set_dpl d dpl = d\<lparr>sys_flags := sys_flags d AND NOT DPL_MASK OR priv_lvl_to_bits dpl\<rparr>"

definition sys_is_present :: "sys_seg_desc \<Rightarrow> bool" where
  "sys_is_present d \<longleftrightarrow> sys_flags d AND FLAG_PRESENT = FLAG_PRESENT"

definition sys_set_present :: "sys_seg_desc \<Rightarrow> bool \<Rightarrow> sys_seg_desc" where
  "sys_set_present d p = d\<lparr>sys_flags := (if p then sys_flags d OR FLAG_PRESENT else sys_flags d AND NOT FLAG_PRESENT)\<rparr>"

definition get_page_granularity :: "sys_seg_desc \<Rightarrow> bool" where
  "get_page_granularity d \<longleftrightarrow> g_limit_hi d AND GRANULARITY = GRANULARITY"

definition set_page_granularity :: "sys_seg_desc \<Rightarrow> bool \<Rightarrow> sys_seg_desc" where
  "set_page_granularity d g =
     d\<lparr>g_limit_hi := (if g then g_limit_hi d OR GRANULARITY else g_limit_hi d AND NOT GRANULARITY)\<rparr>"

text \<open>\<open>PartialEq\<close> compares all fields but the reserved one.\<close>

definition sys_seg_eq :: "sys_seg_desc \<Rightarrow> sys_seg_desc \<Rightarrow> bool" where
  "sys_seg_eq d e \<longleftrightarrow> limit_lo d = limit_lo e \<and> base_lo d = base_lo e \<and> base_mid_0 d = base_mid_0 e \<and>
     sys_flags d = sys_flags e \<and> g_limit_hi d = g_limit_hi e \<and> base_mid_1 d = base_mid_1 e \<and> base_hi d = base_hi e"

section \<open>The task state segment\<close>

record task_state_seg =
  reserved_0 :: u32
  rsp_table :: "ptr list"
  reserved_1 :: u64
  ist_table :: "ptr list"
  reserved_2 :: u64
  reserved_3 :: u16
  io_map_base_offset :: u16

definition TSS_LIMIT :: u32 where "TSS_LIMIT = 104 - 1"

definition tss_new :: "ptr list \<Rightarrow> ptr list \<Rightarrow> task_state_seg" where
  "tss_new rsps ists = \<lparr>reserved_0 = 0, rsp_table = rsps, reserved_1 = 0, ist_table = ists, reserved_2 = 0,
     reserved_3 = 0, io_map_base_offset = 0xDFFF\<rparr>"

section \<open>Instructions on segment registers\<close>

text \<open>A descriptor-table register holds a limit and a base.\<close>

record dt_op =
  dt_limit :: u16
  dt_base :: u64

record seg_cpu = cpu +
  gdtr :: dt_op
  idtr :: dt_op
  task_reg :: u16
  seg_cs :: u16
  seg_ds :: u16
  seg_es :: u16
  seg_fs :: u16
  seg_gs :: u16
  seg_ss :: u16
  fs_base :: u64
  gs_base :: u64

definition lgdt_raw :: "u16 \<Rightarrow> ptr \<Rightarrow> 'a seg_cpu_scheme \<Rightarrow> 'a seg_cpu_scheme" where
  "lgdt_raw limit base c = c\<lparr>gdtr := \<lparr>dt_limit = limit, dt_base = base\<rparr>\<rparr>"

text \<open>A slice is its address and its length.\<close>

definition lgdt :: "ptr \<times> usize \<Rightarrow> 'a seg_cpu_scheme \<Rightarrow> 'a seg_cpu_scheme option" where
  "lgdt gdt c = do {
     bytes \<leftarrow> checked_mul (snd gdt) 8;
     limit \<leftarrow> checked_sub bytes 1;
     Some (lgdt_raw (ucast limit) (fst gdt) c)
   }"

definition sgdt_raw :: "'a seg_cpu_scheme \<Rightarrow> u16 \<times> ptr" where
  "sgdt_raw c = (dt_limit (gdtr c), dt_base (gdtr c))"

definition sgdt :: "'a seg_cpu_scheme \<Rightarrow> (ptr \<times> usize) option" where
  "sgdt c = (case sgdt_raw c of (limit, base) \<Rightarrow> do {
     bytes \<leftarrow> checked_add (ucast limit) 1;
     Some (base, bytes div 8)
   })"

definition ltr :: "seg_sel \<Rightarrow> 'a seg_cpu_scheme \<Rightarrow> 'a seg_cpu_scheme" where
  "ltr sel c = c\<lparr>task_reg := seg_sel_to_bits sel\<rparr>"

definition store_task_reg :: "'a seg_cpu_scheme \<Rightarrow> seg_sel" where
  "store_task_reg c = seg_sel_from_bits (task_reg c)"

definition cs_read :: "'a seg_cpu_scheme \<Rightarrow> u16" where "cs_read c = seg_cs c"
definition cs_write :: "seg_sel \<Rightarrow> 'a seg_cpu_scheme \<Rightarrow> 'a seg_cpu_scheme" where "cs_write sel c = c\<lparr>seg_cs := sel\<rparr>"
definition fs_read :: "'a seg_cpu_scheme \<Rightarrow> u16" where "fs_read c = seg_fs c"
definition fs_write :: "seg_sel \<Rightarrow> 'a seg_cpu_scheme \<Rightarrow> 'a seg_cpu_scheme" where "fs_write sel c = c\<lparr>seg_fs := sel\<rparr>"
definition gs_read :: "'a seg_cpu_scheme \<Rightarrow> u16" where "gs_read c = seg_gs c"
definition gs_write :: "seg_sel \<Rightarrow> 'a seg_cpu_scheme \<Rightarrow> 'a seg_cpu_scheme" where "gs_write sel c = c\<lparr>seg_gs := sel\<rparr>"
definition rdfsbase :: "'a seg_cpu_scheme \<Rightarrow> u64" where "rdfsbase c = fs_base c"
definition wrfsbase :: "u64 \<Rightarrow> 'a seg_cpu_scheme \<Rightarrow> 'a seg_cpu_scheme" where "wrfsbase v c = c\<lparr>fs_base := v\<rparr>"
definition rdgsbase :: "'a seg_cpu_scheme \<Rightarrow> u64" where "rdgsbase c = gs_base c"
definition wrgsbase :: "u64 \<Rightarrow> 'a seg_cpu_scheme \<Rightarrow> 'a seg_cpu_scheme" where "wrgsbase v c = c\<lparr>gs_base := v\<rparr>"

definition gsswap :: "'a seg_cpu_scheme \<Rightarrow> 'a seg_cpu_scheme" where
  "gsswap c = c\<lparr>gs_base := msrs c KERNEL_GS_BASE, msrs := (msrs c)(KERNEL_GS_BASE := gs_base c)\<rparr>"

section \<open>Facts on the descriptors\<close>

lemma ssdt_from_bits_bits [simp]: "ssdt_from_bits (ssdt_bits s) = Some s"
  by (cases s) (simp_all add: ssdt_from_bits_def)

lemma bit_beyond: "LENGTH('a) \<le> n \<Longrightarrow> \<not> bit w n" for w :: "'a::len word"
  by (meson bit_imp_le_length not_le)

text \<open>The pieces of a word put together again.\<close>

lemma join_address:
  "ucast (ucast w :: u16) OR push_bit 16 (ucast (ucast (drop_bit 16 w) :: u8)) OR
   push_bit 24 (ucast (ucast (drop_bit 24 w) :: u8)) OR push_bit 32 (ucast (ucast (drop_bit 32 w) :: u32)) = w"
  (is "?l = w") for w :: u64
proof (rule bit_word_eqI)
  fix n assume n: "n < LENGTH(64)"
  consider "n < 16" | "16 \<le> n" "n < 24" | "24 \<le> n" "n < 32" | "32 \<le> n" by linarith
  then show "bit ?l n = bit w n" using n by cases (simp_all add: bit_simps less_diff_conv2)
qed

lemma low_masks:
  "(7 :: 'a::len word) = mask 3" "(0x0F :: 'a::len word) = mask 4" "(0x7FFFF :: 'a::len word) = mask 19"
  by (simp_all add: mask_eq_exp_minus_1)

lemma limit_parts:
  fixes limit :: u32 and g :: bool
  defines "h \<equiv> ucast (drop_bit 16 limit AND 7) OR push_bit 7 (of_bool g) :: u8"
  shows "h AND 0x80 = 0x80 \<longleftrightarrow> g"
    "ucast (ucast limit :: u16) OR push_bit 16 (ucast (h AND 0x0F)) = limit AND 0x7FFFF"
proof -
  have b: "bit h n \<longleftrightarrow> n < 3 \<and> bit limit (16 + n) \<or> n = 7 \<and> g" if "n < 8" for n
    unfolding h_def low_masks using that by (auto simp: bit_simps)
  have "h AND 0x80 = 0x80 \<longleftrightarrow> contains h (push_bit 7 1)" by (simp add: contains_def)
  also have "\<dots> \<longleftrightarrow> bit h 7" by (rule contains_bit) simp
  finally show "h AND 0x80 = 0x80 \<longleftrightarrow> g" by (simp add: b)
  show "ucast (ucast limit :: u16) OR push_bit 16 (ucast (h AND 0x0F)) = limit AND 0x7FFFF" (is "?l = ?r")
  proof (rule bit_word_eqI)
    fix n assume n: "n < LENGTH(32)"
    consider "n < 16" | "16 \<le> n" "n < 20" | "20 \<le> n" by linarith
    then show "bit ?l n = bit ?r n" unfolding low_masks using n
      by cases (auto simp: bit_simps b less_diff_conv2)
  qed
qed

lemma sys_seg_bits_roundtrip: "sys_seg_from_bits_unchecked (sys_seg_to_bits d) = d"
proof -
  have "limit_lo (sys_seg_from_bits_unchecked (sys_seg_to_bits d)) = limit_lo d"
    "base_lo (sys_seg_from_bits_unchecked (sys_seg_to_bits d)) = base_lo d"
    "base_mid_0 (sys_seg_from_bits_unchecked (sys_seg_to_bits d)) = base_mid_0 d"
    "sys_flags (sys_seg_from_bits_unchecked (sys_seg_to_bits d)) = sys_flags d"
    "g_limit_hi (sys_seg_from_bits_unchecked (sys_seg_to_bits d)) = g_limit_hi d"
    "base_mid_1 (sys_seg_from_bits_unchecked (sys_seg_to_bits d)) = base_mid_1 d"
    "base_hi (sys_seg_from_bits_unchecked (sys_seg_to_bits d)) = base_hi d"
    "sys_reserved (sys_seg_from_bits_unchecked (sys_seg_to_bits d)) = sys_reserved d"
    unfolding sys_seg_from_bits_unchecked_def sys_seg_to_bits_def
    by (rule bit_word_eqI, simp add: bit_simps bit_beyond)+
  then show ?thesis by (cases d, cases "sys_seg_from_bits_unchecked (sys_seg_to_bits d)") simp
qed

text \<open>The flags byte of descriptors and gates: type, privilege level and present bit do not overlap.\<close>

lemma flags_byte:
  fixes s :: ssdt and p :: priv_lvl
  defines "f \<equiv> ssdt_bits s OR push_bit 5 (priv_lvl_to_bits p) OR 0x80"
  shows "f AND 0x0F = ssdt_bits s" "drop_bit 5 (f AND 0x60) = priv_lvl_to_bits p" "f AND 0x80 = 0x80"
  unfolding f_def by (cases s; cases p; simp)+

lemma trailing_zeros_masks: "trailing_zeros DPL_MASK = 5" "trailing_zeros INDEX_MASK = 3"
  by code_simp+

lemma sys_seg_fields:
  fixes base limit s p g
  defines "d \<equiv> sys_seg_new base limit s p g"
  shows "get_base d = base" "get_limit d = limit AND 0x7FFFF" "sys_get_ssdt d = Some s" "sys_get_dpl d = Some p"
    "sys_is_present d" "get_page_granularity d = g"
proof -
  have sel: "sys_flags d = ssdt_bits s OR push_bit 5 (priv_lvl_to_bits p) OR 0x80" by (simp add: d_def sys_seg_new_def)
  show "get_base d = base" using join_address [of base] by (simp add: d_def get_base_def sys_seg_new_def)
  show "sys_get_ssdt d = Some s" "sys_is_present d"
    unfolding sys_get_ssdt_def sys_is_present_def sel SSDT_MASK_def FLAG_PRESENT_def flags_byte by simp_all
  show "sys_get_dpl d = Some p"
    unfolding sys_get_dpl_def trailing_zeros_masks sel unfolding DPL_MASK_def flags_byte by simp
  show "get_page_granularity d = g" "get_limit d = limit AND 0x7FFFF"
    using limit_parts [of limit g]
    by (simp_all add: d_def get_page_granularity_def get_limit_def GRANULARITY_def LIMIT_MASK_def sys_seg_new_def)
qed

section \<open>Properties\<close>

text \<open>
  C30. A system-segment descriptor made by \<open>SysSegDesc::new\<close> gives back the base address, the type, the
  privilege level and the granularity it was made of, and of the limit the low 19 bits; it is
  present; and the conversion to two words and back loses nothing.
\<close>

theorem sys_seg_new_fields:
  fixes base limit s p g
  defines "d \<equiv> sys_seg_new base limit s p g"
  shows "get_base d = base \<and> get_limit d = limit AND 0x7FFFF \<and> sys_get_ssdt d = Some s \<and> sys_get_dpl d = Some p \<and>
    sys_is_present d \<and> get_page_granularity d = g \<and> sys_seg_from_bits_unchecked (sys_seg_to_bits d) = d"
  unfolding d_def by (intro conjI sys_seg_fields sys_seg_bits_roundtrip)

text \<open>The descriptors that the search passes: one after the other, two slots for a system segment.\<close>

inductive passes :: "u64 list \<Rightarrow> nat \<Rightarrow> nat \<Rightarrow> bool" for gdt where
  pass_here: "passes gdt i i"
| pass_sys: "i < length gdt \<Longrightarrow> bit (gdt ! i) 47 \<Longrightarrow> \<not> bit (gdt ! i) 44 \<Longrightarrow> passes gdt (Suc (Suc i)) k \<Longrightarrow> passes gdt i k"
| pass_user: "i < length gdt \<Longrightarrow> bit (gdt ! i) 47 \<Longrightarrow> bit (gdt ! i) 44 \<Longrightarrow> passes gdt (Suc i) k \<Longrightarrow> passes gdt i k"

inductive_cases passesE: "passes gdt i k"

lemma descriptor_flags:
  "contains d (code_seg_bits CODE_PRESENT) \<longleftrightarrow> bit d 47" "contains d (code_seg_bits CODE_TYPE) \<longleftrightarrow> bit d 44" for d :: u64
  using contains_bit [of 47 d] contains_bit [of 44 d] by simp_all

declare code_seg_bits.simps [simp del]

text \<open>The result of an insertion of a code or data descriptor that starts to look at slot \<open>i\<close>.\<close>

definition inserted :: "u64 \<Rightarrow> u64 list \<Rightarrow> nat \<Rightarrow> (nat \<times> u64 list) option \<Rightarrow> bool" where
  "inserted seg gdt i r \<longleftrightarrow> (case r of
     Some (k, gdt') \<Rightarrow> passes gdt i k \<and> k < length gdt \<and> \<not> bit (gdt ! k) 47 \<and> gdt' = gdt[k := seg]
   | None \<Rightarrow> \<forall>k. passes gdt i k \<longrightarrow> k < length gdt \<longrightarrow> bit (gdt ! k) 47)"

lemma insert_user_loop_spec: "inserted seg gdt i (insert_user_loop seg gdt i)"
proof (induction seg gdt i rule: insert_user_loop.induct)
  case (1 seg gdt i)
  show ?case
  proof (cases "i < length gdt \<and> bit (gdt ! i) 47")
    case False
    then show ?thesis
      by (subst insert_user_loop.simps) (auto simp: inserted_def Let_def descriptor_flags intro: pass_here elim: passesE)
  next
    case True
    define n where "n = (if bit (gdt ! i) 44 then Suc i else Suc (Suc i))"
    have e: "insert_user_loop seg gdt i = insert_user_loop seg gdt n"
      using True by (subst insert_user_loop.simps) (simp add: n_def Let_def descriptor_flags)
    have st: "passes gdt i k \<longleftrightarrow> k = i \<or> passes gdt n k" for k
      using True by (auto simp: n_def intro: passes.intros elim: passesE split: if_splits)
    have "inserted seg gdt n (insert_user_loop seg gdt n)"
      using 1 True by (auto simp: n_def descriptor_flags)
    then show ?thesis unfolding e inserted_def using st True by (auto split: option.splits)
  qed
qed

lemma insert_sys_loop_eq:
  "insert_sys_loop lo hi gdt i False =
     map_option (\<lambda>(k, _). (k - 1, gdt[k - 1 := lo, k := hi])) (insert_user_loop seg gdt i)"
proof (induction seg gdt i rule: insert_user_loop.induct)
  case (1 seg gdt i)
  show ?case
  proof (cases "i < length gdt \<and> bit (gdt ! i) 47")
    case True
    then show ?thesis
      using 1 by (subst insert_sys_loop.simps, subst insert_user_loop.simps) (simp add: Let_def descriptor_flags)
  next
    case False
    then have "insert_sys_loop lo hi gdt i False =
        (if i < length gdt then Some (i - 1, gdt[i - 1 := lo, i := hi]) else None)"
      by (subst insert_sys_loop.simps, subst insert_sys_loop.simps) (simp add: Let_def descriptor_flags)
    then show ?thesis using False by (subst insert_user_loop.simps) (simp add: Let_def descriptor_flags)
  qed
qed

text \<open>
  C31. The insertion of a code or data descriptor puts it in a slot that the walk over the table
  reaches from slot 1 and whose descriptor is not present, changes nothing else, and fails only when
  every slot of the walk is in use.
\<close>

theorem insert_user_segment: "inserted seg gdt 1 (try_insert_into_gdt (UserSeg seg) gdt)"
  using insert_user_loop_spec [of seg gdt 1] by (simp add: try_insert_into_gdt_def)

text \<open>
  C32. The insertion of a system descriptor takes the slot before the first unused slot, in use or not:
  where a code or data descriptor would go to slot \<open>k\<close>, it writes the low half over slot \<open>k - 1\<close> and the high half
  to slot \<open>k\<close>. The second unused slot that the code means to look for is never looked at.
\<close>

theorem insert_system_segment_clobbers:
  assumes "try_insert_into_gdt (UserSeg seg) gdt = Some (k, gdt')"
  shows "try_insert_into_gdt (SysSeg lo hi) gdt = Some (k - 1, gdt[k - 1 := lo, k := hi])"
  using assms insert_sys_loop_eq [of lo hi gdt 1 seg] by (simp add: try_insert_into_gdt_def)

theorem insert_system_segment_clobbers_witness:
  "try_insert_into_gdt (SysSeg 7 8) [0, 0x209C0000000000, 0, 0] = Some (1, [0, 7, 8, 0])"
proof -
  have "try_insert_into_gdt (UserSeg 9) [0, 0x209C0000000000, 0, 0] = Some (2, [0, 0x209C0000000000, 9, 0])" by code_simp
  from insert_system_segment_clobbers [OF this, of 7 8] show ?thesis by simp
qed

end
