(* ===== verification/Interrupts.thy ===== *)
theory Interrupts
  imports Segmentation
begin

text \<open>
  Model of \<^verbatim>\<open>amd64/src/interrupts.rs\<close>: error codes, interrupt and call gates, the interrupt
  descriptor table with the layout that the processor indexes, and the instructions on IDTR, TR and
  the interrupt flag.
\<close>

section \<open>Error codes\<close>

datatype sel_err_code = SEL_EXTERNAL | SEL_IDT | SEL_LDT | SEL_INDEX_MASK

fun sel_err_code_bits :: "sel_err_code \<Rightarrow> u64" where
  "sel_err_code_bits SEL_EXTERNAL = push_bit 0 1"
| "sel_err_code_bits SEL_IDT = push_bit 1 1"
| "sel_err_code_bits SEL_LDT = push_bit 2 1"
| "sel_err_code_bits SEL_INDEX_MASK = 0xFFF8"

datatype pf_err_code = PF_P | PF_RW | PF_US | PF_RSV | PF_ID | PF_PK | PF_SS | PF_RMP

fun pf_err_code_bits :: "pf_err_code \<Rightarrow> u64" where
  "pf_err_code_bits PF_P = push_bit 0 1"
| "pf_err_code_bits PF_RW = push_bit 1 1"
| "pf_err_code_bits PF_US = push_bit 2 1"
| "pf_err_code_bits PF_RSV = push_bit 3 1"
| "pf_err_code_bits PF_ID = push_bit 4 1"
| "pf_err_code_bits PF_PK = push_bit 5 1"
| "pf_err_code_bits PF_SS = push_bit 6 1"
| "pf_err_code_bits PF_RMP = push_bit 31 1"

datatype ctrl_prot_err_code = CP_Near | CP_FarRetIRet | CP_RstorSsp | CP_SetSsBsy

fun ctrl_prot_err_code_bits :: "ctrl_prot_err_code \<Rightarrow> u32" where
  "ctrl_prot_err_code_bits CP_Near = 1"
| "ctrl_prot_err_code_bits CP_FarRetIRet = 2"
| "ctrl_prot_err_code_bits CP_RstorSsp = 3"
| "ctrl_prot_err_code_bits CP_SetSsBsy = 4"

section \<open>Interrupt and trap gates\<close>

definition GATE_FLAG_PRESENT :: u8 where "GATE_FLAG_PRESENT = 0x80"
definition GATE_DPL_MASK :: u8 where "GATE_DPL_MASK = 0x60"
definition GATE_SSDT_MASK :: u8 where "GATE_SSDT_MASK = 0x0F"

record int_trap_gate =
  isr_ptr_lo :: u16
  gate_selector :: u16
  gate_ist :: u8
  gate_flags :: u8
  isr_ptr_mid :: u16
  isr_ptr_hi :: u32
  gate_reserved :: u32

definition gate_missing :: "ssdt \<Rightarrow> int_trap_gate option" where
  "gate_missing s = do {
     rust_assert (is_gate_type s);
     Some \<lparr>isr_ptr_lo = 0, gate_selector = 0, gate_ist = 0, gate_flags = ssdt_bits s, isr_ptr_mid = 0, isr_ptr_hi = 0,
           gate_reserved = 0\<rparr>
   }"

definition gate_new :: "u64 \<Rightarrow> seg_sel \<Rightarrow> u8 \<Rightarrow> ssdt \<Rightarrow> priv_lvl \<Rightarrow> int_trap_gate option" where
  "gate_new target_laddr sel ist s priviledge = do {
     rust_assert (ist < 8);
     rust_assert (is_gate_type s);
     Some \<lparr>isr_ptr_lo = ucast target_laddr, gate_selector = sel, gate_ist = ist,
           gate_flags = ssdt_bits s OR push_bit (trailing_zeros GATE_DPL_MASK) (priv_lvl_to_bits priviledge)
             OR GATE_FLAG_PRESENT,
           isr_ptr_mid = ucast (drop_bit 16 target_laddr), isr_ptr_hi = ucast (drop_bit 32 target_laddr),
           gate_reserved = 0\<rparr>
   }"

definition gate_get_target :: "int_trap_gate \<Rightarrow> u64" where
  "gate_get_target g = ucast (isr_ptr_lo g) OR push_bit 16 (ucast (isr_ptr_mid g)) OR push_bit 32 (ucast (isr_ptr_hi g))"

definition gate_set_target :: "int_trap_gate \<Rightarrow> u64 \<Rightarrow> int_trap_gate" where
  "gate_set_target g target_laddr = g\<lparr>isr_ptr_lo := ucast target_laddr, isr_ptr_mid := ucast (drop_bit 16 target_laddr),
     isr_ptr_hi := ucast (drop_bit 32 target_laddr)\<rparr>"

definition gate_get_ist :: "int_trap_gate \<Rightarrow> u8" where "gate_get_ist g = gate_ist g"

definition gate_set_ist :: "int_trap_gate \<Rightarrow> u8 \<Rightarrow> int_trap_gate option" where
  "gate_set_ist g ist = do { rust_assert (ist < 8); Some (g\<lparr>gate_ist := ist\<rparr>) }"

definition gate_get_ssdt :: "int_trap_gate \<Rightarrow> ssdt option" where
  "gate_get_ssdt g = ssdt_from_bits (gate_flags g AND GATE_SSDT_MASK)"

definition gate_set_ssdt :: "int_trap_gate \<Rightarrow> ssdt \<Rightarrow> int_trap_gate option" where
  "gate_set_ssdt g s = do {
     rust_assert (is_gate_type s);
     Some (g\<lparr>gate_flags := gate_flags g AND NOT GATE_SSDT_MASK OR ssdt_bits s\<rparr>)
   }"

definition gate_get_dpl :: "int_trap_gate \<Rightarrow> priv_lvl option" where
  "gate_get_dpl g = priv_lvl_from_bits (drop_bit (trailing_zeros GATE_DPL_MASK) (gate_flags g AND GATE_DPL_MASK))"

definition gate_set_dpl :: "int_trap_gate \<Rightarrow> priv_lvl \<Rightarrow> int_trap_gate" where
  "gate_set_dpl g dpl = g\<lparr>gate_flags := gate_flags g AND NOT GATE_DPL_MASK OR priv_lvl_to_bits dpl\<rparr>"

definition gate_is_present :: "int_trap_gate \<Rightarrow> bool" where
  "gate_is_present g \<longleftrightarrow> gate_flags g AND GATE_FLAG_PRESENT = GATE_FLAG_PRESENT"

definition gate_set_present :: "int_trap_gate \<Rightarrow> bool \<Rightarrow> int_trap_gate" where
  "gate_set_present g p =
     g\<lparr>gate_flags := (if p then gate_flags g OR GATE_FLAG_PRESENT else gate_flags g AND NOT GATE_FLAG_PRESENT)\<rparr>"

definition gate_eq :: "int_trap_gate \<Rightarrow> int_trap_gate \<Rightarrow> bool" where
  "gate_eq g h \<longleftrightarrow> isr_ptr_lo g = isr_ptr_lo h \<and> gate_selector g = gate_selector h \<and> gate_ist g = gate_ist h \<and>
     gate_flags g = gate_flags h \<and> isr_ptr_mid g = isr_ptr_mid h \<and> isr_ptr_hi g = isr_ptr_hi h"

section \<open>Call gates\<close>

record call_gate =
  cg_ptr_lo :: u16
  cg_selector :: u16
  cg_reserved_0 :: u8
  cg_flags :: u8
  cg_ptr_mid :: u16
  cg_ptr_hi :: u32
  cg_reserved_1 :: u32

definition call_gate_missing :: call_gate where
  "call_gate_missing = \<lparr>cg_ptr_lo = 0, cg_selector = 0, cg_reserved_0 = 0, cg_flags = ssdt_bits CallGateType,
     cg_ptr_mid = 0, cg_ptr_hi = 0, cg_reserved_1 = 0\<rparr>"

definition call_gate_new :: "u64 \<Rightarrow> seg_sel \<Rightarrow> priv_lvl \<Rightarrow> call_gate" where
  "call_gate_new target_laddr sel priviledge = \<lparr>cg_ptr_lo = ucast target_laddr, cg_selector = sel, cg_reserved_0 = 0,
     cg_flags = ssdt_bits CallGateType OR push_bit (trailing_zeros GATE_DPL_MASK) (priv_lvl_to_bits priviledge)
       OR GATE_FLAG_PRESENT,
     cg_ptr_mid = ucast (drop_bit 16 target_laddr), cg_ptr_hi = ucast (drop_bit 32 target_laddr), cg_reserved_1 = 0\<rparr>"

definition call_gate_get_target :: "call_gate \<Rightarrow> u64" where
  "call_gate_get_target g = ucast (cg_ptr_lo g) OR push_bit 16 (ucast (cg_ptr_mid g)) OR push_bit 32 (ucast (cg_ptr_hi g))"

definition call_gate_set_target :: "call_gate \<Rightarrow> u64 \<Rightarrow> call_gate" where
  "call_gate_set_target g target_laddr = g\<lparr>cg_ptr_lo := ucast target_laddr, cg_ptr_mid := ucast (drop_bit 16 target_laddr),
     cg_ptr_hi := ucast (drop_bit 32 target_laddr)\<rparr>"

definition call_gate_get_dpl :: "call_gate \<Rightarrow> priv_lvl option" where
  "call_gate_get_dpl g = priv_lvl_from_bits (drop_bit (trailing_zeros GATE_DPL_MASK) (cg_flags g AND GATE_DPL_MASK))"

definition call_gate_set_dpl :: "call_gate \<Rightarrow> priv_lvl \<Rightarrow> call_gate" where
  "call_gate_set_dpl g dpl = g\<lparr>cg_flags := cg_flags g AND NOT GATE_DPL_MASK OR priv_lvl_to_bits dpl\<rparr>"

definition call_gate_is_present :: "call_gate \<Rightarrow> bool" where
  "call_gate_is_present g \<longleftrightarrow> cg_flags g AND GATE_FLAG_PRESENT = GATE_FLAG_PRESENT"

definition call_gate_set_present :: "call_gate \<Rightarrow> bool \<Rightarrow> call_gate" where
  "call_gate_set_present g p =
     g\<lparr>cg_flags := (if p then cg_flags g OR GATE_FLAG_PRESENT else cg_flags g AND NOT GATE_FLAG_PRESENT)\<rparr>"

definition call_gate_eq :: "call_gate \<Rightarrow> call_gate \<Rightarrow> bool" where
  "call_gate_eq g h \<longleftrightarrow> cg_ptr_lo g = cg_ptr_lo h \<and> cg_selector g = cg_selector h \<and> cg_flags g = cg_flags h \<and>
     cg_ptr_mid g = cg_ptr_mid h \<and> cg_ptr_hi g = cg_ptr_hi h"

section \<open>The interrupt descriptor table\<close>

record interrupt_stack_frame =
  isf_rip :: ptr
  isf_cs :: u64
  isf_rflags :: u64
  isf_rsp :: ptr
  isf_ss :: u64

record idt =
  div_by_zero_fault :: int_trap_gate
  debug :: int_trap_gate
  non_maskable_interrupt :: int_trap_gate
  break_point_trap :: int_trap_gate
  overflow_trap :: int_trap_gate
  bound_range_fault :: int_trap_gate
  invalid_opcode_fault :: int_trap_gate
  device_not_available_fault :: int_trap_gate
  double_fault_abort :: int_trap_gate
  idt_reserved_0 :: "128 word"
  invalid_tss_fault :: int_trap_gate
  segment_not_present_fault :: int_trap_gate
  stack_fault :: int_trap_gate
  general_protection_fault :: int_trap_gate
  page_fault :: int_trap_gate
  idt_reserved_1 :: "128 word"
  x87_fp_fault :: int_trap_gate
  alignment_check_fault :: int_trap_gate
  machine_check_abort :: int_trap_gate
  simd_fp_fault :: int_trap_gate
  idt_reserved_2 :: "128 word"
  control_protection_fault :: int_trap_gate
  idt_reserved_3 :: "128 word list"
  hypervisor_injection :: int_trap_gate
  vmm_communication_fault :: int_trap_gate
  security :: int_trap_gate
  idt_reserved_4 :: "128 word"
  interrupts :: "int_trap_gate list"

definition idt_empty :: "idt option" where
  "idt_empty = do {
     g \<leftarrow> gate_missing InterruptGate;
     Some \<lparr>div_by_zero_fault = g, debug = g, non_maskable_interrupt = g, break_point_trap = g, overflow_trap = g,
       bound_range_fault = g, invalid_opcode_fault = g, device_not_available_fault = g, double_fault_abort = g,
       idt_reserved_0 = 0, invalid_tss_fault = g, segment_not_present_fault = g, stack_fault = g,
       general_protection_fault = g, page_fault = g, idt_reserved_1 = 0, x87_fp_fault = g, alignment_check_fault = g,
       machine_check_abort = g, simd_fp_fault = g, idt_reserved_2 = 0, control_protection_fault = g,
       idt_reserved_3 = replicate 6 0, hypervisor_injection = g, vmm_communication_fault = g, security = g,
       idt_reserved_4 = 0, interrupts = replicate 224 g\<rparr>
   }"

section \<open>Instructions\<close>

text \<open>The interrupt flag is bit 9 of RFLAGS. \<open>sti_hlt\<close> then waits for an interrupt.\<close>

definition cli :: "'a cpu_scheme \<Rightarrow> 'a cpu_scheme" where
  "cli c = c\<lparr>rflags := rflags c AND NOT (rflags_bits RF_IF)\<rparr>"

definition sti :: "'a cpu_scheme \<Rightarrow> 'a cpu_scheme" where
  "sti c = c\<lparr>rflags := rflags c OR rflags_bits RF_IF\<rparr>"

definition sti_hlt :: "'a cpu_scheme \<Rightarrow> 'a cpu_scheme" where "sti_hlt c = sti c"

text \<open>An IDT is 256 entries of 16 bytes.\<close>

definition IDT_SIZE :: nat where "IDT_SIZE = 256 * 16"

definition lidt_raw :: "u16 \<Rightarrow> ptr \<Rightarrow> 'a seg_cpu_scheme \<Rightarrow> 'a seg_cpu_scheme" where
  "lidt_raw limit base c = c\<lparr>idtr := \<lparr>dt_limit = limit, dt_base = base\<rparr>\<rparr>"

definition lidt :: "ptr \<Rightarrow> 'a seg_cpu_scheme \<Rightarrow> 'a seg_cpu_scheme option" where
  "lidt base c = do {
     limit \<leftarrow> checked_sub (of_nat IDT_SIZE) 1;
     Some (lidt_raw limit base c)
   }"

definition sidt_raw :: "'a seg_cpu_scheme \<Rightarrow> u16 \<times> ptr" where
  "sidt_raw c = (dt_limit (idtr c), dt_base (idtr c))"

text \<open>\<open>as_mut().unwrap()\<close> panics for the null pointer.\<close>

definition sidt :: "'a seg_cpu_scheme \<Rightarrow> ptr option" where
  "sidt c = (case sidt_raw c of (_, base) \<Rightarrow> if base = 0 then None else Some base)"

definition interrupts_ltr :: "seg_sel \<Rightarrow> 'a seg_cpu_scheme \<Rightarrow> 'a seg_cpu_scheme" where
  "interrupts_ltr sel c = c\<lparr>task_reg := sel\<rparr>"

text \<open>
  \<open>interrupts::str\<close> runs \<^verbatim>\<open>ltr\<close> on its output register: whatever the register holds goes to the
  task register and is returned.
\<close>

definition interrupts_str :: "u16 \<Rightarrow> 'a seg_cpu_scheme \<Rightarrow> seg_sel \<times> 'a seg_cpu_scheme" where
  "interrupts_str junk c = (junk, c\<lparr>task_reg := junk\<rparr>)"

section \<open>What the processor reads\<close>

text \<open>
  The entry of a vector: the fields of \<open>IDT\<close> in the order of their declaration, 16 bytes each. Vectors
  whose field is reserved have no gate.
\<close>

definition idt_gate :: "idt \<Rightarrow> nat \<Rightarrow> int_trap_gate option" where
  "idt_gate t v =
     (if v < 32 then
        [Some (div_by_zero_fault t), Some (debug t), Some (non_maskable_interrupt t), Some (break_point_trap t),
         Some (overflow_trap t), Some (bound_range_fault t), Some (invalid_opcode_fault t),
         Some (device_not_available_fault t), Some (double_fault_abort t), None, Some (invalid_tss_fault t),
         Some (segment_not_present_fault t), Some (stack_fault t), Some (general_protection_fault t),
         Some (page_fault t), None, Some (x87_fp_fault t), Some (alignment_check_fault t), Some (machine_check_abort t),
         Some (simd_fp_fault t), None, Some (control_protection_fault t), None, None, None, None, None, None,
         Some (hypervisor_injection t), Some (vmm_communication_fault t), Some (security t), None] ! v
      else if v - 32 < length (interrupts t) then Some (interrupts t ! (v - 32)) else None)"

section \<open>Facts on the gates\<close>

lemma join_target:
  "ucast (ucast w :: u16) OR push_bit 16 (ucast (ucast (drop_bit 16 w) :: u16)) OR
   push_bit 32 (ucast (ucast (drop_bit 32 w) :: u32)) = w" (is "?l = w") for w :: u64
proof (rule bit_word_eqI)
  fix n assume n: "n < LENGTH(64)"
  consider "n < 16" | "16 \<le> n" "n < 32" | "32 \<le> n" by linarith
  then show "bit ?l n = bit w n" using n by cases (simp_all add: bit_simps less_diff_conv2)
qed

lemma gate_masks: "GATE_DPL_MASK = DPL_MASK" "GATE_SSDT_MASK = 0x0F" "GATE_FLAG_PRESENT = 0x80"
  by (simp_all add: GATE_DPL_MASK_def DPL_MASK_def GATE_SSDT_MASK_def GATE_FLAG_PRESENT_def)

lemma gate_dpl_shift: "trailing_zeros GATE_DPL_MASK = 5"
  unfolding gate_masks by (rule trailing_zeros_masks)

lemma gate_new_Some:
  "ist < 8 \<Longrightarrow> is_gate_type s \<Longrightarrow> \<exists>g. gate_new target sel ist s p = Some g \<and> gate_get_target g = target \<and>
     gate_selector g = sel \<and> gate_get_ist g = ist \<and> gate_get_ssdt g = Some s \<and> gate_get_dpl g = Some p \<and> gate_is_present g"
proof -
  assume a: "ist < 8" "is_gate_type s"
  define g where "g = \<lparr>isr_ptr_lo = ucast target, gate_selector = sel, gate_ist = ist,
    gate_flags = ssdt_bits s OR push_bit 5 (priv_lvl_to_bits p) OR 0x80,
    isr_ptr_mid = ucast (drop_bit 16 target), isr_ptr_hi = ucast (drop_bit 32 target), gate_reserved = 0\<rparr>"
  have "gate_new target sel ist s p = Some g" using a by (simp add: gate_new_def gate_dpl_shift gate_masks(3) g_def)
  moreover have "gate_get_target g = target" using join_target [of target] by (simp add: gate_get_target_def g_def)
  moreover have "gate_selector g = sel" "gate_get_ist g = ist" by (simp_all add: g_def gate_get_ist_def)
  moreover have f: "gate_flags g = ssdt_bits s OR push_bit 5 (priv_lvl_to_bits p) OR 0x80" by (simp add: g_def)
  have "gate_get_ssdt g = Some s" "gate_is_present g"
    unfolding gate_get_ssdt_def gate_is_present_def f gate_masks(2,3) flags_byte by simp_all
  moreover have "gate_get_dpl g = Some p"
    unfolding gate_get_dpl_def gate_dpl_shift f unfolding GATE_DPL_MASK_def flags_byte by simp
  ultimately show ?thesis by blast
qed

text \<open>
  C33. An interrupt gate made for a handler gives back the handler's address, the selector, the stack
  index, the type and the privilege level, and is present; and changing the target later keeps all
  the rest.
\<close>

theorem gate_new_fields:
  assumes "ist < 8" "is_gate_type s"
  shows "\<exists>g. gate_new target sel ist s p = Some g \<and> gate_get_target g = target \<and> gate_selector g = sel \<and>
    gate_get_ist g = ist \<and> gate_get_ssdt g = Some s \<and> gate_get_dpl g = Some p \<and> gate_is_present g \<and>
    gate_get_target (gate_set_target g t') = t' \<and> gate_flags (gate_set_target g t') = gate_flags g"
proof -
  have "gate_get_target (gate_set_target g t') = t' \<and> gate_flags (gate_set_target g t') = gate_flags g" for g
    using join_target [of t'] by (simp add: gate_get_target_def gate_set_target_def)
  then show ?thesis using gate_new_Some [OF assms, of target sel p] by blast
qed

theorem gate_new_fields_witness:
  "\<exists>g. gate_new 0xFFFFFFFFC0001234 8 0 InterruptGate Ring0 = Some g \<and> gate_get_target g = 0xFFFFFFFFC0001234 \<and>
    gate_selector g = 8 \<and> gate_get_ist g = 0 \<and> gate_get_ssdt g = Some InterruptGate \<and> gate_get_dpl g = Some Ring0 \<and>
    gate_is_present g \<and> gate_get_target (gate_set_target g 5) = 5 \<and> gate_flags (gate_set_target g 5) = gate_flags g"
  by (rule gate_new_fields) (simp_all add: is_gate_type_def)

text \<open>
  \<open>set_dpl\<close> of a gate does not set the privilege level: it writes the level into the two low
  bits of the type field. The level reads as ring 0 afterwards, whatever was asked for, and a gate
  of type interrupt becomes one of type trap for the levels 1 and 3.
\<close>

lemma gate_set_dpl_wrong:
  "gate_get_dpl (gate_set_dpl g p) = Some Ring0"
  "gate_get_ssdt g = Some InterruptGate \<Longrightarrow>
     gate_get_ssdt (gate_set_dpl g p) = Some (if p = Ring1 \<or> p = Ring3 then TrapGate else InterruptGate)"
proof -
  have f: "gate_flags (gate_set_dpl g p) = (gate_flags g AND NOT 0x60) OR priv_lvl_to_bits p"
    by (simp add: gate_set_dpl_def GATE_DPL_MASK_def)
  have 60: "((x AND NOT m) OR y) AND m = y AND m" for x y m :: u8 by (auto simp: bit_eq_iff bit_simps)
  have "priv_lvl_to_bits p AND 0x60 = 0" by (cases p) simp_all
  then show "gate_get_dpl (gate_set_dpl g p) = Some Ring0"
    unfolding gate_get_dpl_def f gate_dpl_shift unfolding GATE_DPL_MASK_def 60 by (simp add: priv_lvl_from_bits_def)
  have F: "((x AND NOT m) OR y) AND k = ((x AND k) AND NOT m) OR (y AND k)" for x y m k :: u8
    by (auto simp: bit_eq_iff bit_simps)
  assume "gate_get_ssdt g = Some InterruptGate"
  then have "gate_flags g AND 0x0F = 14" by (auto simp: gate_get_ssdt_def gate_masks ssdt_from_bits_def split: if_splits)
  then show "gate_get_ssdt (gate_set_dpl g p) = Some (if p = Ring1 \<or> p = Ring3 then TrapGate else InterruptGate)"
    unfolding gate_get_ssdt_def f gate_masks(2) F by (cases p) (simp_all add: ssdt_from_bits_def)
qed

end
