(* ===== verification/Bootboot.thy ===== *)
theory Bootboot
  imports Prelude
begin

text \<open>
  Model of \<^verbatim>\<open>kernel/src/bootboot.rs\<close>: the header that the BOOTBOOT loader hands over, the
  available blocks of its memory map, and the configuration text. Memory is a function from
  addresses to bytes together with the set of addresses that keep what is written to them; a write
  elsewhere is lost, which is what the probe of the memory map finds out.
\<close>

section \<open>Constants and the header\<close>

definition BOOTBOOT_MAGIC :: "u8 list" where "BOOTBOOT_MAGIC = [0x42, 0x4F, 0x4F, 0x54]"

definition PROTOCOL_MINIMAL :: u8 where "PROTOCOL_MINIMAL = 0"
definition PROTOCOL_STATIC :: u8 where "PROTOCOL_STATIC = 1"
definition PROTOCOL_DYNAMIC :: u8 where "PROTOCOL_DYNAMIC = 2"
definition PROTOCOL_BIGENDIAN :: u8 where "PROTOCOL_BIGENDIAN = 128"
definition LOADER_BIOS :: u32 where "LOADER_BIOS = 0"
definition LOADER_UEFI :: u32 where "LOADER_UEFI = 4"
definition LOADER_RPI :: u32 where "LOADER_RPI = 8"
definition FB_ARGB :: u8 where "FB_ARGB = 3"
definition FB_RGBA :: u8 where "FB_RGBA = 2"
definition FB_ABGR :: u8 where "FB_ABGR = 1"
definition FB_BGRA :: u8 where "FB_BGRA = 0"
definition MMAP_DATA_SIZE_MASK :: u64 where "MMAP_DATA_SIZE_MASK = 0xFFFFFFFFFFFFFFF0"
definition MMAP_DATA_TYPE_MASK :: u64 where "MMAP_DATA_TYPE_MASK = 0xF"
definition MMAP_USED :: u64 where "MMAP_USED = 0"
definition MMAP_FREE :: u64 where "MMAP_FREE = 1"
definition MMAP_ACPI :: u64 where "MMAP_ACPI = 2"
definition MMAP_MMIO :: u64 where "MMAP_MMIO = 3"
definition FRAMEBUFFER :: ptr where "FRAMEBUFFER = 0xFFFFFFFFFC000000"
definition ENV_CFG :: "ptr \<times> usize" where "ENV_CFG = (0xFFFFFFFFFFE01000, 4096)"
definition BOOTBOOT :: ptr where "BOOTBOOT = 0xFFFFFFFFFFE00000"

record mmap_entry_rec =
  mmap_ptr :: u64
  mmap_data :: u64

record bootboot_amd64 =
  acpi_paddr :: u64
  smbi_paddr :: u64
  efi_paddr :: u64
  mp_paddr :: u64
  unused0 :: u64
  unused1 :: u64
  unused2 :: u64
  unused3 :: u64

record bootboot_hdr =
  bb_magic :: "u8 list"
  bb_size :: u32
  bb_protocol :: u8
  bb_fb_type :: u8
  bb_num_cores :: u16
  bb_bspid :: u16
  bb_timezone :: u16
  bb_datetime :: "u8 list"
  bb_initrd_ptr :: u64
  bb_initrd_size :: u64
  bb_fb_ptr :: ptr
  bb_fb_size :: u32
  bb_fb_width :: u32
  bb_fb_height :: u32
  bb_fb_scanline :: u32
  bb_platform :: bootboot_amd64
  bb_mmap :: mmap_entry_rec

text \<open>The sizes of the packed structures: 64 bytes, the platform's 64, and one entry.\<close>

definition BOOTBOOT_SIZE :: usize where "BOOTBOOT_SIZE = 144"
definition MMAP_ENTRY_SIZE :: usize where "MMAP_ENTRY_SIZE = 16"
definition MMAP :: ptr where "MMAP = BOOTBOOT + BOOTBOOT_SIZE"

section \<open>The memory map\<close>

record phys_bytes =
  byte_at :: "ptr \<Rightarrow> u8"
  writable :: "ptr \<Rightarrow> bool"

definition read_volatile :: "ptr \<Rightarrow> phys_bytes \<Rightarrow> u8" where
  "read_volatile p m = byte_at m p"

definition write_volatile :: "ptr \<Rightarrow> u8 \<Rightarrow> phys_bytes \<Rightarrow> phys_bytes" where
  "write_volatile p v m = (if writable m p then m\<lparr>byte_at := (byte_at m)(p := v)\<rparr> else m)"

definition is_free :: "mmap_entry_rec \<Rightarrow> bool" where
  "is_free e \<longleftrightarrow> mmap_data e AND MMAP_FREE \<noteq> 0"

text \<open>The probe of one entry.\<close>

definition probe_entry :: "mmap_entry_rec \<Rightarrow> phys_bytes \<Rightarrow> mmap_entry_rec \<times> phys_bytes" where
  "probe_entry e m =
     (let base_ptr = mmap_ptr e;
          val = read_volatile base_ptr m;
          m = write_volatile base_ptr 0xAE m;
          invalid = (read_volatile base_ptr m \<noteq> 0xAE);
          m = write_volatile base_ptr val m
      in (if invalid then e\<lparr>mmap_data := mmap_data e AND NOT MMAP_FREE\<rparr> else e, m))"

fun probe_entries :: "mmap_entry_rec list \<Rightarrow> phys_bytes \<Rightarrow> mmap_entry_rec list \<times> phys_bytes" where
  "probe_entries [] m = ([], m)"
| "probe_entries (e # es) m =
     (let (e, m) = (if is_free e then probe_entry e m else (e, m));
          (es, m) = probe_entries es m
      in (e # es, m))"

text \<open>
  The entries that follow the header in memory are a parameter; the slice covers as many of them as
  the size in the header leaves room for.
\<close>

definition mmap_len :: "bootboot_hdr \<Rightarrow> usize option" where
  "mmap_len b = do {
     mmap_size \<leftarrow> checked_sub (ucast (bb_size b)) BOOTBOOT_SIZE;
     Some (mmap_size div MMAP_ENTRY_SIZE)
   }"

definition mmap_available_iter ::
  "bootboot_hdr \<Rightarrow> mmap_entry_rec list \<Rightarrow> phys_bytes \<Rightarrow> ((usize \<times> usize) list \<times> phys_bytes) option" where
  "mmap_available_iter b entries m = do {
     len \<leftarrow> mmap_len b;
     let (mmap, m) = probe_entries (take (unat len) entries) m;
     Some (map (\<lambda>e. (mmap_ptr e, mmap_data e AND MMAP_DATA_SIZE_MASK)) (filter is_free mmap), m)
   }"

section \<open>The configuration text\<close>

text \<open>The scan for the end of the text; it stops at the first zero byte or after 4096 bytes.\<close>

function env_len_loop :: "(ptr \<Rightarrow> u8) \<Rightarrow> usize \<Rightarrow> usize" where
  "env_len_loop m len = (if len < 4096 \<and> m (fst ENV_CFG + len) \<noteq> 0 then env_len_loop m (len + 1) else len)"
  by pat_completeness auto

lemma word_less_4096_step: "len < (4096 :: usize) \<Longrightarrow> unat (len + 1) = Suc (unat len)"
proof -
  assume "len < 4096"
  then have "unat len < 4096" by (simp add: word_less_nat_alt)
  then show ?thesis by (simp add: unat_word_ariths)
qed

termination env_len_loop
  by (relation "measure (\<lambda>(m, len). 4096 - unat len)") (auto simp: word_less_nat_alt word_less_4096_step)

declare env_len_loop.simps [simp del]

definition env_cfg_as_str :: "(ptr \<Rightarrow> u8) \<Rightarrow> u8 list" where
  "env_cfg_as_str m = map (\<lambda>i. m (fst ENV_CFG + of_nat i)) [0..<unat (env_len_loop m 0)]"

section \<open>Properties\<close>

lemma write_back: "write_volatile p (read_volatile p m) (write_volatile p v m) = m"
  by (simp add: write_volatile_def read_volatile_def)

text \<open>The probe keeps memory, and clears the free bit of a block exactly when its first byte does not keep the mark.\<close>

lemma probe_entry_eq:
  "probe_entry e m =
     (if writable m (mmap_ptr e) \<or> byte_at m (mmap_ptr e) = 0xAE then e
      else e\<lparr>mmap_data := mmap_data e AND NOT MMAP_FREE\<rparr>, m)"
proof -
  have "read_volatile (mmap_ptr e) (write_volatile (mmap_ptr e) 0xAE m) = 0xAE \<longleftrightarrow>
      writable m (mmap_ptr e) \<or> byte_at m (mmap_ptr e) = 0xAE"
    by (simp add: read_volatile_def write_volatile_def)
  then show ?thesis by (simp add: probe_entry_def Let_def write_back)
qed

lemma not_free_cleared: "\<not> is_free (e\<lparr>mmap_data := mmap_data e AND NOT MMAP_FREE\<rparr>)"
proof -
  have "(x AND NOT k) AND k = 0" for x k :: u64 by (simp add: bit_eq_iff bit_simps)
  then show ?thesis by (simp add: is_free_def)
qed

definition usable :: "phys_bytes \<Rightarrow> mmap_entry_rec \<Rightarrow> bool" where
  "usable m e \<longleftrightarrow> is_free e \<and> (writable m (mmap_ptr e) \<or> byte_at m (mmap_ptr e) = 0xAE)"

lemma probe_entries_eq:
  "snd (probe_entries es m) = m \<and> filter is_free (fst (probe_entries es m)) = filter (usable m) es"
proof (induction es)
  case (Cons e es)
  then show ?case
    by (auto simp: probe_entry_eq usable_def not_free_cleared split: prod.splits)
qed simp

lemma mmap_available_eq:
  assumes "BOOTBOOT_SIZE \<le> ucast (bb_size b)"
  shows "mmap_available_iter b entries m =
    Some (map (\<lambda>e. (mmap_ptr e, mmap_data e AND MMAP_DATA_SIZE_MASK))
            (filter (usable m) (take ((unat (bb_size b) - 144) div 16) entries)), m)"
proof -
  have "unat (bb_size b) < 2 ^ LENGTH(32)" by (rule unsigned_less)
  then have u: "unat (ucast (bb_size b) :: usize) = unat (bb_size b)"
    by (simp add: unsigned_ucast_eq take_bit_nat_eq_self)
  have "144 \<le> unat (bb_size b)" using assms u by (simp add: word_le_nat_alt BOOTBOOT_SIZE_def)
  moreover have "unat (ucast (bb_size b) - (144 :: usize)) = unat (bb_size b) - 144"
    using assms u by (subst unat_sub) (simp_all add: BOOTBOOT_SIZE_def)
  ultimately have "mmap_len b = Some ((ucast (bb_size b) - 144) div 16)"
    "unat ((ucast (bb_size b) - 144) div 16 :: usize) = (unat (bb_size b) - 144) div 16"
    using assms by (simp_all add: mmap_len_def checked_sub_def BOOTBOOT_SIZE_def MMAP_ENTRY_SIZE_def unat_div)
  then show ?thesis
    using probe_entries_eq [of "take ((unat (bb_size b) - 144) div 16) entries" m]
    by (auto simp: mmap_available_iter_def split: prod.splits)
qed

text \<open>
  C34. The blocks that \<open>mmap_available_iter\<close> returns are those entries, in their order, whose type has
  the low bit set and whose first byte keeps what is written to it (or held the mark before), with
  the type bits masked out of the size; and memory is afterwards as it was, the probed bytes included.
\<close>

theorem mmap_available_correct:
  assumes "BOOTBOOT_SIZE \<le> ucast (bb_size b)"
  shows "mmap_available_iter b entries m =
    Some (map (\<lambda>e. (mmap_ptr e, mmap_data e AND MMAP_DATA_SIZE_MASK))
            (filter (usable m) (take ((unat (bb_size b) - 144) div 16) entries)), m)"
  by (rule mmap_available_eq [OF assms])

definition demo_hdr :: bootboot_hdr where
  "demo_hdr = \<lparr>bb_magic = BOOTBOOT_MAGIC, bb_size = 192, bb_protocol = 2, bb_fb_type = 0, bb_num_cores = 1, bb_bspid = 0,
     bb_timezone = 0, bb_datetime = replicate 8 0, bb_initrd_ptr = 0, bb_initrd_size = 0, bb_fb_ptr = 0, bb_fb_size = 0,
     bb_fb_width = 0, bb_fb_height = 0, bb_fb_scanline = 0,
     bb_platform = \<lparr>acpi_paddr = 0, smbi_paddr = 0, efi_paddr = 0, mp_paddr = 0, unused0 = 0, unused1 = 0, unused2 = 0,
       unused3 = 0\<rparr>, bb_mmap = \<lparr>mmap_ptr = 0, mmap_data = 0x9F001\<rparr>\<rparr>"

text \<open>A free block, a device's memory that has type 3, and a free block that is not backed by memory.\<close>

theorem mmap_available_correct_witness:
  "mmap_available_iter demo_hdr
     [\<lparr>mmap_ptr = 0x100000, mmap_data = 0x1000001\<rparr>, \<lparr>mmap_ptr = 0xE0000000, mmap_data = 0x1000003\<rparr>,
      \<lparr>mmap_ptr = 0xF0000000, mmap_data = 0x1001\<rparr>] \<lparr>byte_at = \<lambda>_. 0, writable = \<lambda>p. p < 0xF0000000\<rparr> =
   Some ([(0x100000, 0x1000000), (0xE0000000, 0x1000000)], \<lparr>byte_at = \<lambda>_. 0, writable = \<lambda>p. p < 0xF0000000\<rparr>)"
  by (subst mmap_available_correct)
    (simp_all add: demo_hdr_def BOOTBOOT_SIZE_def MMAP_DATA_SIZE_MASK_def usable_def is_free_def MMAP_FREE_def take_Cons')

end
