(* ===== verification/Cfg.thy ===== *)
theory Cfg
  imports Prelude
begin

text \<open>
  Model of \<^verbatim>\<open>kernel/src/cfg.rs\<close>: the boot configuration, expanded from the macro for the three
  settings that the file declares, with the functions on strings of Rust's core library it uses.
  A string is a list of ASCII characters.
\<close>

section \<open>Strings\<close>

definition is_ws :: "char \<Rightarrow> bool" where
  "is_ws c \<longleftrightarrow> (of_char c :: nat) \<in> {9, 10, 11, 12, 13, 32}"

definition trim :: "string \<Rightarrow> string" where
  "trim s = rev (dropWhile is_ws (rev (dropWhile is_ws s)))"

fun split_char :: "char \<Rightarrow> string \<Rightarrow> string list" where
  "split_char c [] = [[]]"
| "split_char c (x # xs) = (if x = c then [] # split_char c xs
     else (case split_char c xs of [] \<Rightarrow> [[x]] | l # ls \<Rightarrow> (x # l) # ls))"

definition starts_with :: "string \<Rightarrow> string \<Rightarrow> bool" where
  "starts_with s p \<longleftrightarrow> take (length p) s = p"

fun split_once :: "char \<Rightarrow> string \<Rightarrow> (string \<times> string) option" where
  "split_once c [] = None"
| "split_once c (x # xs) = (if x = c then Some ([], xs) else map_option (\<lambda>(a, b). (x # a, b)) (split_once c xs))"

text \<open>\<open>usize::from_str_radix(s, 16)\<close>; \<open>None\<close> for every error.\<close>

definition digit_16 :: "char \<Rightarrow> usize option" where
  "digit_16 c = (let n = of_char c :: nat in
     if 48 \<le> n \<and> n \<le> 57 then Some (of_nat (n - 48))
     else if 97 \<le> n \<and> n \<le> 102 then Some (of_nat (n - 87))
     else if 65 \<le> n \<and> n \<le> 70 then Some (of_nat (n - 55)) else None)"

fun parse_digits :: "usize \<Rightarrow> string \<Rightarrow> usize option" where
  "parse_digits acc [] = Some acc"
| "parse_digits acc (c # cs) = do {
     d \<leftarrow> digit_16 c;
     acc \<leftarrow> checked_mul acc 16;
     acc \<leftarrow> checked_add acc d;
     parse_digits acc cs
   }"

definition from_str_radix_16 :: "string \<Rightarrow> usize option" where
  "from_str_radix_16 s =
     (if s = [] then None
      else if s = ''+'' then None
      else parse_digits 0 (if hd s = CHR ''+'' then tl s else s))"

section \<open>The configuration\<close>

record cfg_state =
  cfg_sync_state :: u8
  stack_size_data :: usize
  heap_init_size_data :: usize
  heap_smlst_block_data :: usize

definition stack_size_default :: usize where "stack_size_default = 0x800000 - 0x1000"
definition heap_init_size_default :: usize where "heap_init_size_default = 0x1000000"
definition heap_smlst_block_default :: usize where "heap_smlst_block_default = 0x20"

definition cfg_initial :: cfg_state where
  "cfg_initial = \<lparr>cfg_sync_state = 0, stack_size_data = stack_size_default,
     heap_init_size_data = heap_init_size_default, heap_smlst_block_data = heap_smlst_block_default\<rparr>"

text \<open>The accessors panic before the configuration is complete.\<close>

definition stack_size :: "cfg_state \<Rightarrow> usize option" where
  "stack_size c = (if cfg_sync_state c = 2 then Some (stack_size_data c) else None)"

definition heap_init_size :: "cfg_state \<Rightarrow> usize option" where
  "heap_init_size c = (if cfg_sync_state c = 2 then Some (heap_init_size_data c) else None)"

definition heap_smlst_block :: "cfg_state \<Rightarrow> usize option" where
  "heap_smlst_block c = (if cfg_sync_state c = 2 then Some (heap_smlst_block_data c) else None)"

text \<open>One setting.\<close>

definition cfg_value :: "string \<Rightarrow> usize \<Rightarrow> string \<Rightarrow> usize option" where
  "cfg_value name dflt cfg =
     (case find (\<lambda>txt. starts_with (trim txt) name) (split_char (CHR 0x0A) cfg) of
        None \<Rightarrow> Some dflt
      | Some kvp \<Rightarrow> do {
          (_, v) \<leftarrow> split_once (CHR ''='') kvp;
          from_str_radix_16 (trim v)
        })"

text \<open>
  \<open>None\<close> is a panic or, in state 1, the wait for another processor that is at work on the
  configuration. The panic of a bad value leaves state 1 behind.
\<close>

definition init_boot_cfg :: "string \<Rightarrow> cfg_state \<Rightarrow> cfg_state option" where
  "init_boot_cfg cfg c =
     (if cfg_sync_state c = 0 then do {
        let c = c\<lparr>cfg_sync_state := 1\<rparr>;
        v \<leftarrow> cfg_value ''stack_size'' stack_size_default cfg;
        let c = c\<lparr>stack_size_data := v\<rparr>;
        v \<leftarrow> cfg_value ''heap_init_size'' heap_init_size_default cfg;
        let c = c\<lparr>heap_init_size_data := v\<rparr>;
        v \<leftarrow> cfg_value ''heap_smlst_block'' heap_smlst_block_default cfg;
        let c = c\<lparr>heap_smlst_block_data := v\<rparr>;
        Some (c\<lparr>cfg_sync_state := 2\<rparr>)
      } else if cfg_sync_state c = 1 then None
      else if cfg_sync_state c = 2 then Some c
      else None)"

section \<open>Reading back a rendered configuration\<close>

text \<open>Hexadecimal digits of a number, most significant first.\<close>

definition hex_digit :: "nat \<Rightarrow> char" where
  "hex_digit n = char_of (if n < 10 then 48 + n else 87 + n)"

fun hex_of :: "nat \<Rightarrow> string" where
  "hex_of n = (if n < 16 then [hex_digit n] else hex_of (n div 16) @ [hex_digit (n mod 16)])"

declare hex_of.simps [simp del]

definition cfg_line :: "string \<Rightarrow> usize \<Rightarrow> string" where
  "cfg_line name v = name @ ''='' @ hex_of (unat v)"

lemma of_char_hex: "n < 16 \<Longrightarrow> of_char (hex_digit n) = (if n < 10 then 48 + n else 87 + n)"
  by (simp add: hex_digit_def)

lemma digit_16_hex: "n < 16 \<Longrightarrow> digit_16 (hex_digit n) = Some (of_nat n)"
  by (auto simp: digit_16_def of_char_hex Let_def)

lemma hex_digit_not: "n < 16 \<Longrightarrow> hex_digit n \<notin> {CHR 0x0A, CHR ''='', CHR ''+''} \<and> \<not> is_ws (hex_digit n)"
proof -
  assume n: "n < 16"
  have "hex_digit n \<noteq> c" if "of_char c < (48 :: nat) \<or> of_char c = (61 :: nat)" for c
  proof
    assume "hex_digit n = c"
    then have "of_char c = (if n < 10 then 48 + n else 87 + n)" using of_char_hex [OF n] by simp
    then show False using that n by (auto split: if_splits)
  qed
  then show ?thesis using n by (auto simp: is_ws_def of_char_hex)
qed

lemma hex_of_chars: "c \<in> set (hex_of n) \<Longrightarrow> \<exists>k<16. c = hex_digit k"
proof (induction n rule: hex_of.induct)
  case (1 n)
  have m: "\<exists>k<16. hex_digit (n mod 16) = hex_digit k" by (intro exI [of _ "n mod 16"]) simp
  have "c = hex_digit (n mod 16) \<or> \<not> n < 16 \<and> c \<in> set (hex_of (n div 16))"
    using 1(2) by (subst (asm) hex_of.simps) (auto split: if_splits)
  then show ?case using 1(1) m by blast
qed

lemma hex_of_nonempty [simp]: "hex_of n \<noteq> []"
  by (subst hex_of.simps) simp

lemma parse_digits_append:
  "parse_digits acc (xs @ ys) = parse_digits acc xs \<bind> (\<lambda>a. parse_digits a ys)"
  by (induction xs arbitrary: acc) (simp_all add: Option.bind_assoc)

lemma parse_hex_of: "n < 2 ^ 64 \<Longrightarrow> parse_digits 0 (hex_of n) = Some (of_nat n)"
proof (induction n rule: hex_of.induct)
  case (1 n)
  show ?case
  proof (cases "n < 16")
    case True
    then show ?thesis
      by (subst hex_of.simps) (simp add: digit_16_hex checked_mul_def checked_add_def unat_of_nat take_bit_nat_eq_self)
  next
    case False
    let ?q = "n div 16" and ?r = "n mod 16"
    have q: "?q * 16 < 2 ^ 64" "?q < 2 ^ 60" "?q * 16 + ?r = n" using 1(2) by auto
    have uq: "unat (of_nat ?q :: usize) = ?q" using q by (simp add: unat_of_nat take_bit_nat_eq_self)
    have ur: "unat (of_nat ?r :: usize) = ?r" by (simp add: unat_of_nat take_bit_nat_eq_self)
    have m: "checked_mul (of_nat ?q :: usize) 16 = Some (of_nat (?q * 16))"
      using q uq by (simp add: checked_mul_def)
    have um: "unat (of_nat (?q * 16) :: usize) = ?q * 16"
      unfolding unat_of_nat by (rule mod_less) (use q in simp)
    have a: "checked_add (of_nat (?q * 16) :: usize) (of_nat ?r) = Some (of_nat n)"
    proof -
      have "(of_nat (?q * 16) :: usize) + of_nat ?r = of_nat n" unfolding of_nat_add [symmetric] by (simp only: q(3))
      then show ?thesis using q(3) um ur 1(2) by (simp add: checked_add_def del: of_nat_mult)
    qed
    have "parse_digits 0 (hex_of ?q) = Some (of_nat ?q)" using 1 False q by simp
    then show ?thesis using False m a
      by (subst hex_of.simps) (simp add: parse_digits_append digit_16_hex del: of_nat_mult)
  qed
qed

lemma from_str_radix_hex: "from_str_radix_16 (hex_of (unat v)) = Some v"
proof -
  have "unat v < 2 ^ LENGTH(64)" by (rule unsigned_less)
  then have p: "parse_digits 0 (hex_of (unat v)) = Some v" using parse_hex_of [of "unat v"] by simp
  have h: "hd (hex_of (unat v)) \<noteq> CHR ''+''" "CHR ''+'' \<notin> set (hex_of (unat v))"
    using hex_of_chars hex_digit_not hd_in_set [of "hex_of (unat v)"] by fastforce+
  then have "hex_of (unat v) \<noteq> ''+''" by auto
  then show ?thesis using p h by (simp add: from_str_radix_16_def)
qed

lemma split_char_append: "c \<notin> set xs \<Longrightarrow> split_char c (xs @ c # ys) = xs # split_char c ys"
  by (induction xs) auto

lemma split_char_last: "c \<notin> set xs \<Longrightarrow> split_char c xs = [xs]"
  by (induction xs) auto

lemma split_once_append: "c \<notin> set xs \<Longrightarrow> split_once c (xs @ c # ys) = Some (xs, ys)"
  by (induction xs) auto

lemma trim_id: "s \<noteq> [] \<Longrightarrow> \<not> is_ws (hd s) \<Longrightarrow> \<not> is_ws (last s) \<Longrightarrow> trim s = s"
proof -
  assume s: "s \<noteq> []" "\<not> is_ws (hd s)" "\<not> is_ws (last s)"
  then have "dropWhile is_ws s = s" by (cases s) simp_all
  moreover have "dropWhile is_ws (rev s) = rev s" using s by (cases s rule: rev_cases) simp_all
  ultimately show ?thesis by (simp add: trim_def)
qed

lemma hex_of_plain: "CHR 0x0A \<notin> set (hex_of n)" "\<not> is_ws (hd (hex_of n))" "\<not> is_ws (last (hex_of n))"
  using hex_of_chars [of _ n] hex_digit_not hd_in_set [of "hex_of n"] last_in_set [of "hex_of n"] by fastforce+

text \<open>The value of a setting in a text whose lines are settings.\<close>

definition plain_name :: "string \<Rightarrow> bool" where
  "plain_name s \<longleftrightarrow> s \<noteq> [] \<and> CHR 0x0A \<notin> set s \<and> CHR ''='' \<notin> set s \<and> \<not> is_ws (hd s)"

lemma cfg_line_facts:
  assumes "plain_name name"
  shows "CHR 0x0A \<notin> set (cfg_line name v)" "trim (cfg_line name v) = cfg_line name v"
    "split_once (CHR ''='') (cfg_line name v) = Some (name, hex_of (unat v))"
proof -
  show "CHR 0x0A \<notin> set (cfg_line name v)" using assms hex_of_plain(1) by (auto simp: cfg_line_def plain_name_def)
  have "last (cfg_line name v) = last (hex_of (unat v))" "hd (cfg_line name v) = hd name"
    using assms by (simp_all add: cfg_line_def plain_name_def)
  then show "trim (cfg_line name v) = cfg_line name v"
    using assms hex_of_plain(3) by (intro trim_id) (auto simp: plain_name_def cfg_line_def)
  show "split_once (CHR ''='') (cfg_line name v) = Some (name, hex_of (unat v))"
    using split_once_append [of "CHR ''=''" name] assms by (simp add: cfg_line_def plain_name_def)
qed

lemma cfg_value_line:
  assumes "plain_name n" "split_char (CHR 0x0A) cfg = ls" "find (\<lambda>txt. starts_with (trim txt) n) ls = Some (cfg_line n v)"
  shows "cfg_value n d cfg = Some v"
proof -
  have "trim (hex_of (unat v)) = hex_of (unat v)" using hex_of_plain(2,3) by (intro trim_id) simp_all
  then show ?thesis
    using assms cfg_line_facts(3) [OF assms(1), of v] from_str_radix_hex [of v] by (simp add: cfg_value_def)
qed

text \<open>
  C35. The configuration that is rendered as three lines, one per setting with its value in
  hexadecimal, is read back by \<open>init_boot_cfg\<close>: the accessors return the three values, whatever they are.
\<close>

theorem cfg_roundtrip:
  "\<exists>c. init_boot_cfg (cfg_line ''stack_size'' x @ CHR 0x0A # cfg_line ''heap_init_size'' y @ CHR 0x0A #
          cfg_line ''heap_smlst_block'' z) cfg_initial = Some c \<and>
     stack_size c = Some x \<and> heap_init_size c = Some y \<and> heap_smlst_block c = Some z"
proof -
  let ?a = "cfg_line ''stack_size'' x" and ?b = "cfg_line ''heap_init_size'' y" and ?c = "cfg_line ''heap_smlst_block'' z"
  let ?t = "?a @ CHR 0x0A # ?b @ CHR 0x0A # ?c"
  have p: "plain_name ''stack_size''" "plain_name ''heap_init_size''" "plain_name ''heap_smlst_block''"
    by (simp_all add: plain_name_def is_ws_def)
  note f = cfg_line_facts [OF p(1), of x] cfg_line_facts [OF p(2), of y] cfg_line_facts [OF p(3), of z]
  have s: "split_char (CHR 0x0A) ?t = [?a, ?b, ?c]" using f by (simp add: split_char_append split_char_last)
  have sw: "starts_with ?a ''stack_size''" "\<not> starts_with ?a ''heap_init_size''" "\<not> starts_with ?a ''heap_smlst_block''"
    "starts_with ?b ''heap_init_size''" "\<not> starts_with ?b ''heap_smlst_block''" "starts_with ?c ''heap_smlst_block''"
    by (simp_all add: starts_with_def cfg_line_def)
  have "cfg_value ''stack_size'' d ?t = Some x" for d by (rule cfg_value_line [OF p(1) s]) (simp add: f sw)
  moreover have "cfg_value ''heap_init_size'' d ?t = Some y" for d by (rule cfg_value_line [OF p(2) s]) (simp add: f sw)
  moreover have "cfg_value ''heap_smlst_block'' d ?t = Some z" for d by (rule cfg_value_line [OF p(3) s]) (simp add: f sw)
  ultimately show ?thesis
    by (simp add: init_boot_cfg_def cfg_initial_def stack_size_def heap_init_size_def heap_smlst_block_def)
qed

end
