(* ===== verification/Framebuffer.thy ===== *)
theory Framebuffer
  imports Prelude
begin

text \<open>
  Model of \<^verbatim>\<open>kernel/src/out/framebuffer.rs\<close>. The bytes of the frame buffer are a function of the
  offset from its base: the code uses unchecked indexing, so an offset past the buffer's length is a
  byte of whatever memory follows. Sizes and coordinates are natural numbers; where the code computes
  with \<open>usize\<close>, the result is checked against \<open>2 ^ 64\<close>. The parts of an index expression are
  never larger than the whole, so one check per expression is enough.
\<close>

section \<open>Pixels\<close>

datatype pixel_format = RGBA | BGRA | ARGB | ABGR

fun format_order :: "pixel_format \<Rightarrow> nat list" where
  "format_order RGBA = [0, 1, 2, 3]"
| "format_order BGRA = [2, 1, 0, 3]"
| "format_order ARGB = [3, 0, 1, 2]"
| "format_order ABGR = [3, 2, 1, 0]"

record color =
  red :: u8
  green :: u8
  blue :: u8
  alpha :: u8

definition color_new :: "u8 \<Rightarrow> u8 \<Rightarrow> u8 \<Rightarrow> u8 \<Rightarrow> color" where
  "color_new r g b a = \<lparr>red = r, green = g, blue = b, alpha = a\<rparr>"

definition WHITE :: color where "WHITE = color_new 255 255 255 255"
definition BLACK :: color where "BLACK = color_new 0 0 0 0"

type_synonym pixel = "u8 \<times> u8 \<times> u8 \<times> u8"

definition color_to_pixel :: "color \<Rightarrow> pixel_format \<Rightarrow> pixel" where
  "color_to_pixel c format = (case format of
      RGBA \<Rightarrow> (red c, green c, blue c, alpha c)
    | BGRA \<Rightarrow> (blue c, green c, red c, alpha c)
    | ARGB \<Rightarrow> (alpha c, red c, green c, blue c)
    | ABGR \<Rightarrow> (alpha c, blue c, green c, red c))"

section \<open>The frame buffer\<close>

record frame_buffer =
  fb_base :: ptr
  fb_len :: nat
  fb_width :: nat
  fb_height :: nat
  fb_stride :: nat
  fb_format :: pixel_format

type_synonym vram = "nat \<Rightarrow> u8"

definition chk :: "nat \<Rightarrow> nat option" where
  "chk n = (if n < 2 ^ 64 then Some n else None)"

definition chk_sub :: "nat \<Rightarrow> nat \<Rightarrow> nat option" where
  "chk_sub a b = (if b \<le> a then Some (a - b) else None)"

definition fb_new :: "ptr \<Rightarrow> nat \<Rightarrow> nat \<Rightarrow> nat \<Rightarrow> pixel_format \<Rightarrow> frame_buffer option" where
  "fb_new base width height stride format = do {
     len \<leftarrow> chk (stride * height);
     Some \<lparr>fb_base = base, fb_len = len, fb_width = width, fb_height = height, fb_stride = stride, fb_format = format\<rparr>
   }"

text \<open>Four bytes at an offset, read and written as one array.\<close>

definition read_pixel :: "nat \<Rightarrow> vram \<Rightarrow> pixel" where
  "read_pixel p m = (m p, m (p + 1), m (p + 2), m (p + 3))"

definition write_pixel :: "nat \<Rightarrow> pixel \<Rightarrow> vram \<Rightarrow> vram" where
  "write_pixel p px m = (case px of (a, b, c, d) \<Rightarrow> m(p := a, p + 1 := b, p + 2 := c, p + 3 := d))"

text \<open>\<open>for i in lo..lo + n\<close>\<close>

fun for_range :: "nat \<Rightarrow> nat \<Rightarrow> (nat \<Rightarrow> 's \<Rightarrow> 's option) \<Rightarrow> 's \<Rightarrow> 's option" where
  "for_range lo 0 f s = Some s"
| "for_range lo (Suc n) f s = f lo s \<bind> for_range (Suc lo) n f"

definition blt :: "frame_buffer \<Rightarrow> vram \<Rightarrow> nat \<Rightarrow> nat \<Rightarrow> nat \<Rightarrow> nat \<Rightarrow> nat \<Rightarrow> vram \<Rightarrow> vram option" where
  "blt fb src width height stride dst_x dst_y =
     for_range 0 height (\<lambda>row. for_range 0 width (\<lambda>col m. do {
       src_ptr \<leftarrow> chk (col * 4 + row * stride);
       dst_ptr \<leftarrow> chk ((dst_x + col) * 4 + (dst_y + row) * fb_stride fb);
       Some (write_pixel dst_ptr (read_pixel src_ptr src) m)
     }))"

definition internal_blt :: "frame_buffer \<Rightarrow> nat \<Rightarrow> nat \<Rightarrow> nat \<Rightarrow> nat \<Rightarrow> nat \<Rightarrow> nat \<Rightarrow> vram \<Rightarrow> vram option" where
  "internal_blt fb src_x src_y width height dst_x dst_y =
     for_range 0 height (\<lambda>row. for_range 0 width (\<lambda>col m. do {
       src_ptr \<leftarrow> chk ((src_x + col) * 4 + (src_y + row) * fb_stride fb);
       dst_ptr \<leftarrow> chk ((dst_x + col) * 4 + (dst_y + row) * fb_stride fb);
       Some (write_pixel dst_ptr (read_pixel src_ptr m) m)
     }))"

text \<open>
  \<open>write_bitmap\<close> reads its source with unchecked indexing too; the source is a function of the
  offset with its length.
\<close>

definition write_bitmap ::
  "frame_buffer \<Rightarrow> vram \<times> nat \<Rightarrow> nat \<Rightarrow> nat \<Rightarrow> nat \<Rightarrow> nat \<Rightarrow> nat \<Rightarrow> nat \<Rightarrow> color \<Rightarrow> color \<Rightarrow> vram \<Rightarrow> vram option" where
  "write_bitmap fb src offset width height stride dst_x dst_y dst_zero_color dst_one_color m = do {
     bits \<leftarrow> chk (snd src * 8);
     all_rows \<leftarrow> chk (offset + stride * height);
     pad \<leftarrow> chk_sub stride width;
     need \<leftarrow> chk_sub all_rows pad;
     rust_assert (need \<le> bits);
     right \<leftarrow> chk (dst_x + width div 8);
     rust_assert (right \<le> fb_width fb);
     bottom \<leftarrow> chk (dst_y + height);
     rust_assert (bottom \<le> fb_height fb);
     let zero_pixel = color_to_pixel dst_zero_color (fb_format fb);
     let one_pixel = color_to_pixel dst_one_color (fb_format fb);
     for_range 0 height (\<lambda>row. for_range 0 width (\<lambda>col m. do {
       bit_offset \<leftarrow> chk (col + offset);
       pixel_ptr \<leftarrow> chk ((dst_x + col) * 4 + (dst_y + row) * fb_stride fb);
       i \<leftarrow> chk (bit_offset + row * stride);
       let set_bit = (fst src (i div 8) AND push_bit (7 - bit_offset mod 8) 1 \<noteq> 0);
       Some (write_pixel pixel_ptr (if set_bit then one_pixel else zero_pixel) m)
     })) m
   }"

definition fill_rect :: "frame_buffer \<Rightarrow> nat \<Rightarrow> nat \<Rightarrow> nat \<Rightarrow> nat \<Rightarrow> color \<Rightarrow> vram \<Rightarrow> vram option" where
  "fill_rect fb x y width height c m = do {
     right \<leftarrow> chk (x + width);
     rust_assert (right \<le> fb_width fb);
     bottom \<leftarrow> chk (y + height);
     rust_assert (bottom \<le> fb_height fb);
     let pixel = color_to_pixel c (fb_format fb);
     for_range y height (\<lambda>row. for_range 0 width (\<lambda>col m. do {
       p \<leftarrow> chk ((x + col) * 4 + fb_stride fb * row);
       Some (write_pixel p pixel m)
     })) m
   }"

section \<open>Loops and pixels\<close>

lemma for_range_rule:
  assumes "P lo s" "\<And>k s. lo \<le> k \<Longrightarrow> k < lo + n \<Longrightarrow> P k s \<Longrightarrow> \<exists>s'. f k s = Some s' \<and> P (Suc k) s'"
  shows "\<exists>s'. for_range lo n f s = Some s' \<and> P (lo + n) s'"
  using assms
proof (induction n arbitrary: lo s)
  case (Suc n)
  from Suc.prems(2) [of lo s] Suc.prems(1) obtain s1 where s1: "f lo s = Some s1" "P (Suc lo) s1" by auto
  have "\<exists>s'. for_range (Suc lo) n f s1 = Some s' \<and> P (Suc lo + n) s'"
    by (rule Suc.IH [OF s1(2)]) (use Suc.prems(2) in auto)
  then show ?case using s1(1) by auto
qed simp

text \<open>A frame buffer whose rows do not overlap and that fits into memory.\<close>

definition fb_ok :: "frame_buffer \<Rightarrow> bool" where
  "fb_ok fb \<longleftrightarrow> 4 * fb_width fb \<le> fb_stride fb \<and> fb_len fb = fb_stride fb * fb_height fb \<and> fb_len fb < 2 ^ 63"

definition pixel_at :: "frame_buffer \<Rightarrow> vram \<Rightarrow> nat \<Rightarrow> nat \<Rightarrow> pixel" where
  "pixel_at fb m x y = read_pixel (x * 4 + y * fb_stride fb) m"

lemma pixel_inside:
  assumes "fb_ok fb" "x < fb_width fb" "y < fb_height fb"
  shows "x * 4 + y * fb_stride fb + 4 \<le> fb_len fb" "chk (x * 4 + y * fb_stride fb) = Some (x * 4 + y * fb_stride fb)"
proof -
  have "x * 4 + 4 \<le> fb_stride fb" using assms by (simp add: fb_ok_def)
  moreover have "Suc y * fb_stride fb \<le> fb_height fb * fb_stride fb" using assms(3) by (intro mult_le_mono1) simp
  ultimately show le: "x * 4 + y * fb_stride fb + 4 \<le> fb_len fb"
    using assms(1) by (simp add: fb_ok_def mult.commute)
  then show "chk (x * 4 + y * fb_stride fb) = Some (x * 4 + y * fb_stride fb)"
    using assms(1) by (simp add: chk_def fb_ok_def)
qed

lemma pixels_apart:
  assumes "fb_ok fb" "x < fb_width fb" "x' < fb_width fb" "(x, y) \<noteq> (x', y')"
  defines "p \<equiv> x * 4 + y * fb_stride fb" and "p' \<equiv> x' * 4 + y' * fb_stride fb"
  shows "p + 4 \<le> p' \<or> p' + 4 \<le> p"
proof -
  have row: "a * 4 + u * fb_stride fb + 4 \<le> b * 4 + v * fb_stride fb" if "u < v" "a < fb_width fb" for a b u v
  proof -
    have "a * 4 + 4 \<le> fb_stride fb" using that assms(1) by (simp add: fb_ok_def)
    moreover have "Suc u * fb_stride fb \<le> v * fb_stride fb" using that(1) by (intro mult_le_mono1) simp
    ultimately show ?thesis by simp
  qed
  consider "y < y'" | "y' < y" | "y = y'" "x < x'" | "y = y'" "x' < x" using assms(4) by fastforce
  then show ?thesis unfolding p_def p'_def using row assms(2,3) by cases auto
qed

lemma read_write_pixel [simp]: "read_pixel p (write_pixel p px m) = px"
  by (cases px) (simp add: read_pixel_def write_pixel_def)

lemma read_write_apart: "p + 4 \<le> q \<or> q + 4 \<le> p \<Longrightarrow> read_pixel p (write_pixel q px m) = read_pixel p m"
  by (cases px) (auto simp: read_pixel_def write_pixel_def)

lemma pixel_write:
  assumes "fb_ok fb" "x < fb_width fb" "x' < fb_width fb"
  shows "pixel_at fb (write_pixel (x' * 4 + y' * fb_stride fb) px m) x y =
    (if (x, y) = (x', y') then px else pixel_at fb m x y)"
  using pixels_apart [OF assms, of y y'] by (auto simp: pixel_at_def read_write_apart)

lemma write_outside: "p + 4 \<le> n \<Longrightarrow> n \<le> a \<Longrightarrow> write_pixel p px m a = m a"
  by (cases px) (simp add: write_pixel_def)

text \<open>
  A loop over a rectangle that writes one pixel per round, each computed from the memory of that
  moment. When no round reads a pixel that an earlier round wrote, the result is as if all were
  computed from the memory at the start.
\<close>

definition visited :: "nat \<Rightarrow> nat \<Rightarrow> nat \<Rightarrow> nat \<Rightarrow> nat \<Rightarrow> nat \<Rightarrow> nat \<Rightarrow> bool" where
  "visited x0 y0 w row col x y \<longleftrightarrow> x0 \<le> x \<and> x < x0 + w \<and> y0 \<le> y \<and> (y < row \<or> y = row \<and> x < x0 + col)"

definition drawn :: "frame_buffer \<Rightarrow> vram \<Rightarrow> (nat \<Rightarrow> nat \<Rightarrow> bool) \<Rightarrow> (nat \<Rightarrow> nat \<Rightarrow> pixel) \<Rightarrow> vram \<Rightarrow> bool" where
  "drawn fb m0 V px m \<longleftrightarrow>
     (\<forall>x<fb_width fb. \<forall>y<fb_height fb. pixel_at fb m x y = (if V x y then px x y else pixel_at fb m0 x y)) \<and>
     (\<forall>a\<ge>fb_len fb. m a = m0 a)"

lemma drawn_step:
  assumes "fb_ok fb" "drawn fb m0 V px m" "x < fb_width fb" "y < fb_height fb" "\<not> V x y"
    "\<And>u v. V' u v \<longleftrightarrow> V u v \<or> u = x \<and> v = y"
  shows "drawn fb m0 V' px (write_pixel (x * 4 + y * fb_stride fb) (px x y) m)"
  unfolding drawn_def
proof (intro conjI allI impI)
  fix u v assume "u < fb_width fb" "v < fb_height fb"
  then show "pixel_at fb (write_pixel (x * 4 + y * fb_stride fb) (px x y) m) u v =
      (if V' u v then px u v else pixel_at fb m0 u v)"
    using assms pixel_write [OF assms(1) _ assms(3)] by (auto simp: drawn_def)
next
  fix a assume "fb_len fb \<le> a"
  then show "write_pixel (x * 4 + y * fb_stride fb) (px x y) m a = m0 a"
    using assms(2) write_outside [OF pixel_inside(1) [OF assms(1,3,4)]] by (simp add: drawn_def)
qed

lemma draw_loop:
  assumes fb: "fb_ok fb" and in_range: "x0 + w \<le> fb_width fb" "y0 + h \<le> fb_height fb"
    and round: "\<And>row col m. row < h \<Longrightarrow> col < w \<Longrightarrow> drawn fb m0 (visited x0 y0 w (y0 + row) col) px m \<Longrightarrow>
       f row col m = Some (write_pixel ((x0 + col) * 4 + (y0 + row) * fb_stride fb) (px (x0 + col) (y0 + row)) m)"
  shows "\<exists>m. for_range 0 h (\<lambda>row. for_range 0 w (f row)) m0 = Some m \<and>
    drawn fb m0 (\<lambda>x y. x0 \<le> x \<and> x < x0 + w \<and> y0 \<le> y \<and> y < y0 + h) px m"
proof -
  have "\<exists>m. for_range 0 h (\<lambda>row. for_range 0 w (f row)) m0 = Some m \<and> drawn fb m0 (visited x0 y0 w (y0 + (0 + h)) 0) px m"
  proof (rule for_range_rule [where P = "\<lambda>row m. drawn fb m0 (visited x0 y0 w (y0 + row) 0) px m"])
    show "drawn fb m0 (visited x0 y0 w (y0 + 0) 0) px m0" by (auto simp: drawn_def visited_def)
  next
    fix row m assume r: "row < 0 + h" "drawn fb m0 (visited x0 y0 w (y0 + row) 0) px m"
    have "\<exists>m'. for_range 0 w (f row) m = Some m' \<and> drawn fb m0 (visited x0 y0 w (y0 + row) (0 + w)) px m'"
    proof (rule for_range_rule [where P = "\<lambda>col m. drawn fb m0 (visited x0 y0 w (y0 + row) col) px m"])
      show "drawn fb m0 (visited x0 y0 w (y0 + row) 0) px m" by (rule r(2))
    next
      fix col m assume c: "col < 0 + w" "drawn fb m0 (visited x0 y0 w (y0 + row) col) px m"
      then have "drawn fb m0 (visited x0 y0 w (y0 + row) (Suc col)) px
          (write_pixel ((x0 + col) * 4 + (y0 + row) * fb_stride fb) (px (x0 + col) (y0 + row)) m)"
        using r(1) in_range by (intro drawn_step [OF fb c(2)]) (auto simp: visited_def)
      then show "\<exists>m'. f row col m = Some m' \<and> drawn fb m0 (visited x0 y0 w (y0 + row) (Suc col)) px m'"
        using round [of row col m] r(1) c by simp
    qed
    moreover have "visited x0 y0 w (y0 + row) (0 + w) = visited x0 y0 w (y0 + Suc row) 0"
      by (auto simp: visited_def fun_eq_iff)
    ultimately show "\<exists>m'. for_range 0 w (f row) m = Some m' \<and> drawn fb m0 (visited x0 y0 w (y0 + Suc row) 0) px m'" by simp
  qed
  moreover have "visited x0 y0 w (y0 + (0 + h)) 0 = (\<lambda>x y. x0 \<le> x \<and> x < x0 + w \<and> y0 \<le> y \<and> y < y0 + h)"
    by (auto simp: visited_def fun_eq_iff)
  ultimately show ?thesis by simp
qed

lemma for_range_shift: "for_range (lo + i) n f s = for_range i n (\<lambda>k. f (lo + k)) s"
proof (induction n arbitrary: i s)
  case (Suc n)
  have "for_range (Suc (lo + i)) n f = for_range (Suc i) n (\<lambda>k. f (lo + k))" using Suc.IH [of "Suc i"] by (auto simp: fun_eq_iff)
  then show ?case by simp
qed simp

lemma fill_rect_drawn:
  assumes fb: "fb_ok fb" and r: "x + w \<le> fb_width fb" "y + h \<le> fb_height fb" "fb_width fb < 2 ^ 64" "fb_height fb < 2 ^ 64"
  shows "\<exists>m'. fill_rect fb x y w h c m = Some m' \<and>
    drawn fb m (\<lambda>u v. x \<le> u \<and> u < x + w \<and> y \<le> v \<and> v < y + h) (\<lambda>u v. color_to_pixel c (fb_format fb)) m'"
proof -
  let ?f = "\<lambda>row col m. do { p \<leftarrow> chk ((x + col) * 4 + fb_stride fb * (y + row));
    Some (write_pixel p (color_to_pixel c (fb_format fb)) m) }"
  have "?f row col m = Some (write_pixel ((x + col) * 4 + (y + row) * fb_stride fb) (color_to_pixel c (fb_format fb)) m)"
    if "row < h" "col < w" for row col m
    using pixel_inside(2) [OF fb, of "x + col" "y + row"] that r by (simp add: mult.commute)
  then have "\<exists>m'. for_range 0 h (\<lambda>row. for_range 0 w (?f row)) m = Some m' \<and>
    drawn fb m (\<lambda>u v. x \<le> u \<and> u < x + w \<and> y \<le> v \<and> v < y + h) (\<lambda>u v. color_to_pixel c (fb_format fb)) m'"
    by (intro draw_loop [OF fb r(1,2)]) simp
  moreover have "fill_rect fb x y w h c m = for_range 0 h (\<lambda>row. for_range 0 w (?f row)) m"
    using r for_range_shift [of y 0 h] by (simp add: fill_rect_def chk_def Let_def)
  ultimately show ?thesis by simp
qed

text \<open>A copy upwards within the frame buffer reads no pixel it has written.\<close>

lemma internal_blt_up:
  assumes fb: "fb_ok fb" and r: "w \<le> fb_width fb" "d + h \<le> fb_height fb"
  shows "\<exists>m'. internal_blt fb 0 d w h 0 0 m = Some m' \<and>
    drawn fb m (\<lambda>u v. u < w \<and> v < h) (\<lambda>u v. pixel_at fb m u (d + v)) m'"
proof -
  let ?f = "\<lambda>row col m. do { src_ptr \<leftarrow> chk ((0 + col) * 4 + (d + row) * fb_stride fb);
    dst_ptr \<leftarrow> chk ((0 + col) * 4 + (0 + row) * fb_stride fb);
    Some (write_pixel dst_ptr (read_pixel src_ptr m) m) }"
  have "?f row col m' = Some (write_pixel ((0 + col) * 4 + (0 + row) * fb_stride fb) (pixel_at fb m (0 + col) (d + (0 + row))) m')"
    if a: "row < h" "col < w" "drawn fb m (visited 0 0 w (0 + row) col) (\<lambda>u v. pixel_at fb m u (d + v)) m'" for row col m'
  proof -
    have "pixel_at fb m' col (d + row) = pixel_at fb m col (d + row)"
      using a r by (auto simp: drawn_def visited_def)
    then show ?thesis
      using a r pixel_inside(2) [OF fb, of col "d + row"] pixel_inside(2) [OF fb, of col row] by (simp add: pixel_at_def)
  qed
  then have "\<exists>m'. for_range 0 h (\<lambda>row. for_range 0 w (?f row)) m = Some m' \<and>
    drawn fb m (\<lambda>u v. 0 \<le> u \<and> u < 0 + w \<and> 0 \<le> v \<and> v < 0 + h) (\<lambda>u v. pixel_at fb m u (d + v)) m'"
    using r by (intro draw_loop [OF fb]) simp_all
  then show ?thesis by (simp add: internal_blt_def)
qed

text \<open>A bitmap drawn inside the frame buffer.\<close>

definition bitmap_pixel :: "frame_buffer \<Rightarrow> vram \<Rightarrow> nat \<Rightarrow> color \<Rightarrow> color \<Rightarrow> nat \<Rightarrow> nat \<Rightarrow> pixel" where
  "bitmap_pixel fb src stride zero one col row =
     color_to_pixel (if bit (src (col div 8 + row * (stride div 8))) (7 - col mod 8) then one else zero) (fb_format fb)"

lemma write_bitmap_drawn:
  assumes fb: "fb_ok fb" and r: "x + w \<le> fb_width fb" "y + h \<le> fb_height fb" "fb_width fb < 2 ^ 62" "fb_height fb < 2 ^ 62"
    and src: "0 < h" "w \<le> 8 * stride" "stride * h \<le> n" "n < 2 ^ 60"
  shows "\<exists>m'. write_bitmap fb (src, n) 0 w h (stride * 8) x y zero one m = Some m' \<and>
    drawn fb m (\<lambda>u v. x \<le> u \<and> u < x + w \<and> y \<le> v \<and> v < y + h)
      (\<lambda>u v. bitmap_pixel fb src (stride * 8) zero one (u - x) (v - y)) m'"
proof -
  let ?px = "\<lambda>u v. bitmap_pixel fb src (stride * 8) zero one (u - x) (v - y)"
  let ?f = "\<lambda>row col m. do {
       bit_offset \<leftarrow> chk (col + 0);
       pixel_ptr \<leftarrow> chk ((x + col) * 4 + (y + row) * fb_stride fb);
       i \<leftarrow> chk (bit_offset + row * (stride * 8));
       let set_bit = (src (i div 8) AND push_bit (7 - bit_offset mod 8) 1 \<noteq> 0);
       Some (write_pixel pixel_ptr (if set_bit then color_to_pixel one (fb_format fb) else color_to_pixel zero (fb_format fb)) m) }"
  have bits: "stride \<le> stride * h" using src(1) by simp
  have step: "?f row col m = Some (write_pixel ((x + col) * 4 + (y + row) * fb_stride fb) (?px (x + col) (y + row)) m)"
    if a: "row < h" "col < w" for row col m
  proof -
    have "Suc row * stride \<le> h * stride" using a(1) by (intro mult_le_mono1) simp
    then have "col + row * (stride * 8) < 2 ^ 64" "col < 2 ^ 64" using a(2) src by (auto simp: mult.commute)
    moreover have "(col + row * (stride * 8)) div 8 = col div 8 + row * stride"
      using div_mult_self1 [of 8 col "row * stride"] by (simp add: mult.assoc)
    ultimately show ?thesis
      using pixel_inside(2) [OF fb, of "x + col" "y + row"] a r
      by (simp add: chk_def bitmap_pixel_def Let_def and_exp_eq_0_iff_not_bit)
  qed
  have "\<exists>m'. for_range 0 h (\<lambda>row. for_range 0 w (?f row)) m = Some m' \<and>
    drawn fb m (\<lambda>u v. x \<le> u \<and> u < x + w \<and> y \<le> v \<and> v < y + h) ?px m'"
    using step by (intro draw_loop [OF fb r(1,2)]) blast
  moreover have "write_bitmap fb (src, n) 0 w h (stride * 8) x y zero one m = for_range 0 h (\<lambda>row. for_range 0 w (?f row)) m"
  proof -
    have le: "stride * 8 * h \<le> n * 8" using src(3) by simp
    have pad: "stride * 8 - w \<le> stride * 8 * h" using bits by (simp only: mult.commute [of _ 8] mult.assoc)
    have c: "chk (n * 8) = Some (n * 8)" "chk (0 + stride * 8 * h) = Some (stride * 8 * h)" "chk_sub (stride * 8) w = Some (stride * 8 - w)"
      "chk_sub (stride * 8 * h) (stride * 8 - w) = Some (stride * 8 * h - (stride * 8 - w))"
      using le pad src by (simp_all add: chk_def chk_sub_def mult.commute [of h])
    have "x + w div 8 \<le> fb_width fb" using r(1) div_le_dividend [of w 8] by linarith
    then have d: "chk (x + w div 8) = Some (x + w div 8)" "x + w div 8 \<le> fb_width fb" "chk (y + h) = Some (y + h)"
      using r by (simp_all add: chk_def)
    have "stride * 8 * h - (stride * 8 - w) \<le> n * 8" using le by linarith
    then show ?thesis unfolding write_bitmap_def snd_conv fst_conv c d(1,3) bind.simps Let_def using d(2) r(2) by simp
  qed
  ultimately show ?thesis by simp
qed

end
