(* ===== verification/Terminal.thy ===== *)
theory Terminal
  imports Framebuffer
begin

text \<open>
  Model of \<^verbatim>\<open>kernel/src/utils/psf.rs\<close> (fonts) and \<^verbatim>\<open>kernel/src/out/terminal.rs\<close>: characters
  drawn at the bottom of the frame buffer, which scrolls up by one line of text. The font that the
  build includes is a parameter; what the terminal needs of it is \<open>font_ok\<close>.
\<close>

section \<open>Fonts\<close>

record psf_font_header =
  psf_magic :: u32
  psf_version :: u32
  psf_header_size :: u32
  psf_flags :: u32
  psf_glyph_count :: u32
  psf_glyph_size :: u32
  psf_height :: u32
  psf_width :: u32

record psf_font =
  font_header :: psf_font_header
  font_data :: "u8 list"

definition PSF_FONT_MAGIC :: u32 where "PSF_FONT_MAGIC = 0x864AB572"

definition slice_to_u32 :: "nat \<Rightarrow> u8 list \<Rightarrow> u32 option" where
  "slice_to_u32 i data =
     (if i + 3 < length data
      then Some (ucast (data ! i) OR push_bit 8 (ucast (data ! (i + 1))) OR push_bit 16 (ucast (data ! (i + 2)))
             OR push_bit 24 (ucast (data ! (i + 3))))
      else None)"

definition psf_new :: "u8 list \<Rightarrow> psf_font option" where
  "psf_new data = do {
     magic \<leftarrow> slice_to_u32 0 data;
     rust_assert (magic = PSF_FONT_MAGIC);
     version \<leftarrow> slice_to_u32 4 data;
     header_size \<leftarrow> slice_to_u32 8 data;
     flags \<leftarrow> slice_to_u32 12 data;
     glyph_count \<leftarrow> slice_to_u32 16 data;
     glyph_size \<leftarrow> slice_to_u32 20 data;
     height \<leftarrow> slice_to_u32 24 data;
     width \<leftarrow> slice_to_u32 28 data;
     Some \<lparr>font_header = \<lparr>psf_magic = magic, psf_version = version, psf_header_size = header_size, psf_flags = flags,
             psf_glyph_count = glyph_count, psf_glyph_size = glyph_size, psf_height = height, psf_width = width\<rparr>,
           font_data = data\<rparr>
   }"

text \<open>The outer \<open>None\<close> is an overflow, the inner one a range outside the data.\<close>

definition get_glyph :: "psf_font \<Rightarrow> nat \<Rightarrow> u8 list option option" where
  "get_glyph f i = do {
     offset \<leftarrow> chk (unat (psf_header_size (font_header f)) + unat (psf_glyph_size (font_header f)) * i);
     end \<leftarrow> chk (offset + unat (psf_glyph_size (font_header f)));
     Some (if end \<le> length (font_data f)
           then Some (take (unat (psf_glyph_size (font_header f))) (drop offset (font_data f))) else None)
   }"

section \<open>The terminal\<close>

record term1 =
  term_fb :: frame_buffer
  term_font :: psf_font
  char_col :: nat

definition font_h :: "term1 \<Rightarrow> nat" where "font_h t = unat (psf_height (font_header (term_font t)))"
definition font_w :: "term1 \<Rightarrow> nat" where "font_w t = unat (psf_width (font_header (term_font t)))"
definition glyph_count :: "term1 \<Rightarrow> nat" where "glyph_count t = unat (psf_glyph_count (font_header (term_font t)))"

definition new_line :: "term1 \<times> vram \<Rightarrow> (term1 \<times> vram) option" where
  "new_line = (\<lambda>(t, m). do {
     rest \<leftarrow> chk_sub (fb_height (term_fb t)) (font_h t);
     m \<leftarrow> internal_blt (term_fb t) 0 (font_h t) (fb_width (term_fb t)) rest 0 0 m;
     m \<leftarrow> fill_rect (term_fb t) 0 rest (fb_width (term_fb t)) (font_h t) BLACK m;
     Some (t\<lparr>char_col := 0\<rparr>, m)
   })"

text \<open>The end of \<open>write_char\<close>: the glyph is drawn at the cursor, which moves on.\<close>

definition draw_glyph :: "nat \<Rightarrow> term1 \<times> vram \<Rightarrow> (term1 \<times> vram) option" where
  "draw_glyph c = (\<lambda>(t, m). do {
     g \<leftarrow> get_glyph (term_font t) c;
     glyph \<leftarrow> g;
     stride \<leftarrow> chk (font_w t + 7);
     x \<leftarrow> chk (char_col t * font_w t);
     y \<leftarrow> chk_sub (fb_height (term_fb t)) (font_h t);
     m \<leftarrow> write_bitmap (term_fb t) (\<lambda>i. glyph ! i, length glyph) 0 (font_w t) (font_h t) (stride div 8 * 8) x y BLACK WHITE m;
     col \<leftarrow> chk (char_col t + 1);
     Some (t\<lparr>char_col := col\<rparr>, m)
   })"

definition write_char :: "nat \<Rightarrow> term1 \<times> vram \<Rightarrow> (term1 \<times> vram) option" where
  "write_char c = (\<lambda>(t, m).
     if c = 10 then new_line (t, m)
     else do {
       right \<leftarrow> chk ((char_col t + 1) * font_w t);
       s \<leftarrow> (if fb_width (term_fb t) < right then new_line (t, m) else Some (t, m));
       draw_glyph c s
     })"

fun write_str :: "nat list \<Rightarrow> term1 \<times> vram \<Rightarrow> (term1 \<times> vram) option" where
  "write_str [] s = Some s"
| "write_str (c # cs) s = do {
     s \<leftarrow> (if glyph_count (fst s) < c then write_char 0 s else write_char c s);
     write_str cs s
   }"

section \<open>Scrolling and drawing\<close>

text \<open>A font whose glyphs are all there and fit the frame buffer.\<close>

definition font_ok :: "term1 \<Rightarrow> bool" where
  "font_ok t \<longleftrightarrow> 0 < glyph_count t \<and> 0 < font_w t \<and> 0 < font_h t \<and> font_w t \<le> fb_width (term_fb t) \<and> font_h t \<le> fb_height (term_fb t) \<and>
     (font_w t + 7) div 8 * font_h t \<le> unat (psf_glyph_size (font_header (term_font t))) \<and>
     unat (psf_header_size (font_header (term_font t))) + unat (psf_glyph_size (font_header (term_font t))) * glyph_count t
       \<le> length (font_data (term_font t)) \<and> length (font_data (term_font t)) < 2 ^ 60"

definition term_ok :: "term1 \<Rightarrow> bool" where
  "term_ok t \<longleftrightarrow> fb_ok (term_fb t) \<and> fb_width (term_fb t) < 2 ^ 62 \<and> fb_height (term_fb t) < 2 ^ 62 \<and> font_ok t \<and>
     char_col t * font_w t \<le> fb_width (term_fb t)"

definition same_screen :: "term1 \<Rightarrow> term1 \<Rightarrow> bool" where
  "same_screen t t' \<longleftrightarrow> term_fb t' = term_fb t \<and> term_font t' = term_font t"

lemma new_line_result:
  assumes "term_ok t"
  shows "\<exists>m'. new_line (t, m) = Some (t\<lparr>char_col := 0\<rparr>, m') \<and>
    drawn (term_fb t) m (\<lambda>_ _. True)
      (\<lambda>x y. if y + font_h t < fb_height (term_fb t) then pixel_at (term_fb t) m x (y + font_h t)
             else color_to_pixel BLACK (fb_format (term_fb t))) m'"
proof -
  let ?fb = "term_fb t" and ?h = "font_h t"
  let ?H = "fb_height ?fb" and ?W = "fb_width ?fb"
  have ok: "fb_ok ?fb" "?W < 2 ^ 64" "?H < 2 ^ 64" "?h \<le> ?H"
    using assms by (simp_all add: term_ok_def font_ok_def)
  obtain m1 where m1: "internal_blt ?fb 0 ?h ?W (?H - ?h) 0 0 m = Some m1"
    "drawn ?fb m (\<lambda>u v. u < ?W \<and> v < ?H - ?h) (\<lambda>u v. pixel_at ?fb m u (?h + v)) m1"
    using internal_blt_up [OF ok(1), of ?W ?h "?H - ?h" m] ok by auto
  obtain m2 where m2: "fill_rect ?fb 0 (?H - ?h) ?W ?h BLACK m1 = Some m2"
    "drawn ?fb m1 (\<lambda>u v. 0 \<le> u \<and> u < 0 + ?W \<and> ?H - ?h \<le> v \<and> v < ?H - ?h + ?h) (\<lambda>u v. color_to_pixel BLACK (fb_format ?fb)) m2"
    using fill_rect_drawn [OF ok(1), of 0 ?W "?H - ?h" ?h BLACK m1] ok by auto
  have "new_line (t, m) = Some (t\<lparr>char_col := 0\<rparr>, m2)"
    using m1(1) m2(1) ok by (simp add: new_line_def chk_sub_def)
  moreover have "drawn ?fb m (\<lambda>_ _. True)
      (\<lambda>x y. if y + ?h < ?H then pixel_at ?fb m x (y + ?h) else color_to_pixel BLACK (fb_format ?fb)) m2"
    using m1(2) m2(2) ok(4) unfolding drawn_def by (auto simp: add.commute)
  ultimately show ?thesis by blast
qed

text \<open>
  C36. A new line scrolls the screen: afterwards every pixel is what the pixel one line of text below
  it was, the last line of text is black, and no byte outside of the frame buffer has changed.
\<close>

theorem new_line_scrolls:
  assumes "term_ok t"
  shows "\<exists>m'. new_line (t, m) = Some (t\<lparr>char_col := 0\<rparr>, m') \<and>
    (\<forall>x y. x < fb_width (term_fb t) \<longrightarrow> y < fb_height (term_fb t) \<longrightarrow> pixel_at (term_fb t) m' x y =
       (if y + font_h t < fb_height (term_fb t) then pixel_at (term_fb t) m x (y + font_h t)
        else color_to_pixel BLACK (fb_format (term_fb t)))) \<and>
    {a. m' a \<noteq> m a} \<subseteq> {..<fb_len (term_fb t)}"
  using new_line_result [OF assms, of m] unfolding drawn_def by (auto simp: not_le [symmetric])

text \<open>A witness screen: four pixels by four, with a font of two glyphs of two pixels by two.\<close>

definition small_font :: psf_font where
  "small_font = \<lparr>font_header = \<lparr>psf_magic = PSF_FONT_MAGIC, psf_version = 0, psf_header_size = 32, psf_flags = 0,
      psf_glyph_count = 2, psf_glyph_size = 2, psf_height = 2, psf_width = 2\<rparr>, font_data = replicate 36 0x80\<rparr>"

definition small_term :: term1 where
  "small_term = \<lparr>term_fb = \<lparr>fb_base = 0x1000, fb_len = 64, fb_width = 4, fb_height = 4, fb_stride = 16, fb_format = ARGB\<rparr>,
      term_font = small_font, char_col = 2\<rparr>"

lemma small_term_ok: "term_ok small_term"
  by (simp add: term_ok_def font_ok_def fb_ok_def small_term_def small_font_def font_h_def font_w_def glyph_count_def)

theorem new_line_scrolls_witness:
  "term_ok small_term \<and> (\<exists>m'. new_line (small_term, \<lambda>_. 7) = Some (small_term\<lparr>char_col := 0\<rparr>, m') \<and>
     pixel_at (term_fb small_term) m' 1 1 = (7, 7, 7, 7) \<and> pixel_at (term_fb small_term) m' 1 2 = (0, 0, 0, 0))"
proof -
  obtain m' where m': "new_line (small_term, \<lambda>_. 7) = Some (small_term\<lparr>char_col := 0\<rparr>, m')"
    "\<forall>x y. x < fb_width (term_fb small_term) \<longrightarrow> y < fb_height (term_fb small_term) \<longrightarrow>
       pixel_at (term_fb small_term) m' x y =
       (if y + font_h small_term < fb_height (term_fb small_term) then pixel_at (term_fb small_term) (\<lambda>_. 7) x (y + font_h small_term)
        else color_to_pixel BLACK (fb_format (term_fb small_term)))"
    using new_line_scrolls [OF small_term_ok, of "\<lambda>_. 7"] by blast
  from m'(2) [rule_format, of 1 1] m'(2) [rule_format, of 1 2]
  have "pixel_at (term_fb small_term) m' 1 1 = (7, 7, 7, 7)" "pixel_at (term_fb small_term) m' 1 2 = (0, 0, 0, 0)"
    by (simp_all add: small_term_def small_font_def font_h_def BLACK_def color_new_def color_to_pixel_def pixel_at_def read_pixel_def)
  then show ?thesis using m'(1) small_term_ok by blast
qed

text \<open>What writing keeps: the screen, its invariant, and every byte behind the frame buffer.\<close>

definition writes_ok :: "term1 \<times> vram \<Rightarrow> (term1 \<times> vram) option \<Rightarrow> bool" where
  "writes_ok s r \<longleftrightarrow> (\<exists>t' m'. r = Some (t', m') \<and> term_ok t' \<and> same_screen (fst s) t' \<and>
     (\<forall>a\<ge>fb_len (term_fb (fst s)). m' a = snd s a))"

lemma writes_ok_refl: "term_ok t \<Longrightarrow> writes_ok (t, m) (Some (t, m))"
  by (simp add: writes_ok_def same_screen_def)

lemma writes_ok_bind:
  assumes "writes_ok s r" "\<And>t' m'. r = Some (t', m') \<Longrightarrow> term_ok t' \<Longrightarrow> same_screen (fst s) t' \<Longrightarrow> writes_ok (t', m') (f (t', m'))"
  shows "writes_ok s (r \<bind> f)"
  using assms unfolding writes_ok_def same_screen_def by fastforce

lemma new_line_writes: "term_ok t \<Longrightarrow> writes_ok (t, m) (new_line (t, m))"
  using new_line_result [of t m]
  by (auto simp: writes_ok_def drawn_def same_screen_def term_ok_def font_ok_def font_h_def font_w_def glyph_count_def)

lemma get_glyph_ok:
  assumes "font_ok t" "c < glyph_count t"
  obtains g where "get_glyph (term_font t) c = Some (Some g)"
    "length g = unat (psf_glyph_size (font_header (term_font t)))"
proof -
  let ?h = "font_header (term_font t)"
  let ?s = "unat (psf_glyph_size ?h)" and ?o = "unat (psf_header_size ?h) + unat (psf_glyph_size ?h) * c"
  have "?s * Suc c \<le> ?s * glyph_count t" using assms(2) by (intro mult_le_mono2) simp
  then have le: "?o + ?s \<le> length (font_data (term_font t))" using assms(1) by (simp add: font_ok_def)
  then have "get_glyph (term_font t) c = Some (Some (take ?s (drop ?o (font_data (term_font t)))))"
    using assms(1) by (simp add: get_glyph_def chk_def font_ok_def)
  then show ?thesis by (rule that) (use le in simp)
qed

text \<open>The glyph is drawn where the cursor is when there is room for it.\<close>

lemma draw_glyph_writes:
  assumes "term_ok t" "c < glyph_count t" "(char_col t + 1) * font_w t \<le> fb_width (term_fb t)"
  shows "writes_ok (t, m) (draw_glyph c (t, m))"
proof -
  let ?fb = "term_fb t"
  let ?s = "(font_w t + 7) div 8" and ?x = "char_col t * font_w t" and ?y = "fb_height ?fb - font_h t"
  have ok: "fb_ok ?fb" "fb_width ?fb < 2 ^ 62" "fb_height ?fb < 2 ^ 62" "font_ok t" using assms(1) by (simp_all add: term_ok_def)
  obtain g where g: "get_glyph (term_font t) c = Some (Some g)" "length g = unat (psf_glyph_size (font_header (term_font t)))"
    using get_glyph_ok [OF ok(4) assms(2)] .
  have "unat (psf_glyph_size (font_header (term_font t))) < 2 ^ 32"
    using unsigned_less [of "psf_glyph_size (font_header (term_font t))", where 'a = nat] by simp
  moreover have "(char_col t + 1) * 1 \<le> (char_col t + 1) * font_w t" by (rule mult_le_mono2) (use ok(4) in \<open>simp add: font_ok_def\<close>)
  ultimately have fit: "?x + font_w t \<le> fb_width ?fb" "?y + font_h t \<le> fb_height ?fb" "0 < font_h t" "font_w t \<le> 8 * ?s"
    "?s * font_h t \<le> length g" "length g < 2 ^ 60" "char_col t + 1 < 2 ^ 64" "font_w t + 7 < 2 ^ 64" "?x < 2 ^ 64" "font_h t \<le> fb_height ?fb"
    using ok assms(3) g(2) by (simp_all add: font_ok_def)
  obtain m' where m': "write_bitmap ?fb (\<lambda>i. g ! i, length g) 0 (font_w t) (font_h t) (?s * 8) ?x ?y BLACK WHITE m = Some m'"
    "\<forall>a\<ge>fb_len ?fb. m' a = m a"
    using write_bitmap_drawn [OF ok(1) fit(1,2) ok(2,3) fit(3-6), of "\<lambda>i. g ! i" BLACK WHITE m] unfolding drawn_def by blast
  have "term_ok (t\<lparr>char_col := char_col t + 1\<rparr>)"
    using assms(1,3) by (simp add: term_ok_def font_ok_def font_h_def font_w_def glyph_count_def)
  then show ?thesis using g(1) m' fit by (simp add: draw_glyph_def chk_def chk_sub_def writes_ok_def same_screen_def)
qed

lemma write_char_writes:
  assumes ok: "term_ok t" and c: "c < glyph_count t \<or> c = 10"
  shows "writes_ok (t, m) (write_char c (t, m))"
proof (cases "c = 10")
  case True
  then show ?thesis using new_line_writes [OF ok] by (simp add: write_char_def)
next
  case False
  have w: "font_w t < 2 ^ 32" "font_w t \<le> fb_width (term_fb t)"
    using unsigned_less [of "psf_width (font_header (term_font t))", where 'a = nat] ok
    by (simp_all add: font_w_def term_ok_def font_ok_def)
  have "writes_ok (t, m) ((if fb_width (term_fb t) < (char_col t + 1) * font_w t then new_line (t, m) else Some (t, m)) \<bind> draw_glyph c)"
  proof (rule writes_ok_bind)
    show "writes_ok (t, m) (if fb_width (term_fb t) < (char_col t + 1) * font_w t then new_line (t, m) else Some (t, m))"
      using new_line_writes [OF ok] writes_ok_refl [OF ok] by simp
  next
    fix t' m'
    assume r: "(if fb_width (term_fb t) < (char_col t + 1) * font_w t then new_line (t, m) else Some (t, m)) = Some (t', m')"
      and t': "term_ok t'" "same_screen (fst (t, m)) t'"
    have "(char_col t' + 1) * font_w t' \<le> fb_width (term_fb t')"
      using r w(2) new_line_result [OF ok, of m] by (auto simp: font_w_def split: if_splits)
    then show "writes_ok (t', m') (draw_glyph c (t', m'))"
      using t' c False by (intro draw_glyph_writes) (auto simp: same_screen_def glyph_count_def)
  qed
  moreover have "(char_col t + 1) * font_w t < 2 ^ 64" using ok w(1) by (simp add: term_ok_def)
  ultimately show ?thesis using False by (simp add: write_char_def chk_def del: mult_Suc)
qed

lemma write_str_writes:
  "term_ok t \<Longrightarrow> glyph_count t \<notin> set cs - {10} \<Longrightarrow> writes_ok (t, m) (write_str cs (t, m))"
proof (induction cs arbitrary: t m)
  case Nil
  then show ?case by (simp add: writes_ok_refl)
next
  case (Cons c cs)
  show ?case unfolding write_str.simps
  proof (rule writes_ok_bind)
    show "writes_ok (t, m) (if glyph_count (fst (t, m)) < c then write_char 0 (t, m) else write_char c (t, m))"
      using Cons.prems by (auto intro!: write_char_writes simp: term_ok_def font_ok_def)
  next
    fix t' m' assume "term_ok t'" "same_screen (fst (t, m)) t'"
    then show "writes_ok (t', m') (write_str cs (t', m'))"
      using Cons.prems(2) by (intro Cons.IH) (auto simp: same_screen_def glyph_count_def)
  qed
qed

text \<open>
  C37. Writing a string to the terminal never fails, keeps the terminal's invariant (the cursor stays
  on the screen) and changes no byte outside of the frame buffer, if the string does not hold the
  character whose code is the font's number of glyphs.
\<close>

theorem write_str_safe:
  assumes "term_ok t" "glyph_count t \<notin> set cs"
  shows "\<exists>t' m'. write_str cs (t, m) = Some (t', m') \<and> term_ok t' \<and> term_fb t' = term_fb t \<and> term_font t' = term_font t \<and>
    {a. m' a \<noteq> m a} \<subseteq> {..<fb_len (term_fb t)}"
  using write_str_writes [of t cs m] assms by (auto simp: writes_ok_def same_screen_def not_le [symmetric])

theorem write_str_safe_witness:
  "term_ok small_term \<and> glyph_count small_term \<notin> set [1, 10, 300] \<and>
   (\<exists>t' m'. write_str [1, 10, 300] (small_term, \<lambda>_. 7) = Some (t', m') \<and> term_ok t')"
proof -
  have "glyph_count small_term \<notin> set [1, 10, 300]" by (simp add: glyph_count_def small_term_def small_font_def)
  then show ?thesis using write_str_safe [OF small_term_ok, of "[1, 10, 300]" "\<lambda>_. 7"] small_term_ok by blast
qed

text \<open>
  The character whose code is the number of glyphs passes the check of \<open>write_str\<close>, but the font
  has no glyph for it: when the font's data ends with its last glyph, the terminal panics.
\<close>

lemma write_str_glyph_count_panics:
  assumes "term_ok t" "glyph_count t \<noteq> 10"
    "length (font_data (term_font t)) = unat (psf_header_size (font_header (term_font t)))
       + unat (psf_glyph_size (font_header (term_font t))) * glyph_count t"
  shows "write_str (glyph_count t # cs) (t, m) = None"
proof -
  have "0 < (font_w t + 7) div 8" "0 < font_h t" using assms(1) by (auto simp: term_ok_def font_ok_def)
  then have "0 < (font_w t + 7) div 8 * font_h t" by simp
  then have "0 < unat (psf_glyph_size (font_header (term_font t)))"
    using assms(1) unfolding term_ok_def font_ok_def by linarith
  then have "draw_glyph (glyph_count t) (t', m') = None" if "term_font t' = term_font t" for t' m'
    using assms(3) that by (auto simp: draw_glyph_def get_glyph_def chk_def bind_eq_None_conv)
  moreover have "\<exists>m'. new_line (t, m) = Some (t\<lparr>char_col := 0\<rparr>, m')" using new_line_result [OF assms(1)] by blast
  ultimately show ?thesis using assms(2) by (auto simp: write_char_def bind_eq_None_conv)
qed

end
