(* ===== verification/Ports.thy ===== *)
theory Ports
  imports Prelude
begin

text \<open>
  Model of \<^verbatim>\<open>amd64/src/ports.rs\<close>: port-mapped I/O. What is connected to the ports is not code of this
  repository, so it is a parameter: an \<open>io_bus\<close> says what an \<^verbatim>\<open>in\<close> and an \<^verbatim>\<open>out\<close> instruction do
  to the state \<open>'s\<close> of the devices. A read may change that state. \<open>logged\<close> is a bus that also
  records what is written, for statements on the sequence of writes.
\<close>

unbundle bit_operations_syntax

section \<open>Instructions\<close>

record 's io_bus =
  bus_in8 :: "u16 \<Rightarrow> 's \<Rightarrow> u8 \<times> 's"
  bus_out8 :: "u16 \<Rightarrow> u8 \<Rightarrow> 's \<Rightarrow> 's"
  bus_in16 :: "u16 \<Rightarrow> 's \<Rightarrow> u16 \<times> 's"
  bus_out16 :: "u16 \<Rightarrow> u16 \<Rightarrow> 's \<Rightarrow> 's"
  bus_in32 :: "u16 \<Rightarrow> 's \<Rightarrow> u32 \<times> 's"
  bus_out32 :: "u16 \<Rightarrow> u32 \<Rightarrow> 's \<Rightarrow> 's"

definition out8 :: "'s io_bus \<Rightarrow> u16 \<Rightarrow> u8 \<Rightarrow> 's \<Rightarrow> 's" where "out8 b port data s = bus_out8 b port data s"
definition in8 :: "'s io_bus \<Rightarrow> u16 \<Rightarrow> 's \<Rightarrow> u8 \<times> 's" where "in8 b port s = bus_in8 b port s"
definition out16 :: "'s io_bus \<Rightarrow> u16 \<Rightarrow> u16 \<Rightarrow> 's \<Rightarrow> 's" where "out16 b port data s = bus_out16 b port data s"
definition in16 :: "'s io_bus \<Rightarrow> u16 \<Rightarrow> 's \<Rightarrow> u16 \<times> 's" where "in16 b port s = bus_in16 b port s"
definition out32 :: "'s io_bus \<Rightarrow> u16 \<Rightarrow> u32 \<Rightarrow> 's \<Rightarrow> 's" where "out32 b port data s = bus_out32 b port data s"
definition in32 :: "'s io_bus \<Rightarrow> u16 \<Rightarrow> 's \<Rightarrow> u32 \<times> 's" where "in32 b port s = bus_in32 b port s"

section \<open>\<open>PortData\<close>\<close>

text \<open>A read returns the bits inside and those outside of the mask; a write returns the bits left out.\<close>

definition port_read_u8 :: "'s io_bus \<Rightarrow> u16 \<Rightarrow> u8 \<Rightarrow> 's \<Rightarrow> (u8 \<times> u8) \<times> 's" where
  "port_read_u8 b port msk s = (let (v, s) = in8 b port s in ((v AND msk, v AND NOT msk), s))"

definition port_write_u8 :: "'s io_bus \<Rightarrow> u16 \<Rightarrow> u8 \<Rightarrow> u8 \<Rightarrow> 's \<Rightarrow> u8 \<times> 's" where
  "port_write_u8 b port data msk s = (data AND NOT msk, out8 b port (data AND msk) s)"

definition port_read_u16 :: "'s io_bus \<Rightarrow> u16 \<Rightarrow> u16 \<Rightarrow> 's \<Rightarrow> (u16 \<times> u16) \<times> 's" where
  "port_read_u16 b port msk s = (let (v, s) = in16 b port s in ((v AND msk, v AND NOT msk), s))"

definition port_write_u16 :: "'s io_bus \<Rightarrow> u16 \<Rightarrow> u16 \<Rightarrow> u16 \<Rightarrow> 's \<Rightarrow> u16 \<times> 's" where
  "port_write_u16 b port data msk s = (data AND NOT msk, out16 b port (data AND msk) s)"

definition port_read_u32 :: "'s io_bus \<Rightarrow> u16 \<Rightarrow> u32 \<Rightarrow> 's \<Rightarrow> (u32 \<times> u32) \<times> 's" where
  "port_read_u32 b port msk s = (let (v, s) = in32 b port s in ((v AND msk, v AND NOT msk), s))"

definition port_write_u32 :: "'s io_bus \<Rightarrow> u16 \<Rightarrow> u32 \<Rightarrow> u32 \<Rightarrow> 's \<Rightarrow> u32 \<times> 's" where
  "port_write_u32 b port data msk s = (data AND NOT msk, out32 b port (data AND msk) s)"

section \<open>Ports with a mask\<close>

text \<open>
  The marker types and the traits they implement: the read-only marker has the trait for writing, and
  both \<open>read\<close> and \<open>write\<close> ask for that one.
\<close>

datatype port_access = ReadOnlyPortAccess | WriteOnlyPortAccess | ReadWritePortAccess

fun port_read_access_trait :: "port_access \<Rightarrow> bool" where
  "port_read_access_trait ReadOnlyPortAccess = False"
| "port_read_access_trait WriteOnlyPortAccess = False"
| "port_read_access_trait ReadWritePortAccess = True"

fun port_write_access_trait :: "port_access \<Rightarrow> bool" where
  "port_write_access_trait ReadOnlyPortAccess = True"
| "port_write_access_trait WriteOnlyPortAccess = True"
| "port_write_access_trait ReadWritePortAccess = True"

record 'a io_port =
  port_addr :: u16
  port_mask :: 'a

definition io_port_new :: "u16 \<Rightarrow> 'a \<Rightarrow> 'a io_port" where
  "io_port_new port msk = \<lparr>port_addr = port, port_mask = msk\<rparr>"

text \<open>\<open>read\<close> and \<open>write\<close> for bytes, the width that the kernel uses, and for the other two.\<close>

definition port_read8 :: "'s io_bus \<Rightarrow> u8 io_port \<Rightarrow> 's \<Rightarrow> (u8 \<times> u8) \<times> 's" where
  "port_read8 b p s = port_read_u8 b (port_addr p) (port_mask p) s"

definition port_write8 :: "'s io_bus \<Rightarrow> u8 io_port \<Rightarrow> u8 \<Rightarrow> 's \<Rightarrow> u8 \<times> 's" where
  "port_write8 b p data s = port_write_u8 b (port_addr p) data (port_mask p) s"

definition port_read16 :: "'s io_bus \<Rightarrow> u16 io_port \<Rightarrow> 's \<Rightarrow> (u16 \<times> u16) \<times> 's" where
  "port_read16 b p s = port_read_u16 b (port_addr p) (port_mask p) s"

definition port_write16 :: "'s io_bus \<Rightarrow> u16 io_port \<Rightarrow> u16 \<Rightarrow> 's \<Rightarrow> u16 \<times> 's" where
  "port_write16 b p data s = port_write_u16 b (port_addr p) data (port_mask p) s"

definition port_read32 :: "'s io_bus \<Rightarrow> u32 io_port \<Rightarrow> 's \<Rightarrow> (u32 \<times> u32) \<times> 's" where
  "port_read32 b p s = port_read_u32 b (port_addr p) (port_mask p) s"

definition port_write32 :: "'s io_bus \<Rightarrow> u32 io_port \<Rightarrow> u32 \<Rightarrow> 's \<Rightarrow> u32 \<times> 's" where
  "port_write32 b p data s = port_write_u32 b (port_addr p) data (port_mask p) s"

definition io_port_clone :: "'a io_port \<Rightarrow> 'a io_port" where
  "io_port_clone p = \<lparr>port_addr = port_addr p, port_mask = port_mask p\<rparr>"

section \<open>Recording what is written\<close>

text \<open>The bytes written, latest last, with their ports; the devices behave as on the bus \<open>b\<close>.\<close>

definition logged :: "'s io_bus \<Rightarrow> ('s \<times> (u16 \<times> u8) list) io_bus" where
  "logged b = \<lparr>
     bus_in8 = (\<lambda>p (s, l). let (v, s) = bus_in8 b p s in (v, (s, l))),
     bus_out8 = (\<lambda>p v (s, l). (bus_out8 b p v s, l @ [(p, v)])),
     bus_in16 = (\<lambda>p (s, l). let (v, s) = bus_in16 b p s in (v, (s, l))),
     bus_out16 = (\<lambda>p v (s, l). (bus_out16 b p v s, l)),
     bus_in32 = (\<lambda>p (s, l). let (v, s) = bus_in32 b p s in (v, (s, l))),
     bus_out32 = (\<lambda>p v (s, l). (bus_out32 b p v s, l))\<rparr>"

named_theorems port_simps \<open>reads and writes of bytes on a logged bus\<close>

lemma logged_read8 [port_simps]:
  "port_read8 (logged b) p (s, l) =
     (fst (port_read8 b p s), (snd (port_read8 b p s), l))"
  by (simp add: port_read8_def port_read_u8_def in8_def logged_def split: prod.splits)

lemma logged_write8 [port_simps]:
  "port_write8 (logged b) p v (s, l) =
     (v AND NOT (port_mask p), (snd (port_write8 b p v s), l @ [(port_addr p, v AND port_mask p)]))"
  by (simp add: port_write8_def port_write_u8_def out8_def logged_def)

text \<open>A read splits the byte that was there, and a write leaves out nothing else than the masked bits.\<close>

lemma port_read8_split:
  "port_read8 b p s = ((x, y), s') \<Longrightarrow> x OR y = fst (in8 b (port_addr p) s) \<and> x AND y = 0 \<and> x AND NOT (port_mask p) = 0"
  by (auto simp: port_read8_def port_read_u8_def bit_eq_iff bit_simps split: prod.splits)

end
