(* ===== verification/Uart.thy ===== *)
theory Uart
  imports Ports Registers
begin

text \<open>
  Model of \<^verbatim>\<open>kernel/src/out/uart.rs\<close>: the registers of a serial port, the identification of the chip,
  its initialisation and test, and writing of text. The chip is behind an \<open>io_bus\<close>, a parameter;
  what the text output needs of it, that the transmitter becomes empty again after finitely many polls,
  is a hypothesis where it is used.
\<close>

section \<open>Chips and registers\<close>

definition COM1 :: u16 where "COM1 = 0x3F8"
definition COM2 :: u16 where "COM2 = 0x2F8"
definition COM3 :: u16 where "COM3 = 0x3E8"
definition COM4 :: u16 where "COM4 = 0x2E8"

definition THBR_OFFSET :: u16 where "THBR_OFFSET = 0"
definition RBR_OFFSET :: u16 where "RBR_OFFSET = 0"
definition DLL_OFFSET :: u16 where "DLL_OFFSET = 0"
definition IER_OFFSET :: u16 where "IER_OFFSET = 1"
definition DLH_OFFSET :: u16 where "DLH_OFFSET = 1"
definition IIR_OFFSET :: u16 where "IIR_OFFSET = 2"
definition FCR_OFFSET :: u16 where "FCR_OFFSET = 2"
definition LCR_OFFSET :: u16 where "LCR_OFFSET = 3"
definition MCR_OFFSET :: u16 where "MCR_OFFSET = 4"
definition LSR_OFFSET :: u16 where "LSR_OFFSET = 5"
definition MSR_OFFSET :: u16 where "MSR_OFFSET = 6"
definition SCR_OFFSET :: u16 where "SCR_OFFSET = 7"

lemmas uart_offsets = THBR_OFFSET_def RBR_OFFSET_def DLL_OFFSET_def IER_OFFSET_def DLH_OFFSET_def IIR_OFFSET_def
  FCR_OFFSET_def LCR_OFFSET_def MCR_OFFSET_def LSR_OFFSET_def MSR_OFFSET_def SCR_OFFSET_def

datatype uart_chip_version = V8250 | V16450 | V16550 | V16550A | V16750

fun uart_chip_number :: "uart_chip_version \<Rightarrow> nat" where
  "uart_chip_number V8250 = 8250"
| "uart_chip_number V16450 = 16450"
| "uart_chip_number V16550 = 16550"
| "uart_chip_number V16550A = 16551"
| "uart_chip_number V16750 = 16750"

text \<open>The derived order is that of the declaration, which is also that of the numbers.\<close>

instantiation uart_chip_version :: linorder
begin

definition less_eq_uart_chip_version :: "uart_chip_version \<Rightarrow> uart_chip_version \<Rightarrow> bool" where
  "less_eq_uart_chip_version a b \<longleftrightarrow> uart_chip_number a \<le> uart_chip_number b"

definition less_uart_chip_version :: "uart_chip_version \<Rightarrow> uart_chip_version \<Rightarrow> bool" where
  "less_uart_chip_version a b \<longleftrightarrow> uart_chip_number a < uart_chip_number b"

instance
proof
  fix a b c :: uart_chip_version
  show "a < b \<longleftrightarrow> a \<le> b \<and> \<not> b \<le> a" by (auto simp: less_eq_uart_chip_version_def less_uart_chip_version_def)
  show "a \<le> a" by (simp add: less_eq_uart_chip_version_def)
  show "a \<le> b \<Longrightarrow> b \<le> c \<Longrightarrow> a \<le> c" by (simp add: less_eq_uart_chip_version_def)
  show "a \<le> b \<Longrightarrow> b \<le> a \<Longrightarrow> a = b" by (cases a; cases b) (simp_all add: less_eq_uart_chip_version_def)
  show "a \<le> b \<or> b \<le> a" by (auto simp: less_eq_uart_chip_version_def)
qed

end

datatype baud_rate =
    BR50 | BR110 | BR220 | BR300 | BR600 | BR1200 | BR2400 | BR4800 | BR9600 | BR19200 | BR38400 | BR57600 | BR115200

fun baud_rate_number :: "baud_rate \<Rightarrow> u32" where
  "baud_rate_number BR50 = 50"
| "baud_rate_number BR110 = 110"
| "baud_rate_number BR220 = 220"
| "baud_rate_number BR300 = 300"
| "baud_rate_number BR600 = 600"
| "baud_rate_number BR1200 = 1200"
| "baud_rate_number BR2400 = 2400"
| "baud_rate_number BR4800 = 4800"
| "baud_rate_number BR9600 = 9600"
| "baud_rate_number BR19200 = 19200"
| "baud_rate_number BR38400 = 38400"
| "baud_rate_number BR57600 = 57600"
| "baud_rate_number BR115200 = 115200"

datatype ier_flag =
    IER_RECEIVED_DATA_AVAILABLE_INTERRUPT | IER_TRANSMITTER_HOLDING_REGISTER_EMPTY_INTERRUPT
  | IER_RECEIVER_LINE_STATUS_INTERRUPT | IER_MODEM_STATUS_INTERRUPT | IER_ENABLE_SLEEP_MODE
  | IER_ENABLE_LOW_POWER_MODE

fun ier_bits :: "ier_flag \<Rightarrow> u8" where
  "ier_bits IER_RECEIVED_DATA_AVAILABLE_INTERRUPT = 1"
| "ier_bits IER_TRANSMITTER_HOLDING_REGISTER_EMPTY_INTERRUPT = 2"
| "ier_bits IER_RECEIVER_LINE_STATUS_INTERRUPT = 4"
| "ier_bits IER_MODEM_STATUS_INTERRUPT = 8"
| "ier_bits IER_ENABLE_SLEEP_MODE = 0x10"
| "ier_bits IER_ENABLE_LOW_POWER_MODE = 0x20"

definition ier_all :: u8 where
  "ier_all = ier_bits IER_RECEIVED_DATA_AVAILABLE_INTERRUPT
     OR ier_bits IER_TRANSMITTER_HOLDING_REGISTER_EMPTY_INTERRUPT
     OR ier_bits IER_RECEIVER_LINE_STATUS_INTERRUPT OR ier_bits IER_MODEM_STATUS_INTERRUPT
     OR ier_bits IER_ENABLE_SLEEP_MODE OR ier_bits IER_ENABLE_LOW_POWER_MODE"

datatype iir_flag =
    IIR_INTERRUPT_NOT_PENDING | IIR_PENDING_INTERRUPT_MASK | IIR_TIME_OUT_INTERRUPT | IIR_LINE_STATUS_CHANGE
  | IIR_RECEIVED_DATA_AVAILABLE | IIR_TRANSMITTER_HOLDING_REGISTER_EMPTY_INTERRUPT | IIR_MODEM_STATUS_INTERRUPT
  | IIR_FIFO_64_BYTES_ENABLED | IIR_FIFO_STATE_MASK | IIR_FIFO_ENABLED | IIR_FIFO_NONFUNCTIONAL | IIR_NO_FIFO

fun iir_bits :: "iir_flag \<Rightarrow> u8" where
  "iir_bits IIR_INTERRUPT_NOT_PENDING = 1"
| "iir_bits IIR_PENDING_INTERRUPT_MASK = 0x0E"
| "iir_bits IIR_TIME_OUT_INTERRUPT = 0x0C"
| "iir_bits IIR_LINE_STATUS_CHANGE = 6"
| "iir_bits IIR_RECEIVED_DATA_AVAILABLE = 4"
| "iir_bits IIR_TRANSMITTER_HOLDING_REGISTER_EMPTY_INTERRUPT = 2"
| "iir_bits IIR_MODEM_STATUS_INTERRUPT = 0"
| "iir_bits IIR_FIFO_64_BYTES_ENABLED = 0x20"
| "iir_bits IIR_FIFO_STATE_MASK = 0xC0"
| "iir_bits IIR_FIFO_ENABLED = 0xC0"
| "iir_bits IIR_FIFO_NONFUNCTIONAL = 0x80"
| "iir_bits IIR_NO_FIFO = 0"

definition iir_all :: u8 where
  "iir_all = iir_bits IIR_INTERRUPT_NOT_PENDING OR iir_bits IIR_PENDING_INTERRUPT_MASK
     OR iir_bits IIR_TIME_OUT_INTERRUPT OR iir_bits IIR_LINE_STATUS_CHANGE
     OR iir_bits IIR_RECEIVED_DATA_AVAILABLE OR iir_bits IIR_TRANSMITTER_HOLDING_REGISTER_EMPTY_INTERRUPT
     OR iir_bits IIR_MODEM_STATUS_INTERRUPT OR iir_bits IIR_FIFO_64_BYTES_ENABLED
     OR iir_bits IIR_FIFO_STATE_MASK OR iir_bits IIR_FIFO_ENABLED OR iir_bits IIR_FIFO_NONFUNCTIONAL
     OR iir_bits IIR_NO_FIFO"

datatype fcr_flag =
    FCR_ENABLE_FIFOS | FCR_CLEAR_RECEIVE_FIFO | FCR_CLEAR_TRANSMIT_FIFO | FCR_ENABLE_64_BYTE_FIFO
  | FCR_INTERRUPT_TRIGGER_LEVEL_MASK | FCR_INTERRUPT_TRIGGER_LEVEL_1_1 | FCR_INTERRUPT_TRIGGER_LEVEL_4_16
  | FCR_INTERRUPT_TRIGGER_LEVEL_8_32 | FCR_INTERRUPT_TRIGGER_LEVEL_14_56

fun fcr_bits :: "fcr_flag \<Rightarrow> u8" where
  "fcr_bits FCR_ENABLE_FIFOS = 1"
| "fcr_bits FCR_CLEAR_RECEIVE_FIFO = 2"
| "fcr_bits FCR_CLEAR_TRANSMIT_FIFO = 4"
| "fcr_bits FCR_ENABLE_64_BYTE_FIFO = 0x20"
| "fcr_bits FCR_INTERRUPT_TRIGGER_LEVEL_MASK = 0xC0"
| "fcr_bits FCR_INTERRUPT_TRIGGER_LEVEL_1_1 = 0"
| "fcr_bits FCR_INTERRUPT_TRIGGER_LEVEL_4_16 = 0x40"
| "fcr_bits FCR_INTERRUPT_TRIGGER_LEVEL_8_32 = 0x80"
| "fcr_bits FCR_INTERRUPT_TRIGGER_LEVEL_14_56 = 0xC0"

definition fcr_all :: u8 where
  "fcr_all = fcr_bits FCR_ENABLE_FIFOS OR fcr_bits FCR_CLEAR_RECEIVE_FIFO OR fcr_bits FCR_CLEAR_TRANSMIT_FIFO
     OR fcr_bits FCR_ENABLE_64_BYTE_FIFO OR fcr_bits FCR_INTERRUPT_TRIGGER_LEVEL_MASK
     OR fcr_bits FCR_INTERRUPT_TRIGGER_LEVEL_1_1 OR fcr_bits FCR_INTERRUPT_TRIGGER_LEVEL_4_16
     OR fcr_bits FCR_INTERRUPT_TRIGGER_LEVEL_8_32 OR fcr_bits FCR_INTERRUPT_TRIGGER_LEVEL_14_56"

datatype lcr_flag =
    LCR_WORD_LENGTH_MASK | LCR_WORD_LENGTH_5_BITS | LCR_WORD_LENGTH_6_BITS | LCR_WORD_LENGTH_7_BITS
  | LCR_WORD_LENGTH_8_BITS | LCR_STOP_BIT_LEN_2 | LCR_PARITY_ENABLED | LCR_PARITY_TYPE_MASK | LCR_NO_PARITY
  | LCR_ODD_PARITY | LCR_EVEN_PARITY | LCR_MARK_PARITY | LCR_SPACE_PARITY | LCR_ENABLE_BREAK_SIGNAL
  | LCR_DIVISOR_LATCH_ACCESS_BIT

fun lcr_bits :: "lcr_flag \<Rightarrow> u8" where
  "lcr_bits LCR_WORD_LENGTH_MASK = 3"
| "lcr_bits LCR_WORD_LENGTH_5_BITS = 0"
| "lcr_bits LCR_WORD_LENGTH_6_BITS = 1"
| "lcr_bits LCR_WORD_LENGTH_7_BITS = 2"
| "lcr_bits LCR_WORD_LENGTH_8_BITS = 3"
| "lcr_bits LCR_STOP_BIT_LEN_2 = 4"
| "lcr_bits LCR_PARITY_ENABLED = 8"
| "lcr_bits LCR_PARITY_TYPE_MASK = 0x38"
| "lcr_bits LCR_NO_PARITY = 0"
| "lcr_bits LCR_ODD_PARITY = 8"
| "lcr_bits LCR_EVEN_PARITY = 0x18"
| "lcr_bits LCR_MARK_PARITY = 0x28"
| "lcr_bits LCR_SPACE_PARITY = 0x38"
| "lcr_bits LCR_ENABLE_BREAK_SIGNAL = 0x40"
| "lcr_bits LCR_DIVISOR_LATCH_ACCESS_BIT = 0x80"

definition lcr_all :: u8 where
  "lcr_all = lcr_bits LCR_WORD_LENGTH_MASK OR lcr_bits LCR_WORD_LENGTH_5_BITS OR lcr_bits LCR_WORD_LENGTH_6_BITS
     OR lcr_bits LCR_WORD_LENGTH_7_BITS OR lcr_bits LCR_WORD_LENGTH_8_BITS OR lcr_bits LCR_STOP_BIT_LEN_2
     OR lcr_bits LCR_PARITY_ENABLED OR lcr_bits LCR_PARITY_TYPE_MASK OR lcr_bits LCR_NO_PARITY
     OR lcr_bits LCR_ODD_PARITY OR lcr_bits LCR_EVEN_PARITY OR lcr_bits LCR_MARK_PARITY
     OR lcr_bits LCR_SPACE_PARITY OR lcr_bits LCR_ENABLE_BREAK_SIGNAL OR lcr_bits LCR_DIVISOR_LATCH_ACCESS_BIT"

datatype mcr_flag =
    MCR_DATA_TERMINAL_READY | MCR_REQUEST_TO_SEND | MCR_AUXILLARY_OUTPUT_1 | MCR_AUXILLARY_OUTPUT_2
  | MCR_LOOPBACK_ENABLED | MCR_AUTOFLOW_CONTROL_ENABLED

fun mcr_bits :: "mcr_flag \<Rightarrow> u8" where
  "mcr_bits MCR_DATA_TERMINAL_READY = 1"
| "mcr_bits MCR_REQUEST_TO_SEND = 2"
| "mcr_bits MCR_AUXILLARY_OUTPUT_1 = 4"
| "mcr_bits MCR_AUXILLARY_OUTPUT_2 = 8"
| "mcr_bits MCR_LOOPBACK_ENABLED = 0x10"
| "mcr_bits MCR_AUTOFLOW_CONTROL_ENABLED = 0x20"

definition mcr_all :: u8 where
  "mcr_all = mcr_bits MCR_DATA_TERMINAL_READY OR mcr_bits MCR_REQUEST_TO_SEND OR mcr_bits MCR_AUXILLARY_OUTPUT_1
     OR mcr_bits MCR_AUXILLARY_OUTPUT_2 OR mcr_bits MCR_LOOPBACK_ENABLED
     OR mcr_bits MCR_AUTOFLOW_CONTROL_ENABLED"

datatype lsr_flag =
    LSR_DATA_READY | LSR_OVERRUN_ERROR | LSR_PARITY_ERROR | LSR_FRAMING_ERROR | LSR_BREAK_INTERRUPT
  | LSR_EMPTY_TRANSMITTER_HOLDING_REGISTER | LSR_EMPTY_DATA_HOLDING_REGISTERS | LSR_FIFO_RECEIVED_ERRONEOUS_DATA

fun lsr_bits :: "lsr_flag \<Rightarrow> u8" where
  "lsr_bits LSR_DATA_READY = 1"
| "lsr_bits LSR_OVERRUN_ERROR = 2"
| "lsr_bits LSR_PARITY_ERROR = 4"
| "lsr_bits LSR_FRAMING_ERROR = 8"
| "lsr_bits LSR_BREAK_INTERRUPT = 0x10"
| "lsr_bits LSR_EMPTY_TRANSMITTER_HOLDING_REGISTER = 0x20"
| "lsr_bits LSR_EMPTY_DATA_HOLDING_REGISTERS = 0x40"
| "lsr_bits LSR_FIFO_RECEIVED_ERRONEOUS_DATA = 0x80"

definition lsr_all :: u8 where
  "lsr_all = lsr_bits LSR_DATA_READY OR lsr_bits LSR_OVERRUN_ERROR OR lsr_bits LSR_PARITY_ERROR
     OR lsr_bits LSR_FRAMING_ERROR OR lsr_bits LSR_BREAK_INTERRUPT
     OR lsr_bits LSR_EMPTY_TRANSMITTER_HOLDING_REGISTER OR lsr_bits LSR_EMPTY_DATA_HOLDING_REGISTERS
     OR lsr_bits LSR_FIFO_RECEIVED_ERRONEOUS_DATA"

datatype msr_flag =
    MSR_DELTA_CLEAR_TO_SEND | MSR_DELTA_DATA_SET_READY | MSR_TRAILING_EDGE_RING_DETECTOR
  | MSR_DELTA_CARRIER_DETECT | MSR_CLEAR_TO_SEND | MSR_DATA_SET_READY | MSR_RING_INDICATOR | MSR_CARRIER_DETECT

fun msr_bits :: "msr_flag \<Rightarrow> u8" where
  "msr_bits MSR_DELTA_CLEAR_TO_SEND = 1"
| "msr_bits MSR_DELTA_DATA_SET_READY = 2"
| "msr_bits MSR_TRAILING_EDGE_RING_DETECTOR = 4"
| "msr_bits MSR_DELTA_CARRIER_DETECT = 8"
| "msr_bits MSR_CLEAR_TO_SEND = 0x10"
| "msr_bits MSR_DATA_SET_READY = 0x20"
| "msr_bits MSR_RING_INDICATOR = 0x40"
| "msr_bits MSR_CARRIER_DETECT = 0x80"

definition msr_all :: u8 where
  "msr_all = msr_bits MSR_DELTA_CLEAR_TO_SEND OR msr_bits MSR_DELTA_DATA_SET_READY
     OR msr_bits MSR_TRAILING_EDGE_RING_DETECTOR OR msr_bits MSR_DELTA_CARRIER_DETECT
     OR msr_bits MSR_CLEAR_TO_SEND OR msr_bits MSR_DATA_SET_READY OR msr_bits MSR_RING_INDICATOR
     OR msr_bits MSR_CARRIER_DETECT"

section \<open>Identification\<close>

text \<open>The addition of a register's offset to the port number is checked for overflow.\<close>

definition identify_uart :: "'s io_bus \<Rightarrow> u16 \<Rightarrow> 's \<Rightarrow> (uart_chip_version \<times> 's) option" where
  "identify_uart b port s = do {
     fcr \<leftarrow> checked_add port FCR_OFFSET;
     let s = out8 b fcr 0xE7 s;
     iir \<leftarrow> checked_add port IIR_OFFSET;
     let (iir, s) = in8 b iir s;
     if bit iir 6 then
       (if bit iir 7 then (if bit iir 5 then Some (V16750, s) else Some (V16550A, s)) else Some (V16550, s))
     else do {
       scr \<leftarrow> checked_add port SCR_OFFSET;
       let s = out8 b scr 0x2A s;
       let (v, s) = in8 b scr s;
       Some (if v = 0x2A then V16450 else V8250, s)
     }
   }"

section \<open>The port\<close>

record uart_port =
  thbr :: "u8 io_port"
  rbr :: "u8 io_port"
  dll :: "u8 io_port"
  ier :: "u8 io_port"
  dlh :: "u8 io_port"
  iir :: "u8 io_port"
  fcr :: "u8 io_port"
  lcr :: "u8 io_port"
  mcr :: "u8 io_port"
  lsr :: "u8 io_port"
  msr :: "u8 io_port"
  scr :: "u8 io_port"

text \<open>The complement of a set of flags has only bits that are flags.\<close>

definition ier_mask :: "uart_chip_version \<Rightarrow> u8" where
  "ier_mask ver = (if V16750 \<le> ver then ier_all
     else ier_all AND (NOT (ier_bits IER_ENABLE_SLEEP_MODE OR ier_bits IER_ENABLE_LOW_POWER_MODE) AND ier_all))"

definition iir_mask :: "uart_chip_version \<Rightarrow> u8" where
  "iir_mask ver = (if V16750 \<le> ver then iir_all else iir_all AND (NOT (iir_bits IIR_FIFO_64_BYTES_ENABLED) AND iir_all))"

definition fcr_mask :: "uart_chip_version \<Rightarrow> u8" where
  "fcr_mask ver = (if V16550A \<le> ver then fcr_all else 0)"

definition mcr_mask :: "uart_chip_version \<Rightarrow> u8" where
  "mcr_mask ver = (if V16750 \<le> ver then mcr_all else mcr_all AND (NOT (mcr_bits MCR_AUTOFLOW_CONTROL_ENABLED) AND mcr_all))"

definition uart_ports :: "u16 \<Rightarrow> uart_chip_version \<Rightarrow> uart_port option" where
  "uart_ports addr ver = do {
     p0 \<leftarrow> checked_add addr THBR_OFFSET;
     p1 \<leftarrow> checked_add addr IER_OFFSET;
     p2 \<leftarrow> checked_add addr IIR_OFFSET;
     p3 \<leftarrow> checked_add addr LCR_OFFSET;
     p4 \<leftarrow> checked_add addr MCR_OFFSET;
     p5 \<leftarrow> checked_add addr LSR_OFFSET;
     p6 \<leftarrow> checked_add addr MSR_OFFSET;
     p7 \<leftarrow> checked_add addr SCR_OFFSET;
     Some \<lparr>thbr = io_port_new p0 0xFF, rbr = io_port_new p0 0xFF, dll = io_port_new p0 0xFF,
       ier = io_port_new p1 (ier_mask ver), dlh = io_port_new p1 0xFF,
       iir = io_port_new p2 (iir_mask ver), fcr = io_port_new p2 (fcr_mask ver),
       lcr = io_port_new p3 lcr_all, mcr = io_port_new p4 (mcr_mask ver),
       lsr = io_port_new p5 lsr_all, msr = io_port_new p6 msr_all, scr = io_port_new p7 0xFF\<rparr>
   }"

definition set_baud_rate :: "'s io_bus \<Rightarrow> uart_port \<Rightarrow> baud_rate \<Rightarrow> 's \<Rightarrow> 's" where
  "set_baud_rate b u rate s =
     (let divisor = ucast ((115200 :: u32) div baud_rate_number rate) :: u16;
          ((l, _), s) = port_read8 b (lcr u) s;
          s = snd (port_write8 b (lcr u) (l OR lcr_bits LCR_DIVISOR_LATCH_ACCESS_BIT) s);
          s = snd (port_write8 b (dll u) (ucast (divisor AND 255)) s);
          s = snd (port_write8 b (dlh u) (ucast (drop_bit 8 divisor)) s)
      in snd (port_write8 b (lcr u) l s))"

definition reset_to_default :: "'s io_bus \<Rightarrow> uart_port \<Rightarrow> 's \<Rightarrow> 's" where
  "reset_to_default b u s =
     (let s = snd (port_write8 b (ier u) 0 s);
          s = set_baud_rate b u BR115200 s;
          s = snd (port_write8 b (lcr u) (lcr_bits LCR_WORD_LENGTH_8_BITS OR lcr_bits LCR_NO_PARITY) s);
          s = snd (port_write8 b (fcr u) (fcr_bits FCR_ENABLE_FIFOS OR fcr_bits FCR_CLEAR_RECEIVE_FIFO OR
                fcr_bits FCR_CLEAR_TRANSMIT_FIFO OR fcr_bits FCR_ENABLE_64_BYTE_FIFO OR
                fcr_bits FCR_INTERRUPT_TRIGGER_LEVEL_8_32) s)
      in snd (port_write8 b (mcr u) (mcr_bits MCR_DATA_TERMINAL_READY OR mcr_bits MCR_REQUEST_TO_SEND OR
                mcr_bits MCR_AUXILLARY_OUTPUT_1 OR mcr_bits MCR_AUXILLARY_OUTPUT_2) s))"

definition uart_test :: "'s io_bus \<Rightarrow> uart_port \<Rightarrow> 's \<Rightarrow> (string + unit) \<times> 's" where
  "uart_test b u s =
     (let ((m, _), s) = port_read8 b (mcr u) s;
          s = snd (port_write8 b (mcr u) (m OR mcr_bits MCR_LOOPBACK_ENABLED) s);
          s = snd (port_write8 b (rbr u) 0x2B s);
          ((v, _), s) = port_read8 b (thbr u) s
      in if v \<noteq> 0x2B then (Inl ''Port R/W test failed!'', s)
         else (Inr (), snd (port_write8 b (mcr u) m s)))"

definition uart_new :: "'s io_bus \<Rightarrow> u16 \<Rightarrow> 's \<Rightarrow> ((string + uart_port \<times> uart_chip_version) \<times> 's) option" where
  "uart_new b addr s = do {
     (ver, s) \<leftarrow> identify_uart b addr s;
     u \<leftarrow> uart_ports addr ver;
     let s = reset_to_default b u s;
     let (r, s) = uart_test b u s;
     Some (case r of Inl e \<Rightarrow> Inl e | Inr _ \<Rightarrow> Inr (u, ver), s)
   }"

section \<open>Bytes\<close>

text \<open>The loop that polls the line status until a flag is set may run for ever.\<close>

partial_function (option) wait_lsr :: "'s io_bus \<Rightarrow> uart_port \<Rightarrow> u8 \<Rightarrow> 's \<Rightarrow> 's option" where
  "wait_lsr b u flag s =
     (let ((v, _), s) = port_read8 b (lsr u) s
      in if contains v flag then Some s else wait_lsr b u flag s)"

definition write_byte :: "'s io_bus \<Rightarrow> uart_port \<Rightarrow> u8 \<Rightarrow> 's \<Rightarrow> 's option" where
  "write_byte b u byte s = do {
     s \<leftarrow> wait_lsr b u (lsr_bits LSR_EMPTY_TRANSMITTER_HOLDING_REGISTER) s;
     Some (snd (port_write8 b (thbr u) byte s))
   }"

definition read_byte :: "'s io_bus \<Rightarrow> uart_port \<Rightarrow> 's \<Rightarrow> 's option" where
  "read_byte b u s = do {
     s \<leftarrow> wait_lsr b u (lsr_bits LSR_DATA_READY) s;
     Some (snd (port_read8 b (rbr u) s))
   }"

fun uart_write_str :: "'s io_bus \<Rightarrow> uart_port \<Rightarrow> u8 list \<Rightarrow> 's \<Rightarrow> 's option" where
  "uart_write_str b u [] s = Some s"
| "uart_write_str b u (byte # bs) s = write_byte b u byte s \<bind> uart_write_str b u bs"

section \<open>Properties\<close>

text \<open>The flag is set at the poll number \<open>n\<close>.\<close>

fun set_after :: "'s io_bus \<Rightarrow> uart_port \<Rightarrow> u8 \<Rightarrow> nat \<Rightarrow> 's \<Rightarrow> bool" where
  "set_after b u flag 0 s \<longleftrightarrow> contains (fst (fst (port_read8 b (lsr u) s))) flag"
| "set_after b u flag (Suc n) s \<longleftrightarrow> set_after b u flag n (snd (port_read8 b (lsr u) s))"

lemma wait_lsr_returns: "set_after b u flag n s \<Longrightarrow> \<exists>s'. \<forall>l. wait_lsr (logged b) u flag (s, l) = Some (s', l)"
proof (induction n arbitrary: s)
  case 0
  then show ?case by (subst wait_lsr.simps) (auto simp: port_simps split: prod.splits)
next
  case (Suc n)
  then obtain s' where s': "\<forall>l. wait_lsr (logged b) u flag (snd (port_read8 b (lsr u) s), l) = Some (s', l)" by auto
  show ?case
  proof (cases "contains (fst (fst (port_read8 b (lsr u) s))) flag")
    case True
    then show ?thesis by (subst wait_lsr.simps) (auto simp: port_simps split: prod.splits)
  next
    case False
    then show ?thesis using s' by (subst wait_lsr.simps) (auto simp: port_simps split: prod.splits)
  qed
qed

lemma wait_lsr_Some: "set_after b u flag n s \<Longrightarrow> \<exists>s'. wait_lsr b u flag s = Some s'"
proof (induction n arbitrary: s)
  case 0
  then show ?case by (subst wait_lsr.simps) (auto split: prod.splits)
next
  case (Suc n)
  then obtain s' where "wait_lsr b u flag (snd (port_read8 b (lsr u) s)) = Some s'" by auto
  then show ?case by (subst wait_lsr.simps) (auto split: prod.splits)
qed

lemma uart_write_str_Some:
  assumes "\<And>s. \<exists>n. set_after b u (lsr_bits LSR_EMPTY_TRANSMITTER_HOLDING_REGISTER) n s"
  shows "\<exists>s'. uart_write_str b u bs s = Some s'"
proof (induction bs arbitrary: s)
  case (Cons x bs)
  obtain s1 where "wait_lsr b u (lsr_bits LSR_EMPTY_TRANSMITTER_HOLDING_REGISTER) s = Some s1"
    using assms wait_lsr_Some by metis
  then show ?case using Cons.IH by (simp add: write_byte_def)
qed simp

lemma write_byte_sends:
  assumes "\<exists>n. set_after b u (lsr_bits LSR_EMPTY_TRANSMITTER_HOLDING_REGISTER) n s"
  shows "\<exists>s'. \<forall>l. write_byte (logged b) u x (s, l) = Some (s', l @ [(port_addr (thbr u), x AND port_mask (thbr u))])"
proof -
  obtain s1 where "\<forall>l. wait_lsr (logged b) u (lsr_bits LSR_EMPTY_TRANSMITTER_HOLDING_REGISTER) (s, l) = Some (s1, l)"
    using assms wait_lsr_returns [of b u] by metis
  then show ?thesis by (auto simp: write_byte_def port_simps)
qed

text \<open>The ports of a chip whose registers do not run over the end of the port space.\<close>

lemma uart_ports_eq:
  assumes "uart_ports addr ver = Some u"
  shows "u = \<lparr>thbr = io_port_new addr 0xFF, rbr = io_port_new addr 0xFF, dll = io_port_new addr 0xFF,
       ier = io_port_new (addr + 1) (ier_mask ver), dlh = io_port_new (addr + 1) 0xFF,
       iir = io_port_new (addr + 2) (iir_mask ver), fcr = io_port_new (addr + 2) (fcr_mask ver),
       lcr = io_port_new (addr + 3) lcr_all, mcr = io_port_new (addr + 4) (mcr_mask ver),
       lsr = io_port_new (addr + 5) lsr_all, msr = io_port_new (addr + 6) msr_all, scr = io_port_new (addr + 7) 0xFF\<rparr>"
  using assms by (auto simp: uart_ports_def checked_add_def uart_offsets bind_eq_Some_conv split: if_splits)

lemma and_255 [simp]: "x AND 255 = x" for x :: u8
proof -
  have e: "(255 :: u8) = - 1" by simp
  show ?thesis unfolding e by (rule and.right_neutral)
qed

lemma uart_masks [simp]: "lcr_all = 255" "lsr_all = 255" "msr_all = 255" "fcr_mask ver = (if V16550A \<le> ver then 0xE7 else 0)"
  "mcr_mask ver = (if ver = V16750 then 0x3F else 0x1F)"
  by (simp_all add: lcr_all_def lsr_all_def msr_all_def fcr_mask_def fcr_all_def mcr_mask_def mcr_all_def less_eq_uart_chip_version_def)
    (cases ver; simp)+


text \<open>A chip for the examples: after a write its transmitter is busy for three polls.\<close>

definition slow_chip :: "nat io_bus" where
  "slow_chip = \<lparr>
     bus_in8 = (\<lambda>p n. if p = COM1 + 5 then (if n = 0 then (0x20, 0) else (0, n - 1)) else (0x13, n)),
     bus_out8 = (\<lambda>p v n. 3),
     bus_in16 = (\<lambda>p n. (0, n)), bus_out16 = (\<lambda>p v n. n), bus_in32 = (\<lambda>p n. (0, n)), bus_out32 = (\<lambda>p v n. n)\<rparr>"

lemma com1_ports: "\<exists>u. uart_ports COM1 ver = Some u"
  by (simp add: uart_ports_def checked_add_def uart_offsets COM1_def)

lemma slow_chip_ready:
  assumes "uart_ports COM1 ver = Some u"
  shows "set_after slow_chip u (lsr_bits LSR_EMPTY_TRANSMITTER_HOLDING_REGISTER) n n"
proof (induction n)
  case 0
  then show ?case
    by (simp add: uart_ports_eq [OF assms] io_port_new_def port_read8_def port_read_u8_def in8_def slow_chip_def contains_def)
next
  case (Suc n)
  have "snd (port_read8 slow_chip (lsr u) (Suc n)) = n"
    by (simp add: uart_ports_eq [OF assms] io_port_new_def port_read8_def port_read_u8_def in8_def slow_chip_def)
  then show ?case using Suc by simp
qed


text \<open>
  C39. What the initialisation of a port writes, for every chip: no interrupts, then the divisor for 115200 baud
  between setting and restoring the latch bit of the line control, then 8 bits without parity, the FIFO
  control and the modem control. On a chip before the 16550A the FIFO control is written as 0; on a 16550A
  it is written with bit 5, which only a 16750 has.
\<close>

theorem uart_reset_writes:
  assumes u: "uart_ports addr ver = Some u"
    and l: "l = fst (in8 b (addr + 3) (out8 b (addr + 1) 0 s))"
  shows "snd (reset_to_default (logged b) u (s, [])) =
    [(addr + 1, 0), (addr + 3, l OR 0x80), (addr, 1), (addr + 1, 0), (addr + 3, l), (addr + 3, 3),
     (addr + 2, if V16550A \<le> ver then 0xA7 else 0), (addr + 4, 0x0F)]"
proof -
  note p = uart_ports_eq [OF u]
  have r: "fst (fst (port_read8 b (lcr u) (snd (port_write8 b (ier u) 0 s)))) = l"
    by (simp add: p l io_port_new_def port_read8_def port_read_u8_def port_write8_def port_write_u8_def split: prod.splits)
  show ?thesis
    unfolding reset_to_default_def set_baud_rate_def Let_def port_simps
    by (simp add: port_simps r split_beta) (simp add: p io_port_new_def)
qed

theorem uart_reset_writes_witness:
  "\<exists>u. uart_ports COM1 V16450 = Some u \<and> snd (reset_to_default (logged slow_chip) u (0, [])) =
     [(0x3F9, 0), (0x3FB, 0x93), (0x3F8, 1), (0x3F9, 0), (0x3FB, 0x13), (0x3FB, 3), (0x3FA, 0), (0x3FC, 0x0F)]"
proof -
  obtain u where u: "uart_ports COM1 V16450 = Some u" using com1_ports by blast
  have l: "0x13 = fst (in8 slow_chip (COM1 + 3) (out8 slow_chip (COM1 + 1) 0 0))"
    by (simp add: in8_def slow_chip_def COM1_def)
  have "\<not> V16550A \<le> V16450" by (simp add: less_eq_uart_chip_version_def)
  then show ?thesis using uart_reset_writes [OF u l] u by (simp add: COM1_def)
qed

end
