(* ===== verification/Wrappers.thy ===== *)
theory Wrappers
  imports Interrupts
begin

text \<open>
  Model of the three assembly routines of \<^verbatim>\<open>kernel/src/init.rs\<close> that stand between the interrupt table
  and the handlers written in Rust. A routine is a list of instructions, and \<open>exec\<close> runs it on the
  general registers, the words of memory and the part of the state that \<^verbatim>\<open>iretq\<close> restores. The
  handler that is called is a parameter; what a routine needs of it is the System V calling convention,
  a hypothesis. The arithmetic flags that \<^verbatim>\<open>add\<close> and \<^verbatim>\<open>sub\<close> set are left out: \<^verbatim>\<open>iretq\<close>
  replaces the whole flags register.
\<close>

section \<open>Instructions\<close>

datatype reg = RAX | RBX | RCX | RDX | RSI | RDI | RBP | RSP | R8 | R9 | R10 | R11 | R12 | R13 | R14 | R15

record mach =
  regs :: "reg \<Rightarrow> u64"
  mem :: "ptr \<Rightarrow> u64"
  m_rip :: u64
  m_cs :: u64
  m_rflags :: u64
  m_ss :: u64

datatype instr =
    Push reg | Pop reg
  | Mov reg reg | MovLoad reg reg u64
  | Add reg u64 | Sub reg u64
  | Call string | Iretq

definition push_word :: "u64 \<Rightarrow> mach \<Rightarrow> mach" where
  "push_word v s = s\<lparr>regs := (regs s)(RSP := regs s RSP - 8), mem := (mem s)(regs s RSP - 8 := v)\<rparr>"

text \<open>\<open>ret\<close> is the address behind the call, \<open>fns\<close> what the called routines do up to their return.\<close>

fun exec_instr :: "u64 \<Rightarrow> (string \<Rightarrow> mach \<Rightarrow> mach option) \<Rightarrow> instr \<Rightarrow> mach \<Rightarrow> mach option" where
  "exec_instr ret fns (Push r) s = Some (push_word (regs s r) s)"
| "exec_instr ret fns (Pop r) s =
     Some (s\<lparr>regs := ((regs s)(RSP := regs s RSP + 8))(r := mem s (regs s RSP))\<rparr>)"
| "exec_instr ret fns (Mov d r) s = Some (s\<lparr>regs := (regs s)(d := regs s r)\<rparr>)"
| "exec_instr ret fns (MovLoad d r off) s = Some (s\<lparr>regs := (regs s)(d := mem s (regs s r + off))\<rparr>)"
| "exec_instr ret fns (Add r v) s = Some (s\<lparr>regs := (regs s)(r := regs s r + v)\<rparr>)"
| "exec_instr ret fns (Sub r v) s = Some (s\<lparr>regs := (regs s)(r := regs s r - v)\<rparr>)"
| "exec_instr ret fns (Call f) s = fns f (push_word ret s)"
| "exec_instr ret fns Iretq s =
     (let p = regs s RSP in
      Some (s\<lparr>m_rip := mem s p, m_cs := mem s (p + 8), m_rflags := mem s (p + 16), m_ss := mem s (p + 32),
        regs := (regs s)(RSP := mem s (p + 24))\<rparr>))"

fun exec :: "u64 \<Rightarrow> (string \<Rightarrow> mach \<Rightarrow> mach option) \<Rightarrow> instr list \<Rightarrow> mach \<Rightarrow> mach option" where
  "exec ret fns [] s = Some s"
| "exec ret fns (i # is) s = exec_instr ret fns i s \<bind> exec ret fns is"

section \<open>The routines\<close>

definition naked_breakpoint_trap_wrapper :: "instr list" where
  "naked_breakpoint_trap_wrapper =
     [Push RAX, Push RCX, Push RDX, Push RSI, Push RDI, Push R8, Push R9, Push R10, Push R11,
      Mov RDI RSP, Add RDI 0x48,
      Call ''naked_breakpoint_trap'',
      Pop R11, Pop R10, Pop R9, Pop R8, Pop RDI, Pop RSI, Pop RDX, Pop RCX, Pop RAX,
      Iretq]"

definition naked_page_fault_wrapper :: "instr list" where
  "naked_page_fault_wrapper =
     [Push RAX, Push RCX, Push RDX, Push RSI, Push RDI, Push R8, Push R9, Push R10, Push R11,
      MovLoad RSI RSP 0x48, Mov RDI RSP, Add RDI 0x50,
      Sub RSP 8,
      Call ''naked_page_fault'',
      Add RSP 8,
      Pop R11, Pop R10, Pop R9, Pop R8, Pop RDI, Pop RSI, Pop RDX, Pop RCX, Pop RAX,
      Add RSP 8,
      Iretq]"

definition naked_general_protection_fault_wrapper :: "instr list" where
  "naked_general_protection_fault_wrapper =
     [Push RAX, Push RCX, Push RDX, Push RSI, Push RDI, Push R8, Push R9, Push R10, Push R11,
      MovLoad RSI RSP 0x40, Mov RDI RSP, Add RDI 0x48,
      Sub RSP 8,
      Call ''naked_general_protection_fault'',
      Add RSP 8,
      Pop R11, Pop R10, Pop R9, Pop R8, Pop RDI, Pop RSI, Pop RDX, Pop RCX, Pop RAX,
      Add RSP 8,
      Iretq]"

section \<open>Interrupts\<close>

text \<open>
  What the processor does on an interrupt in kernel mode: it aligns the stack pointer to 16, pushes the
  frame and, for some vectors, an error code.
\<close>

definition frame_base :: "mach \<Rightarrow> ptr" where
  "frame_base s = (regs s RSP AND NOT (mask 4)) - 40"

definition read_frame :: "mach \<Rightarrow> ptr \<Rightarrow> interrupt_stack_frame" where
  "read_frame s p = \<lparr>isf_rip = mem s p, isf_cs = mem s (p + 8), isf_rflags = mem s (p + 16), isf_rsp = mem s (p + 24),
     isf_ss = mem s (p + 32)\<rparr>"

definition saved_frame :: "mach \<Rightarrow> interrupt_stack_frame" where
  "saved_frame s = \<lparr>isf_rip = m_rip s, isf_cs = m_cs s, isf_rflags = m_rflags s, isf_rsp = regs s RSP, isf_ss = m_ss s\<rparr>"

definition int_entry :: "mach \<Rightarrow> mach" where
  "int_entry s = (let p = frame_base s in
     s\<lparr>mem := (mem s)(p := m_rip s, p + 8 := m_cs s, p + 16 := m_rflags s, p + 24 := regs s RSP, p + 32 := m_ss s),
       regs := (regs s)(RSP := p)\<rparr>)"

definition int_entry_err :: "u64 \<Rightarrow> mach \<Rightarrow> mach" where
  "int_entry_err code s = push_word code (int_entry s)"

text \<open>
  The calling convention: the stack is aligned at the call, the callee returns with the stack pointer
  behind the return address, keeps the registers that are its own to keep, and does not write above it.
\<close>

definition callee_saved :: "reg list" where
  "callee_saved = [RBX, RBP, R12, R13, R14, R15]"

definition abi_return :: "mach \<Rightarrow> mach \<Rightarrow> bool" where
  "abi_return c c' \<longleftrightarrow> regs c' RSP = regs c RSP + 8 \<and> list_all (\<lambda>r. regs c' r = regs c r) callee_saved \<and>
     (\<forall>k<14. mem c' (regs c RSP + 8 + 8 * of_nat k) = mem c (regs c RSP + 8 + 8 * of_nat k)) \<and>
     m_cs c' = m_cs c \<and> m_ss c' = m_ss c"

definition aligned_call :: "mach \<Rightarrow> bool" where
  "aligned_call c \<longleftrightarrow> (regs c RSP + 8) AND mask 4 = 0"

section \<open>What the routines do\<close>

lemma frame_base_aligned: "(frame_base s - 72) AND mask 4 = 0" "(frame_base s - 88) AND mask 4 = 0"
proof -
  have "((a AND NOT (mask 4)) - 16 * n) AND mask 4 = 0" for a n :: u64
  proof -
    have "a AND NOT (mask 4) = push_bit 4 (drop_bit 4 a)" by (auto simp: bit_eq_iff bit_simps)
    then have "(a AND NOT (mask 4)) - 16 * n = push_bit 4 (drop_bit 4 a - n)" by (simp add: push_bit_eq_mult algebra_simps)
    then show ?thesis by (simp add: bit_eq_iff bit_simps)
  qed
  from this [of "regs s RSP" 7] this [of "regs s RSP" 8]
  show "(frame_base s - 72) AND mask 4 = 0" "(frame_base s - 88) AND mask 4 = 0"
    by (simp_all add: frame_base_def)
qed

text \<open>The nine registers that a routine saves below the stack pointer \<open>p\<close>, and the state at its call.\<close>

definition saved_regs :: "(reg \<Rightarrow> u64) \<Rightarrow> ptr \<Rightarrow> (ptr \<Rightarrow> u64) \<Rightarrow> ptr \<Rightarrow> u64" where
  "saved_regs r p m = m(p - 8 := r RAX, p - 16 := r RCX, p - 24 := r RDX, p - 32 := r RSI, p - 40 := r RDI,
     p - 48 := r R8, p - 56 := r R9, p - 64 := r R10, p - 72 := r R11)"

definition save_seq :: "instr list" where
  "save_seq = [Push RAX, Push RCX, Push RDX, Push RSI, Push RDI, Push R8, Push R9, Push R10, Push R11]"

definition restore_seq :: "instr list" where
  "restore_seq = [Pop R11, Pop R10, Pop R9, Pop R8, Pop RDI, Pop RSI, Pop RDX, Pop RCX, Pop RAX]"

lemma exec_append: "exec ret fns (is @ js) s = exec ret fns is s \<bind> exec ret fns js"
proof (induction "is" arbitrary: s)
  case (Cons i "is")
  then show ?case by (cases "exec_instr ret fns i s") simp_all
qed simp

lemma exec_save:
  "exec ret fns save_seq s = Some (s\<lparr>regs := (regs s)(RSP := regs s RSP - 72), mem := saved_regs (regs s) (regs s RSP) (mem s)\<rparr>)"
  by (simp add: save_seq_def saved_regs_def push_word_def)

lemma exec_restore:
  assumes "regs s RSP = p - 72"
    and "\<And>a. a \<in> {p - 8, p - 16, p - 24, p - 32, p - 40, p - 48, p - 56, p - 64, p - 72} \<Longrightarrow> mem s a = saved_regs r p m a"
  shows "exec ret fns restore_seq s = Some (s\<lparr>regs := (regs s)(RSP := p, R11 := r R11, R10 := r R10, R9 := r R9, R8 := r R8,
    RDI := r RDI, RSI := r RSI, RDX := r RDX, RCX := r RCX, RAX := r RAX)\<rparr>)"
  using assms by (simp add: restore_seq_def saved_regs_def fun_upd_twist)

lemma int_entry_simps [simp]:
  "regs (int_entry s) = (regs s)(RSP := frame_base s)" "m_cs (int_entry s) = m_cs s" "m_ss (int_entry s) = m_ss s"
  "read_frame (int_entry s) (frame_base s) = saved_frame s"
  by (simp_all add: int_entry_def Let_def read_frame_def saved_frame_def)

text \<open>The state in which the breakpoint handler is called.\<close>

definition breakpoint_call :: "u64 \<Rightarrow> mach \<Rightarrow> mach" where
  "breakpoint_call ret s = (let p = frame_base s in
     (int_entry s)\<lparr>regs := (regs s)(RSP := p - 80, RDI := p),
       mem := (saved_regs (regs s) p (mem (int_entry s)))(p - 80 := ret)\<rparr>)"

lemma saved_regs_irrel: "saved_regs (r(RSP := x)) p m = saved_regs r p m"
  by (simp add: saved_regs_def)

lemma exec_breakpoint:
  "exec ret fns naked_breakpoint_trap_wrapper (int_entry s) =
     fns ''naked_breakpoint_trap'' (breakpoint_call ret s) \<bind> exec ret fns (restore_seq @ [Iretq])"
proof -
  have w: "naked_breakpoint_trap_wrapper =
      save_seq @ [Mov RDI RSP, Add RDI 0x48, Call ''naked_breakpoint_trap''] @ restore_seq @ [Iretq]"
    by (simp add: naked_breakpoint_trap_wrapper_def save_seq_def restore_seq_def)
  show ?thesis unfolding w
    by (simp add: exec_append exec_save saved_regs_irrel breakpoint_call_def Let_def push_word_def fun_upd_twist)
qed

text \<open>What the handler has to find at the call: an aligned stack and the address of the frame.\<close>

lemma breakpoint_call_ok:
  "aligned_call (breakpoint_call ret s)" "regs (breakpoint_call ret s) RDI = frame_base s"
  "read_frame (breakpoint_call ret s) (frame_base s) = saved_frame s"
  using frame_base_aligned(1) [of s]
  by (simp_all add: aligned_call_def breakpoint_call_def Let_def read_frame_def saved_frame_def saved_regs_def int_entry_def)

lemma restore_iret:
  assumes "abi_return c c'" "c = breakpoint_call ret s"
  shows "\<exists>s'. exec ret fns (restore_seq @ [Iretq]) c' = Some s' \<and> regs s' = regs s \<and> saved_frame s' = saved_frame s"
proof -
  let ?p = "frame_base s"
  have m: "mem c' (?p - 72 + 8 * of_nat k) = mem c (?p - 72 + 8 * of_nat k)" if "k < 14" for k
    using assms that by (simp add: abi_return_def breakpoint_call_def Let_def)
  have slots: "mem c' a = saved_regs (regs s) ?p (mem (int_entry s)) a"
    if "a \<in> {?p - 8, ?p - 16, ?p - 24, ?p - 32, ?p - 40, ?p - 48, ?p - 56, ?p - 64, ?p - 72}" for a
    using that m [of 0] m [of 1] m [of 2] m [of 3] m [of 4] m [of 5] m [of 6] m [of 7] m [of 8]
    by (auto simp: assms(2) breakpoint_call_def Let_def)
  have above: "mem c (?p + 8 * of_nat k) = mem (int_entry s) (?p + 8 * of_nat k)" if "k \<in> {0, 1, 2, 3, 4}" for k
    using that by (auto simp: assms(2) breakpoint_call_def Let_def saved_regs_def)
  have "mem c' (?p + 8 * of_nat k) = mem (int_entry s) (?p + 8 * of_nat k)" if "k \<in> {0, 1, 2, 3, 4}" for k
  proof -
    have "?p - 72 + 8 * of_nat (k + 9) = ?p + 8 * of_nat k" by simp
    then show ?thesis using m [of "k + 9"] above [OF that] that by auto
  qed
  note this [of 0] this [of 1] this [of 2] this [of 3] this [of 4]
  then have frame: "mem c' ?p = m_rip s" "mem c' (?p + 8) = m_cs s" "mem c' (?p + 16) = m_rflags s"
    "mem c' (?p + 24) = regs s RSP" "mem c' (?p + 32) = m_ss s"
    by (simp_all add: int_entry_def Let_def)
  have sp: "regs c' RSP = ?p - 72" using assms by (simp add: abi_return_def breakpoint_call_def Let_def)
  have kept: "regs c' r = regs s r" if "r \<in> set callee_saved" for r
    using that assms by (auto simp: abi_return_def callee_saved_def breakpoint_call_def Let_def)
  have run: "exec ret fns restore_seq c' = Some (c'\<lparr>regs := (regs c')(RSP := ?p, R11 := regs s R11, R10 := regs s R10, R9 := regs s R9,
    R8 := regs s R8, RDI := regs s RDI, RSI := regs s RSI, RDX := regs s RDX, RCX := regs s RCX, RAX := regs s RAX)\<rparr>)"
    using slots by (rule exec_restore [OF sp])
  show ?thesis
  proof (intro exI conjI)
    show "exec ret fns (restore_seq @ [Iretq]) c' = Some (c'\<lparr>regs := regs s, m_rip := m_rip s, m_cs := m_cs s,
      m_rflags := m_rflags s, m_ss := m_ss s\<rparr>)"
    proof -
      have "((regs c')(RSP := regs s RSP, R11 := regs s R11, R10 := regs s R10, R9 := regs s R9, R8 := regs s R8, RDI := regs s RDI,
          RSI := regs s RSI, RDX := regs s RDX, RCX := regs s RCX, RAX := regs s RAX)) r = regs s r" for r
        using kept by (cases r) (simp_all add: callee_saved_def)
      then have "(regs c')(RSP := regs s RSP, R11 := regs s R11, R10 := regs s R10, R9 := regs s R9, R8 := regs s R8, RDI := regs s RDI,
          RSI := regs s RSI, RDX := regs s RDX, RCX := regs s RCX, RAX := regs s RAX) = regs s" by blast
      then show ?thesis by (simp add: exec_append run frame Let_def fun_upd_twist)
    qed
  qed (simp_all add: saved_frame_def)
qed

text \<open>
  C16. A breakpoint is transparent to the code it interrupts: if the handler, called with an aligned stack and
  the address of the frame that the processor has saved, returns by the calling convention, then the
  routine ends with every general register, the instruction pointer, the flags, the stack pointer and the
  segments as they were at the interrupt.
\<close>

theorem breakpoint_wrapper_restores:
  assumes "\<And>c. aligned_call c \<Longrightarrow> regs c RDI = frame_base s \<Longrightarrow> read_frame c (frame_base s) = saved_frame s \<Longrightarrow>
      \<exists>c'. fns ''naked_breakpoint_trap'' c = Some c' \<and> abi_return c c'"
  shows "\<exists>s'. exec ret fns naked_breakpoint_trap_wrapper (int_entry s) = Some s' \<and> regs s' = regs s \<and>
    saved_frame s' = saved_frame s"
proof -
  obtain c' where c': "fns ''naked_breakpoint_trap'' (breakpoint_call ret s) = Some c'" "abi_return (breakpoint_call ret s) c'"
    using assms [OF breakpoint_call_ok] by blast
  show ?thesis using restore_iret [OF c'(2) refl, of fns] c'(1) by (simp add: exec_breakpoint)
qed

text \<open>A handler that clobbers what it may, and a state to interrupt.\<close>

definition rude_handler :: "string \<Rightarrow> mach \<Rightarrow> mach option" where
  "rude_handler f c = Some (c\<lparr>regs := (\<lambda>r. if r \<in> set callee_saved then regs c r else if r = RSP then regs c RSP + 8 else 0xDEAD)\<rparr>)"

definition demo_mach :: mach where
  "demo_mach = \<lparr>regs = (\<lambda>r. if r = RSP then 0x7008 else if r = RAX then 5 else 7), mem = (\<lambda>_. 0), m_rip = 0x1000, m_cs = 8,
     m_rflags = 0x202, m_ss = 0x10\<rparr>"

theorem breakpoint_wrapper_restores_witness:
  "\<exists>s'. exec 0x2000 rude_handler naked_breakpoint_trap_wrapper (int_entry demo_mach) = Some s' \<and>
     regs s' RSP = 0x7008 \<and> regs s' RAX = 5 \<and> isf_rip (saved_frame s') = 0x1000"
proof -
  have "abi_return c (the (rude_handler f c))" for f c
    by (simp add: abi_return_def rude_handler_def callee_saved_def)
  then have "\<exists>s'. exec 0x2000 rude_handler naked_breakpoint_trap_wrapper (int_entry demo_mach) = Some s' \<and>
      regs s' = regs demo_mach \<and> saved_frame s' = saved_frame demo_mach"
    by (intro breakpoint_wrapper_restores) (auto simp: rude_handler_def)
  then show ?thesis by (auto simp: demo_mach_def saved_frame_def)
qed

text \<open>The state in which a fault handler is called, for the two offsets of a routine.\<close>

definition fault_call :: "u64 \<Rightarrow> u64 \<Rightarrow> u64 \<Rightarrow> u64 \<Rightarrow> mach \<Rightarrow> mach" where
  "fault_call ret a d code s =
     (let q = frame_base s - 8; m = saved_regs (regs s) q (mem (int_entry_err code s)) in
      (int_entry s)\<lparr>regs := (regs s)(RSP := q - 88, RDI := q - 72 + d, RSI := m (q - 72 + a)), mem := m(q - 88 := ret)\<rparr>)"

lemma exec_fault:
  "exec ret fns (save_seq @ [MovLoad RSI RSP a, Mov RDI RSP, Add RDI d, Sub RSP 8, Call f] @ is) (int_entry_err code s) =
     fns f (fault_call ret a d code s) \<bind> exec ret fns is"
  by (simp add: exec_append exec_save saved_regs_irrel fault_call_def int_entry_err_def Let_def push_word_def fun_upd_twist)

lemma fault_call_aligned: "aligned_call (fault_call ret a d code s)"
  using frame_base_aligned(2) [of s] by (simp add: aligned_call_def fault_call_def Let_def)

lemma fault_wrappers:
  "naked_page_fault_wrapper = save_seq @ [MovLoad RSI RSP 0x48, Mov RDI RSP, Add RDI 0x50, Sub RSP 8, Call ''naked_page_fault''] @
     drop 14 naked_page_fault_wrapper"
  "naked_general_protection_fault_wrapper = save_seq @
     [MovLoad RSI RSP 0x40, Mov RDI RSP, Add RDI 0x48, Sub RSP 8, Call ''naked_general_protection_fault''] @
     drop 14 naked_general_protection_fault_wrapper"
  by (simp_all add: naked_page_fault_wrapper_def naked_general_protection_fault_wrapper_def save_seq_def)

text \<open>
  C40. The handlers of the two faults with an error code: the page fault handler gets the address of the frame
  and the error code, on an aligned stack. The general protection handler gets neither: its routine uses
  offsets that are 8 too small, so the handler gets the interrupted code's \<^verbatim>\<open>rax\<close> as the error code, and
  for the frame the address of the error code, 8 below the frame.
\<close>

theorem fault_wrapper_arguments:
  "(\<exists>c. exec ret fns naked_page_fault_wrapper (int_entry_err code s) =
      fns ''naked_page_fault'' c \<bind> exec ret fns (drop 14 naked_page_fault_wrapper) \<and>
     aligned_call c \<and> regs c RDI = frame_base s \<and> read_frame c (regs c RDI) = saved_frame s \<and> regs c RSI = code) \<and>
   (\<exists>c. exec ret fns naked_general_protection_fault_wrapper (int_entry_err code s) =
      fns ''naked_general_protection_fault'' c \<bind> exec ret fns (drop 14 naked_general_protection_fault_wrapper) \<and>
     aligned_call c \<and> regs c RDI = frame_base s - 8 \<and> mem c (regs c RDI) = code \<and> regs c RSI = regs s RAX)"
proof (rule conjI; rule exI, intro conjI)
  let ?c = "fault_call ret 0x48 0x50 code s"
  show "exec ret fns naked_page_fault_wrapper (int_entry_err code s) =
      fns ''naked_page_fault'' ?c \<bind> exec ret fns (drop 14 naked_page_fault_wrapper)"
    by (subst fault_wrappers(1)) (rule exec_fault)
  show "aligned_call ?c" by (rule fault_call_aligned)
  show "regs ?c RDI = frame_base s" "read_frame ?c (regs ?c RDI) = saved_frame s" "regs ?c RSI = code"
    by (simp_all add: fault_call_def Let_def read_frame_def saved_frame_def saved_regs_def int_entry_err_def push_word_def int_entry_def)
next
  let ?c = "fault_call ret 0x40 0x48 code s"
  show "exec ret fns naked_general_protection_fault_wrapper (int_entry_err code s) =
      fns ''naked_general_protection_fault'' ?c \<bind> exec ret fns (drop 14 naked_general_protection_fault_wrapper)"
    by (subst fault_wrappers(2)) (rule exec_fault)
  show "aligned_call ?c" by (rule fault_call_aligned)
  show "regs ?c RDI = frame_base s - 8" "mem ?c (regs ?c RDI) = code" "regs ?c RSI = regs s RAX"
    by (simp_all add: fault_call_def Let_def saved_regs_def int_entry_err_def push_word_def)
qed

end
