(* ===== verification/Sys_Tables.thy ===== *)
theory Sys_Tables
  imports Interrupts Tallock
begin

text \<open>
  Model of \<open>setup_sys_tables\<close> of \<^verbatim>\<open>kernel/src/init.rs\<close>: a core's global descriptor table, task state
  segment and interrupt table are allocated on its heap, filled and loaded. A box is the address that
  the allocator returned with the value it holds. The addresses of the interrupt routines, which the
  linker determines, are a parameter.
\<close>

section \<open>Segments\<close>

definition KRNL_CODE_SEG_IDX :: u16 where "KRNL_CODE_SEG_IDX = 1"
definition KRNL_CODE_SEG_SEL :: seg_sel where "KRNL_CODE_SEG_SEL = new_gdt Ring0 KRNL_CODE_SEG_IDX"
definition USER_CODE_SEG_IDX :: u16 where "USER_CODE_SEG_IDX = 2"
definition USER_CODE_SEG_SEL :: seg_sel where "USER_CODE_SEG_SEL = new_gdt Ring3 USER_CODE_SEG_IDX"
definition DATA_SEG_IDX :: u16 where "DATA_SEG_IDX = 3"
definition DATA_SEG_SEL :: seg_sel where "DATA_SEG_SEL = new_gdt Ring3 DATA_SEG_IDX"
definition TSS_SEG_IDX :: u16 where "TSS_SEG_IDX = 4"
definition TSS_SEG_SEL :: seg_sel where "TSS_SEG_SEL = new_gdt Ring0 TSS_SEG_IDX"

section \<open>Boxes\<close>

text \<open>
  \<open>Box::new_in\<close>: an allocation that fails ends in the allocation error handler, which panics. The
  layouts are those of the three types: 104 bytes packed, six words, 256 entries of 16 bytes.
\<close>

definition box_new_in :: "oom_handler \<Rightarrow> layout \<Rightarrow> tallock \<Rightarrow> (ptr \<times> tallock) option" where
  "box_new_in oom l k = do {
     (r, k) \<leftarrow> allocator_allocate oom k l;
     (case r of Inl e \<Rightarrow> None | Inr (p, _) \<Rightarrow> Some (p, k))
   }"

definition tss_layout :: layout where "tss_layout = \<lparr>layout_size = 104, layout_align = 1\<rparr>"
definition gdt_layout :: layout where "gdt_layout = \<lparr>layout_size = 48, layout_align = 8\<rparr>"
definition idt_layout :: layout where "idt_layout = \<lparr>layout_size = of_nat IDT_SIZE, layout_align = 8\<rparr>"

section \<open>The tables\<close>

record isr_addrs =
  isr_div_by_zero :: u64
  isr_debug :: u64
  isr_breakpoint :: u64
  isr_double_fault :: u64
  isr_page_fault :: u64
  isr_general_protection :: u64
  isr_segment_not_present :: u64
  isr_alignment_check :: u64

record sys_tables =
  gdt_box :: "ptr \<times> u64 list"
  idt_box :: "ptr \<times> idt"
  tss_box :: "ptr \<times> task_state_seg"

definition krnl_gate :: "u64 \<Rightarrow> int_trap_gate option" where
  "krnl_gate target = gate_new target KRNL_CODE_SEG_SEL 0 InterruptGate Ring0"

definition gdt_entries :: "ptr \<Rightarrow> u64 list" where
  "gdt_entries tss =
     (let tss_desc = sys_seg_new tss TSS_LIMIT AvlTss Ring0 False in
      [0, code_seg_default OR code_seg_bits DPL_RING0, code_seg_default OR code_seg_bits DPL_RING3, data_seg_default,
       fst (sys_seg_to_bits tss_desc), snd (sys_seg_to_bits tss_desc)])"

definition idt_entries :: "isr_addrs \<Rightarrow> idt option" where
  "idt_entries isr = do {
     idt \<leftarrow> idt_empty;
     g \<leftarrow> krnl_gate (isr_div_by_zero isr);
     let idt = idt\<lparr>div_by_zero_fault := g\<rparr>;
     g \<leftarrow> krnl_gate (isr_debug isr);
     let idt = idt\<lparr>debug := g\<rparr>;
     g \<leftarrow> krnl_gate (isr_breakpoint isr);
     let idt = idt\<lparr>break_point_trap := g\<rparr>;
     g \<leftarrow> krnl_gate (isr_double_fault isr);
     let idt = idt\<lparr>double_fault_abort := g\<rparr>;
     g \<leftarrow> krnl_gate (isr_page_fault isr);
     let idt = idt\<lparr>page_fault := g\<rparr>;
     g \<leftarrow> krnl_gate (isr_general_protection isr);
     let idt = idt\<lparr>general_protection_fault := g\<rparr>;
     g \<leftarrow> krnl_gate (isr_segment_not_present isr);
     let idt = idt\<lparr>segment_not_present_fault := g\<rparr>;
     g \<leftarrow> krnl_gate (isr_alignment_check isr);
     Some (idt\<lparr>alignment_check_fault := g\<rparr>)
   }"

definition setup_sys_tables ::
  "oom_handler \<Rightarrow> isr_addrs \<Rightarrow> tallock \<Rightarrow> 'a seg_cpu_scheme \<Rightarrow> (sys_tables \<times> tallock \<times> 'a seg_cpu_scheme) option" where
  "setup_sys_tables oom isr k c = do {
     let tss = tss_new (replicate 3 0) (replicate 7 0);
     (tss_p, k) \<leftarrow> box_new_in oom tss_layout k;
     let gdt = gdt_entries tss_p;
     (gdt_p, k) \<leftarrow> box_new_in oom gdt_layout k;
     c \<leftarrow> lgdt (gdt_p, of_nat (length gdt)) c;
     let c = cs_write KRNL_CODE_SEG_SEL c;
     let c = c\<lparr>seg_ds := DATA_SEG_IDX, seg_es := DATA_SEG_IDX, seg_fs := DATA_SEG_IDX, seg_gs := DATA_SEG_IDX, seg_ss := DATA_SEG_IDX\<rparr>;
     let c = ltr TSS_SEG_SEL c;
     (idt_p, k) \<leftarrow> box_new_in oom idt_layout k;
     idt \<leftarrow> idt_entries isr;
     c \<leftarrow> lidt idt_p c;
     Some (\<lparr>gdt_box = (gdt_p, gdt), idt_box = (idt_p, idt), tss_box = (tss_p, tss)\<rparr>, k, c)
   }"

section \<open>What the processor finds\<close>

text \<open>The routine that a vector is meant for.\<close>

definition vector_isr :: "isr_addrs \<Rightarrow> nat \<Rightarrow> u64 option" where
  "vector_isr isr v = map_of
     [(0, isr_div_by_zero isr), (1, isr_debug isr), (3, isr_breakpoint isr), (8, isr_double_fault isr),
      (11, isr_segment_not_present isr), (13, isr_general_protection isr), (14, isr_page_fault isr), (17, isr_alignment_check isr)] v"

text \<open>A gate to a routine of the kernel: present, for ring 0, to the kernel's code segment, on the current stack.\<close>

definition gate_to :: "u64 \<Rightarrow> int_trap_gate \<Rightarrow> bool" where
  "gate_to a g \<longleftrightarrow> gate_is_present g \<and> gate_get_target g = a \<and> gate_selector g = KRNL_CODE_SEG_SEL \<and>
     gate_get_ist g = 0 \<and> gate_get_ssdt g = Some InterruptGate \<and> gate_get_dpl g = Some Ring0"

definition entry_ok :: "isr_addrs \<Rightarrow> idt \<Rightarrow> nat \<Rightarrow> bool" where
  "entry_ok isr t v \<longleftrightarrow> (case vector_isr isr v of
      Some a \<Rightarrow> (case idt_gate t v of Some g \<Rightarrow> gate_to a g | None \<Rightarrow> False)
    | None \<Rightarrow> (case idt_gate t v of Some g \<Rightarrow> \<not> gate_is_present g | None \<Rightarrow> True))"

lemma krnl_gate_Some: obtains g where "krnl_gate a = Some g" "gate_to a g"
  using gate_new_Some [of 0 InterruptGate a KRNL_CODE_SEG_SEL Ring0] by (auto simp: krnl_gate_def gate_to_def is_gate_type_def)

lemma idt_empty_Some: obtains g where "idt_empty = Some \<lparr>div_by_zero_fault = g, debug = g, non_maskable_interrupt = g,
       break_point_trap = g, overflow_trap = g,
       bound_range_fault = g, invalid_opcode_fault = g, device_not_available_fault = g, double_fault_abort = g,
       idt_reserved_0 = 0, invalid_tss_fault = g, segment_not_present_fault = g, stack_fault = g,
       general_protection_fault = g, page_fault = g, idt_reserved_1 = 0, x87_fp_fault = g, alignment_check_fault = g,
       machine_check_abort = g, simd_fp_fault = g, idt_reserved_2 = 0, control_protection_fault = g,
       idt_reserved_3 = replicate 6 0, hypervisor_injection = g, vmm_communication_fault = g, security = g,
       idt_reserved_4 = 0, interrupts = replicate 224 g\<rparr>" "\<not> gate_is_present g"
  by (simp add: idt_empty_def gate_missing_def is_gate_type_def gate_is_present_def GATE_FLAG_PRESENT_def)

lemma idt_entries_ok: "\<exists>t. idt_entries isr = Some t \<and> (\<forall>v<256. entry_ok isr t v)"
proof -
  obtain g where g: "\<not> gate_is_present g" and e: "idt_empty = Some \<lparr>div_by_zero_fault = g, debug = g, non_maskable_interrupt = g,
       break_point_trap = g, overflow_trap = g,
       bound_range_fault = g, invalid_opcode_fault = g, device_not_available_fault = g, double_fault_abort = g,
       idt_reserved_0 = 0, invalid_tss_fault = g, segment_not_present_fault = g, stack_fault = g,
       general_protection_fault = g, page_fault = g, idt_reserved_1 = 0, x87_fp_fault = g, alignment_check_fault = g,
       machine_check_abort = g, simd_fp_fault = g, idt_reserved_2 = 0, control_protection_fault = g,
       idt_reserved_3 = replicate 6 0, hypervisor_injection = g, vmm_communication_fault = g, security = g,
       idt_reserved_4 = 0, interrupts = replicate 224 g\<rparr>"
    using idt_empty_Some by blast
  obtain g0 where g0: "krnl_gate (isr_div_by_zero isr) = Some g0" "gate_to (isr_div_by_zero isr) g0" by (rule krnl_gate_Some)
  obtain g1 where g1: "krnl_gate (isr_debug isr) = Some g1" "gate_to (isr_debug isr) g1" by (rule krnl_gate_Some)
  obtain g3 where g3: "krnl_gate (isr_breakpoint isr) = Some g3" "gate_to (isr_breakpoint isr) g3" by (rule krnl_gate_Some)
  obtain g8 where g8: "krnl_gate (isr_double_fault isr) = Some g8" "gate_to (isr_double_fault isr) g8" by (rule krnl_gate_Some)
  obtain g11 where g11: "krnl_gate (isr_segment_not_present isr) = Some g11" "gate_to (isr_segment_not_present isr) g11" by (rule krnl_gate_Some)
  obtain g13 where g13: "krnl_gate (isr_general_protection isr) = Some g13" "gate_to (isr_general_protection isr) g13" by (rule krnl_gate_Some)
  obtain g14 where g14: "krnl_gate (isr_page_fault isr) = Some g14" "gate_to (isr_page_fault isr) g14" by (rule krnl_gate_Some)
  obtain g17 where g17: "krnl_gate (isr_alignment_check isr) = Some g17" "gate_to (isr_alignment_check isr) g17" by (rule krnl_gate_Some)
  obtain t where t: "idt_entries isr = Some t"
    by (simp add: idt_entries_def e g0(1) g1(1) g3(1) g8(1) g11(1) g13(1) g14(1) g17(1))
  have low: "map (idt_gate t) [0, 1, 2, 3, 4, 5, 6, 7, 8, 9, 10, 11, 12, 13, 14, 15, 16, 17, 18, 19, 20, 21, 22, 23, 24, 25, 26, 27,
      28, 29, 30, 31] = [Some g0, Some g1, Some g, Some g3, Some g, Some g, Some g, Some g, Some g8, None, Some g, Some g11, Some g,
      Some g13, Some g14, None, Some g, Some g17, Some g, Some g, None, Some g, None, None, None, None, None, None, Some g, Some g,
      Some g, None]" and high: "interrupts t = replicate 224 g"
    using t by (auto simp: idt_entries_def e g0(1) g1(1) g3(1) g8(1) g11(1) g13(1) g14(1) g17(1) idt_gate_def)
  note gates = g0(2) g1(2) g3(2) g8(2) g11(2) g13(2) g14(2) g17(2)
  show ?thesis
  proof (intro exI conjI allI impI)
    show "idt_entries isr = Some t" by (rule t)
    fix v :: nat assume v: "v < 256"
    show "entry_ok isr t v"
    proof (cases "32 \<le> v")
      case True
      then show ?thesis using v g by (simp add: entry_ok_def vector_isr_def idt_gate_def high)
    next
      case False
      then have "v \<in> {0, 1, 2, 3, 4, 5, 6, 7, 8, 9, 10, 11, 12, 13, 14, 15, 16, 17, 18, 19, 20, 21, 22, 23, 24, 25, 26, 27, 28, 29, 30, 31}"
        unfolding insert_iff empty_iff by presburger
      then show ?thesis using low g gates unfolding list.map list.inject insert_iff empty_iff
        by (elim disjE conjE FalseE) (simp_all add: entry_ok_def vector_isr_def)
    qed
  qed
qed

text \<open>The selectors and the descriptors they select.\<close>

lemma seg_sels: "KRNL_CODE_SEG_SEL = 8" "TSS_SEG_SEL = 0x20" "DATA_SEG_SEL = 0x1B" "get_index 8 = 1" "get_index 0x20 = 4"
  "get_index 0x1B = 3" "get_index 3 = 0"
  by (simp_all add: KRNL_CODE_SEG_SEL_def KRNL_CODE_SEG_IDX_def TSS_SEG_SEL_def TSS_SEG_IDX_def DATA_SEG_SEL_def DATA_SEG_IDX_def
    new_gdt_def get_index_def trailing_zeros_masks RPL_MASK_def)

lemma gdt_entries_nth:
  "length (gdt_entries p) = 6" "gdt_entries p ! 0 = 0" "gdt_entries p ! Suc 0 = code_seg_default" "gdt_entries p ! 3 = data_seg_default"
  "sys_seg_from_bits_unchecked (gdt_entries p ! 4, gdt_entries p ! 5) = sys_seg_new p TSS_LIMIT AvlTss Ring0 False"
  using sys_seg_bits_roundtrip [of "sys_seg_new p TSS_LIMIT AvlTss Ring0 False"]
  by (simp_all add: gdt_entries_def Let_def code_seg_bits.simps(5))

text \<open>The entries of the table that the registers of the processor select.\<close>

definition selected :: "sys_tables \<Rightarrow> seg_sel \<Rightarrow> u64" where
  "selected st sel = snd (gdt_box st) ! unat (get_index sel)"

definition selected_sys :: "sys_tables \<Rightarrow> seg_sel \<Rightarrow> sys_seg_desc" where
  "selected_sys st sel = sys_seg_from_bits_unchecked (selected st sel, snd (gdt_box st) ! (unat (get_index sel) + 1))"


text \<open>A heap of 16 KiB for the example.\<close>

definition small_heap :: "tallock option" where
  "small_heap = do {
     t \<leftarrow> talloc_new 0x100000 0x4000 32 0x100000 0x4000 zero_nodes;
     Some \<lparr>inner = t, bytes = (\<lambda>_. 0)\<rparr>
   }"

lemma small_heap_boxes:
  "(do { k \<leftarrow> small_heap; (a, k1) \<leftarrow> box_new_in mapper_oom_handler tss_layout k; (b, k2) \<leftarrow> box_new_in mapper_oom_handler gdt_layout k1;
         (d, k3) \<leftarrow> box_new_in mapper_oom_handler idt_layout k2; Some (a, b, d) }) = Some (0x100180, 0x100140, 0x101000)"
  by code_simp

definition demo_isr :: isr_addrs where
  "demo_isr = \<lparr>isr_div_by_zero = 0x1000, isr_debug = 0x1100, isr_breakpoint = 0x1200, isr_double_fault = 0x1300,
     isr_page_fault = 0x1400, isr_general_protection = 0x1500, isr_segment_not_present = 0x1600, isr_alignment_check = 0x1700\<rparr>"


end
