(* ===== verification/Init.thy ===== *)
theory Init
  imports Sys_Tables Wrappers Mapper_Setup Terminal Uart Bootboot Cfg
begin

text \<open>
  Model of the start of a core in \<^verbatim>\<open>kernel/src/init.rs\<close>, with \<open>__print\<close> of \<^verbatim>\<open>kernel/src/out/mod.rs\<close>: the
  first core reads the boot parameters and sets up the mapper, then every core loads the page tables,
  maps its stack and its heap and installs its system tables. This is what one core does, given its
  ticket and, for a later core, the value that the first has stored; \<open>Cores\<close> adds the counters, the wait and
  the interleaving. Text is what the formatter hands out, in ASCII.
\<close>

section \<open>Output\<close>

record 's kernel =
  k_cpu :: seg_cpu
  k_cfg :: cfg_state
  k_mapper :: mapper
  k_tables :: table_mem
  k_term :: term1
  k_vram :: vram
  k_dev :: 's

text \<open>The serial port is skipped when another core holds its lock.\<close>

definition print_text :: "'s io_bus \<Rightarrow> uart_port option \<Rightarrow> string \<Rightarrow> 's kernel \<Rightarrow> 's kernel option" where
  "print_text b lock text k = do {
     dev \<leftarrow> (case lock of Some u \<Rightarrow> uart_write_str b u (map of_char text) (k_dev k) | None \<Rightarrow> Some (k_dev k));
     (t, m) \<leftarrow> write_str (map of_char text) (k_term k, k_vram k);
     Some (k\<lparr>k_dev := dev, k_term := t, k_vram := m\<rparr>)
   }"

definition println_text :: "'s io_bus \<Rightarrow> uart_port option \<Rightarrow> string \<Rightarrow> 's kernel \<Rightarrow> 's kernel option" where
  "println_text b lock text = print_text b lock (CHR 0x0A # text)"

section \<open>The first core\<close>

definition fb_format_of :: "u8 \<Rightarrow> pixel_format option" where
  "fb_format_of ty =
     (if ty = FB_ABGR then Some ABGR else if ty = FB_ARGB then Some ARGB
      else if ty = FB_BGRA then Some BGRA else if ty = FB_RGBA then Some RGBA else None)"

definition start_term :: "bootboot_hdr \<Rightarrow> term1 \<Rightarrow> term1 option" where
  "start_term hdr t = do {
     format \<leftarrow> fb_format_of (bb_fb_type hdr);
     fb \<leftarrow> fb_new FRAMEBUFFER (unat (bb_fb_width hdr)) (unat (bb_fb_height hdr)) (unat (bb_fb_scanline hdr)) format;
     Some (t\<lparr>term_fb := fb\<rparr>)
   }"

text \<open>
  The page tables are reached at their physical addresses until \<open>Mapper::setup\<close> switches to the new tables, and at
  the offset from then on.
\<close>

definition offset_view :: "table_mem \<Rightarrow> table_mem" where
  "offset_view m l = m (l - PHYS_LADDR_OFFSET)"

lemma phys_offset_view [simp]: "phys (offset_view m) = m"
  by (simp add: phys_def offset_view_def fun_eq_iff)

definition start_bsp ::
  "'s io_bus \<Rightarrow> uart_port option \<Rightarrow> bootboot_hdr \<Rightarrow> mmap_entry_rec list \<Rightarrow> (ptr \<Rightarrow> u8) \<Rightarrow> unit node_heap \<Rightarrow>
   phys_bytes \<times> 's kernel \<Rightarrow> (usize \<times> phys_bytes \<times> 's kernel) option" where
  "start_bsp b lock hdr entries env h = (\<lambda>(pm, k). do {
     t \<leftarrow> start_term hdr (k_term k);
     let k = k\<lparr>k_term := t\<rparr>;
     k \<leftarrow> println_text b lock ''[BSP] KERNEL _START! '' k;
     k \<leftarrow> print_text b lock [char_of (31 :: nat)] k;
     cfg \<leftarrow> init_boot_cfg (map (\<lambda>x. char_of (unat x)) (env_cfg_as_str env)) (k_cfg k);
     let k = k\<lparr>k_cfg := cfg\<rparr>;
     (mmap, pm) \<leftarrow> mmap_available_iter hdr entries pm;
     (pml4, mp, c, m) \<leftarrow> mapper_setup mmap h (k_cpu k) (k_tables k);
     Some (pml4, pm, k\<lparr>k_cpu := c, k_mapper := mp, k_tables := offset_view m\<rparr>)
   })"

section \<open>The stack of a core\<close>

definition stack_acme :: "usize \<Rightarrow> usize option" where
  "stack_acme ticket = do {
     step \<leftarrow> checked_add KRNL_STACK_SIZE PTE_SIZE;
     off \<leftarrow> checked_mul step ticket;
     checked_sub KRNL_STACK_ACME off
   }"

text \<open>From the load of the page tables to the switch to the new stack; the first result is the stack pointer.\<close>

definition start_core :: "usize \<Rightarrow> usize \<Rightarrow> 's kernel \<Rightarrow> (usize \<times> 's kernel) option" where
  "start_core ticket pml4 k = do {
     let c = cr3_set_nflags pml4 (k_cpu k);
     acme \<leftarrow> stack_acme ticket;
     base \<leftarrow> checked_sub acme KRNL_STACK_SIZE;
     table \<leftarrow> get_laddr_offset (cr3_read c) PHYS_LADDR_OFFSET;
     (_, mp, m) \<leftarrow> mapper_map (k_mapper k) base KRNL_STACK_SIZE (pte_bits PTE_RW) (pte_bits PTE_RW) table (k_tables k);
     rsp \<leftarrow> checked_sub acme 0x10;
     Some (rsp, k\<lparr>k_cpu := c, k_mapper := mp, k_tables := m\<rparr>)
   }"

text \<open>
  The whole of \<open>_start\<close>: \<open>shared\<close> is the table address that the first core has stored, which the other cores
  wait for.
\<close>

definition start ::
  "'s io_bus \<Rightarrow> uart_port option \<Rightarrow> bootboot_hdr \<Rightarrow> mmap_entry_rec list \<Rightarrow> (ptr \<Rightarrow> u8) \<Rightarrow> unit node_heap \<Rightarrow> usize \<Rightarrow> usize \<Rightarrow>
   phys_bytes \<times> 's kernel \<Rightarrow> (usize \<times> phys_bytes \<times> 's kernel) option" where
  "start b lock hdr entries env h ticket shared = (\<lambda>(pm, k). do {
     let k = k\<lparr>k_cpu := pat_write KRNL_DEFAULT_PAT (k_cpu k)\<rparr>;
     (pml4, pm, k) \<leftarrow> (if ticket = 0 then start_bsp b lock hdr entries env h (pm, k) else Some (shared, pm, k));
     (rsp, k) \<leftarrow> start_core ticket pml4 k;
     Some (rsp, pm, k)
   })"

section \<open>The heap of a core\<close>

definition checked_smul :: "'a::len word \<Rightarrow> 'a word \<Rightarrow> 'a word option" where
  "checked_smul a b =
     (let r = sint a * sint b
      in if - (2 ^ (LENGTH('a) - 1)) \<le> r \<and> r < 2 ^ (LENGTH('a) - 1) then Some (a * b) else None)"

definition heap_base :: "usize \<Rightarrow> isize option" where
  "heap_base ticket = do {
     n \<leftarrow> checked_sadd 2 ticket;
     checked_smul (- PDPTE_SIZE) n
   }"

text \<open>
  The allocator is built, asked for memory for itself, and moved there. Its size and alignment are a
  parameter, and so is the handler it is given: its calls of the mapper are modelled below.
\<close>

definition allocator_setup ::
  "oom_handler \<Rightarrow> layout \<Rightarrow> usize \<Rightarrow> unit node_heap \<Rightarrow> (ptr \<Rightarrow> u8) \<Rightarrow> 's kernel \<Rightarrow> (ptr \<times> tallock \<times> 's kernel) option" where
  "allocator_setup oom tallock_layout ticket h bs k = do {
     base \<leftarrow> heap_base ticket;
     size \<leftarrow> heap_init_size (k_cfg k);
     smlst \<leftarrow> heap_smlst_block (k_cfg k);
     table \<leftarrow> from_phys_addr (cr3_paddr (cr3_read (k_cpu k)));
     (_, mp, m) \<leftarrow> mapper_map (k_mapper k) base size (pte_bits PTE_RW) (pte_bits PTE_RW) table (k_tables k);
     t \<leftarrow> talloc_new base size smlst base size h;
     (r, tallock) \<leftarrow> allocator_allocate oom \<lparr>inner = t, bytes = bs\<rparr> tallock_layout;
     (p, _) \<leftarrow> (case r of Inr s \<Rightarrow> Some s | Inl e \<Rightarrow> None);
     Some (p, tallock, k\<lparr>k_mapper := mp, k_tables := m\<rparr>)
   }"

text \<open>The handler of a core's allocator doubles the arena, within the gigabyte that a core has.\<close>

definition krnl_oom_handler :: "talloc \<times> 's kernel \<Rightarrow> layout \<Rightarrow> (unit alloc_result \<times> talloc \<times> 's kernel) option" where
  "krnl_oom_handler = (\<lambda>(t, k) l. do {
     let (base, size) = get_arena t;
     stack \<leftarrow> stack_size (k_cfg k);
     rest \<leftarrow> checked_sub PDPTE_SIZE stack;
     max_arena_size \<leftarrow> checked_sub rest PTE_SIZE;
     double \<leftarrow> checked_mul size 2;
     let lgr_size = min double max_arena_size;
     free_mem_size \<leftarrow> req_free_mem t base lgr_size;
     room \<leftarrow> checked_sub lgr_size free_mem_size;
     if size < room then do {
       acme \<leftarrow> checked_sadd base size;
       grow \<leftarrow> checked_sub lgr_size size;
       table \<leftarrow> get_laddr_offset (cr3_read (k_cpu k)) PHYS_LADDR_OFFSET;
       (_, mp, m) \<leftarrow> mapper_map (k_mapper k) acme grow (pte_bits PTE_RW) (pte_bits PTE_RW) table (k_tables k);
       t \<leftarrow> talloc_extend t base lgr_size acme grow;
       Some (Inr (), t, k\<lparr>k_mapper := mp, k_tables := m\<rparr>)
     } else Some (Inl AllocError, t, k)
   })"

section \<open>The rest of the start\<close>

text \<open>\<open>greeting\<close> is the formatted line with the ticket.\<close>

definition core_init ::
  "'s io_bus \<Rightarrow> uart_port option \<Rightarrow> oom_handler \<Rightarrow> layout \<Rightarrow> isr_addrs \<Rightarrow> string \<Rightarrow> usize \<Rightarrow> unit node_heap \<Rightarrow> (ptr \<Rightarrow> u8) \<Rightarrow>
   's kernel \<Rightarrow> (ptr \<times> sys_tables \<times> tallock \<times> 's kernel) option" where
  "core_init b lock oom tallock_layout isr greeting ticket h bs k = do {
     k \<leftarrow> println_text b lock greeting k;
     (p, tallock, k) \<leftarrow> allocator_setup oom tallock_layout ticket h bs k;
     (st, tallock, c) \<leftarrow> setup_sys_tables oom isr tallock (k_cpu k);
     Some (p, st, tallock, k\<lparr>k_cpu := c\<rparr>)
   }"

section \<open>Addresses\<close>

text \<open>Page numbers from signed addresses.\<close>

lemma vpn_sint: "vpn w = sint w div 2 ^ 12 mod 2 ^ 36"
proof -
  have "uint w = take_bit 64 (sint w)" using uint_sint [of w] by simp
  then have "vpn w = take_bit 36 (drop_bit 12 (take_bit 64 (sint w)))" by (simp add: vpn_def take_bit_eq_mod drop_bit_eq_div)
  also have "\<dots> = take_bit 36 (drop_bit 12 (sint w))" by (rule bit_eqI) (auto simp: bit_simps)
  finally show ?thesis by (simp add: take_bit_eq_mod drop_bit_eq_div)
qed

lemma map_base_aligned: "4096 dvd sint w \<Longrightarrow> map_base w = w"
proof -
  assume "4096 dvd sint w"
  then have "take_bit 12 (sint w) = 0" by (simp add: take_bit_eq_mod dvd_eq_mod_eq_0)
  then have "\<not> bit w n" if "n < 12" for n
    using that by (metis bit_sint_iff bit_take_bit_iff bit_0_eq bot_apply bot_bool_def)
  then show ?thesis unfolding map_base_def by (intro bit_word_eqI) (auto simp: bit_simps not_le)
qed

text \<open>The words that the start computes with are known as signed integers.\<close>

lemma neg_mod: "0 < y \<Longrightarrow> y < k \<Longrightarrow> (- y) mod k = k - y" for y k :: int
  by (simp add: zmod_zminus1_eq_if)

lemma neg_int_word:
  assumes "0 \<le> x" "x \<le> 2 ^ 47"
  shows "sint (- of_int x :: u64) = - x" "0 < x \<Longrightarrow> uint (- of_int x :: u64) = 2 ^ 64 - x"
proof -
  have e: "- of_int x = (of_int (- x) :: u64)" by simp
  show "sint (- of_int x :: u64) = - x" unfolding e using assms by (intro sint_of_int_eq) simp_all
  assume "0 < x"
  then have "(- x) mod 2 ^ 64 = 2 ^ 64 - x" using assms by (intro neg_mod) simp_all
  then show "uint (- of_int x :: u64) = 2 ^ 64 - x" unfolding e uint_word_of_int by simp
qed

section \<open>The stack of a core is mapped but for one page\<close>

text \<open>The page number behind the stack of a core.\<close>

definition stack_top :: "usize \<Rightarrow> int" where
  "stack_top ticket = 2 ^ 36 - 0x40000 - 0x400 * uint ticket"

definition stack_end :: "usize \<Rightarrow> u64" where
  "stack_end ticket = - of_int (0x40000000 + 0x400000 * uint ticket)"

lemma stack_acme_eq:
  assumes "uint ticket < 128"
  shows "stack_acme ticket = Some (stack_end ticket)"
    "checked_sub (stack_end ticket) KRNL_STACK_SIZE = Some (stack_end ticket - 0x3FF000)"
    "checked_sub (stack_end ticket) 0x10 = Some (stack_end ticket - 0x10)"
    "sint (stack_end ticket - 0x3FF000) = - 0x40000000 - 0x400000 * uint ticket - 0x3FF000"
proof -
  let ?x = "0x40000000 + 0x400000 * uint ticket"
  have x: "0 < ?x" "0 \<le> ?x" using uint_ge_0 [of ticket] by linarith+
  have x': "?x \<le> 2 ^ 47" using assms by simp
  have u: "uint (stack_end ticket) = 2 ^ 64 - ?x" unfolding stack_end_def by (rule neg_int_word(2) [OF x(2) x' x(1)])
  have s: "sint (stack_end ticket) = - ?x" unfolding stack_end_def by (rule neg_int_word(1) [OF x(2) x'])
  have c: "KRNL_STACK_ACME = - 0x40000000" "KRNL_STACK_SIZE = 0x3FF000"
    by (simp_all add: KRNL_STACK_ACME_def KRNL_STACK_SIZE_def PDPTE_SIZE_def PTE_SIZE_def)
  have m: "uint (0x400000 * ticket) = 0x400000 * uint ticket" using assms by (simp add: uint_word_ariths)
  have "0x400000 * ticket \<le> - 0x40000000" unfolding word_le_def m using assms by simp
  moreover have "int (unat (0x400000 :: u64) * unat ticket) < int (2 ^ 64)" using assms by simp
  then have "unat (0x400000 :: u64) * unat ticket < 2 ^ LENGTH(64)" by (simp only: of_nat_less_iff) simp
  moreover have "stack_end ticket = - 0x40000000 - 0x400000 * ticket" by (simp add: stack_end_def)
  ultimately show "stack_acme ticket = Some (stack_end ticket)"
    by (simp add: stack_acme_def c checked_add_def checked_mul_def checked_sub_def PTE_SIZE_def)
  have "0x3FF000 \<le> stack_end ticket" "0x10 \<le> stack_end ticket" unfolding word_le_def u using assms by simp_all
  then show "checked_sub (stack_end ticket) KRNL_STACK_SIZE = Some (stack_end ticket - 0x3FF000)"
    "checked_sub (stack_end ticket) 0x10 = Some (stack_end ticket - 0x10)"
    by (simp_all add: checked_sub_def c)
  show "sint (stack_end ticket - 0x3FF000) = - 0x40000000 - 0x400000 * uint ticket - 0x3FF000"
    using sint_sub_eq [of "stack_end ticket" "0x3FF000"] x s assms by simp
qed

lemma stack_span:
  assumes "uint ticket < 128"
  defines "b \<equiv> stack_end ticket - 0x3FF000"
  shows "map_base b = b" "vpn b = stack_top ticket - 1023" "map_pages KRNL_STACK_SIZE = 1023"
    "map_args_ok b KRNL_STACK_SIZE (pte_bits PTE_RW) (pte_bits PTE_RW)"
    "covered 4 (map_base b) (map_base b + of_int (4096 * map_pages KRNL_STACK_SIZE)) =
       {stack_top ticket - 1023 ..< stack_top ticket} - {stack_top ticket - 512}"
proof -
  define n where "n = uint ticket"
  have n: "0 \<le> n" "n < 128" using assms(1) by (simp_all add: n_def)
  have s: "sint b = - 4096 * (0x40000 + 0x400 * n + 0x3FF)" using stack_acme_eq(4) [OF assms(1)] by (simp add: b_def n_def)
  show m: "map_base b = b" by (rule map_base_aligned) (simp add: s)
  have "sint b div 2 ^ 12 = - (0x40000 + 0x400 * n + 0x3FF)" unfolding s by simp
  moreover have "- (0x40000 + 0x400 * n + 0x3FF) mod 2 ^ 36 = 2 ^ 36 - (0x40000 + 0x400 * n + 0x3FF)"
    using n by (intro neg_mod) simp_all
  ultimately show v: "vpn b = stack_top ticket - 1023" by (simp add: vpn_sint stack_top_def n_def)
  have c: "KRNL_STACK_SIZE = 0x3FF000" by (simp add: KRNL_STACK_SIZE_def PTE_SIZE_def)
  show p: "map_pages KRNL_STACK_SIZE = 1023" by (simp add: c map_pages_def)
  show a: "map_args_ok b KRNL_STACK_SIZE (pte_bits PTE_RW) (pte_bits PTE_RW)"
    using s n p by (simp add: map_args_ok_def m c BASE_MASK_def)
  have "sint (b + of_int (4096 * 1023)) = sint b + 4096 * 1023" using mapper_map_eq(2) [OF a] by (simp add: m p)
  moreover have "lidx b (Suc 1) \<noteq> 511"
  proof
    assume "lidx b (Suc 1) = 511"
    then have "vpn b div 512 mod 512 = 511" using lidx_vpn [of "Suc 1" 1 b] by simp
    moreover have "vpn b = 512 * (2 ^ 27 - 0x202 - 2 * n) + 1" by (simp add: v stack_top_def n_def)
    then have "vpn b div 512 = 2 * (2 ^ 26 - 0x101 - n)" by simp
    ultimately have "2 * (2 ^ 26 - 0x101 - n) mod 512 = 511" by simp
    then have "even (511 :: int)" by (metis dvd_mod dvd_triv_left even_numeral)
    then show False by simp
  qed
  moreover have "vpn b mod 512 = 1"
  proof -
    obtain j where "j = 2 ^ 27 - 0x202 - 2 * n" by simp
    then have "vpn b = 1 + 512 * j" by (simp add: v stack_top_def n_def)
    then show ?thesis by simp
  qed
  ultimately show "covered 4 (map_base b) (map_base b + of_int (4096 * map_pages KRNL_STACK_SIZE)) =
       {stack_top ticket - 1023 ..< stack_top ticket} - {stack_top ticket - 512}"
    using covered_two_entries [of b "b + of_int (4096 * 1023)"] map_base_bits [of b] s n v by (simp add: m p)
qed

lemma start_core_result:
  assumes t: "uint ticket < 128" and ok: "pml4_ok (k_mapper k) pml4 (k_tables k)"
    and nh: "\<And>l. vpn l \<in> {stack_top ticket - 1023 ..< stack_top ticket} \<Longrightarrow> no_huge (phys (k_tables k)) 4 pml4 l"
  shows "case start_core ticket pml4 k of
      None \<Rightarrow> starved mapper_fits alloc_phys (k_mapper k)
    | Some (rsp, k') \<Rightarrow> rsp = stack_end ticket - 0x10 \<and> cr3_paddr (cr3_read (k_cpu k')) = pml4 \<and>
        pml4_ok (k_mapper k') pml4 (k_tables k') \<and>
        map_effect 4 pml4 0 ({stack_top ticket - 1023 ..< stack_top ticket} - {stack_top ticket - 512})
          (mapper_avail (k_mapper k)) (phys (k_tables k)) (mapper_avail (k_mapper k')) (phys (k_tables k'))"
proof -
  let ?b = "stack_end ticket - 0x3FF000" and ?c = "cr3_set_nflags pml4 (k_cpu k)"
  note e = stack_acme_eq [OF t] and sp = stack_span [OF t]
  have tbl: "is_table pml4" using ok by (simp add: pml4_ok_def)
  have p: "cr3_paddr (cr3_read ?c) = pml4"
    using tbl by (simp add: cr3_set_nflags_def cr3_read_def cr3_write_cr3 Let_def)
  have l: "get_laddr_offset (cr3_read ?c) PHYS_LADDR_OFFSET = Some (pml4 + PHYS_LADDR_OFFSET)"
    using from_phys_addr_table [OF tbl] by (simp add: get_laddr_offset_def from_phys_addr_def p)
  have r: "map_request_result (k_mapper k) pml4 (k_tables k) ({stack_top ticket - 1023 ..< stack_top ticket} - {stack_top ticket - 512})
    (request_mapping ?b KRNL_STACK_SIZE pml4)
    (mapper_map (k_mapper k) ?b KRNL_STACK_SIZE (pte_bits PTE_RW) (pte_bits PTE_RW) (pml4 + PHYS_LADDR_OFFSET) (k_tables k))"
    by (rule mapper_map_result [OF sp(4) ok sp(5)]) (use nh in blast)
  show ?thesis
  proof (cases "mapper_map (k_mapper k) ?b KRNL_STACK_SIZE (pte_bits PTE_RW) (pte_bits PTE_RW) (pml4 + PHYS_LADDR_OFFSET) (k_tables k)")
    case None
    then show ?thesis using r e l by (simp add: start_core_def map_request_result_def)
  next
    case (Some x)
    obtain mg mp m where "x = (mg, mp, m)" by (cases x)
    then show ?thesis using r e l p Some by (simp add: start_core_def map_request_result_def)
  qed
qed




end
