(* ===== verification/Init_Heap.thy ===== *)
theory Init_Heap
  imports Init
begin

text \<open>
  The heap of a core, in \<open>allocator_setup\<close> of \<^verbatim>\<open>kernel/src/init.rs\<close>: its pages are mapped, the allocator is
  built in them and holds its own block. The mapper and the allocator are used through their contracts.
\<close>

section \<open>Addresses\<close>

text \<open>The heap of a core starts at a multiple of 1 GiB below the end of the address space.\<close>

definition heap_start :: "usize \<Rightarrow> isize" where
  "heap_start ticket = - of_int (0x40000000 * (2 + uint ticket))"

definition heap_page :: "usize \<Rightarrow> int" where
  "heap_page ticket = 2 ^ 36 - 0x40000 * (2 + uint ticket)"

lemma heap_base_eq:
  assumes "uint ticket < 128"
  shows "heap_base ticket = Some (heap_start ticket)" "sint (heap_start ticket) = - (2 ^ 30 * (2 + uint ticket))"
proof -
  have s: "sint ticket = uint ticket" using assms by (intro sint_eq_uint) simp
  have "sint (2 + ticket) = 2 + uint ticket" using sint_add_eq [of 2 ticket] s assms by simp
  then show "heap_base ticket = Some (heap_start ticket)"
    using s assms
    by (simp add: heap_base_def heap_start_def checked_sadd_def checked_smul_def Let_def PDPTE_SIZE_def)
      (use uint_ge_0 [of ticket] in linarith)
  show "sint (heap_start ticket) = - (2 ^ 30 * (2 + uint ticket))"
    unfolding heap_start_def using assms by (subst neg_int_word(1)) simp_all
qed

lemma heap_start_bounds:
  assumes "uint ticket < 128"
  shows "- (2 ^ 38) \<le> sint (heap_start ticket)" "sint (heap_start ticket) + 2 ^ 30 < 0"
proof -
  have e: "sint (heap_start ticket) = - 2147483648 - 1073741824 * uint ticket" using heap_base_eq(2) [OF assms] by simp
  have p: "2 ^ 30 = (1073741824 :: int)" "2 ^ 38 = (274877906944 :: int)" by simp_all
  show "- (2 ^ 38) \<le> sint (heap_start ticket)" "sint (heap_start ticket) + 2 ^ 30 < 0"
    unfolding e p using assms uint_ge_0 [of ticket] by linarith+
qed

lemma no_hole_aligned: "512 ^ n dvd vpn base \<Longrightarrow> no_hole (Suc n) base c"
proof (induction n)
  case (Suc n)
  have "512 ^ n dvd vpn base" using Suc.prems by (metis dvd_mult_right power_Suc)
  then show ?case using Suc by simp
qed simp

lemma heap_span:
  assumes t: "uint ticket < 128" and sz: "sz \<noteq> 0" "uint sz \<le> 2 ^ 30"
  defines "b \<equiv> heap_start ticket"
  shows "map_base b = b" "vpn b = heap_page ticket" "map_args_ok b sz (pte_bits PTE_RW) (pte_bits PTE_RW)"
    "vpn b + map_pages sz \<le> 512 ^ 4" "no_hole 4 b (map_pages sz)"
proof -
  define n where "n = uint ticket"
  have n: "0 \<le> n" "n < 128" using t by (simp_all add: n_def)
  have s: "sint b = - (2 ^ 30 * (2 + n))" using heap_base_eq(2) [OF t] by (simp add: b_def n_def)
  show m: "map_base b = b" by (rule map_base_aligned) (simp add: s)
  have "sint b div 2 ^ 12 = - (0x40000 * (2 + n))" unfolding s by simp
  moreover have "- (0x40000 * (2 + n)) mod 2 ^ 36 = 2 ^ 36 - 0x40000 * (2 + n)" using n by (intro neg_mod) simp_all
  ultimately show v: "vpn b = heap_page ticket" by (simp add: vpn_sint heap_page_def n_def)
  have c: "0 < map_pages sz" "map_pages sz \<le> 0x40000"
    using map_pages_pos [OF sz(1)] sz(2) by (simp_all add: map_pages_def)
  show "map_args_ok b sz (pte_bits PTE_RW) (pte_bits PTE_RW)"
    using s n c sz(1) by (simp add: map_args_ok_def m BASE_MASK_def)
  show "vpn b + map_pages sz \<le> 512 ^ 4" using c n by (simp add: v heap_page_def n_def [symmetric])
  obtain j where "j = 2 ^ 18 - 2 - n" by simp
  then have j: "vpn b = 512 ^ 2 * j" by (simp add: v heap_page_def n_def)
  have "vpn b div 512 ^ 3 = (vpn b + map_pages sz - 1) div 512 ^ 3"
  proof -
    have "(512 ^ 2 * j + r) div 512 ^ 3 = j div 512" if "0 \<le> r" "r < 512 ^ 2" for r :: int
    proof -
      have "(512 ^ 2 * j + r) div (512 ^ 2 * 512) = (512 ^ 2 * j + r) div 512 ^ 2 div 512" by (simp only: div_mult2_eq zdiv_zmult2_eq)
      then show ?thesis using that by (simp add: div_pos_pos_trivial)
    qed
    from this [of 0] this [of "map_pages sz - 1"] show ?thesis using c by (simp add: j algebra_simps)
  qed
  moreover have "no_hole (Suc 2) b (map_pages sz)" by (rule no_hole_aligned) (simp add: j)
  ultimately have "no_hole (Suc (Suc 2)) b (map_pages sz)" by (simp only: no_hole.simps(2) [of "Suc 2"]) (simp add: eval_nat_numeral)
  then show "no_hole 4 b (map_pages sz)" by (simp add: eval_nat_numeral)
qed

lemma heap_map_result:
  assumes "uint ticket < 128" "sz \<noteq> 0" "uint sz \<le> 2 ^ 30" "pml4_ok mp t m"
    and "\<And>a. vpn a \<in> {heap_page ticket ..< heap_page ticket + map_pages sz} \<Longrightarrow> no_huge (phys m) 4 t a"
  shows "map_request_result mp t m {heap_page ticket ..< heap_page ticket + map_pages sz} (request_mapping (heap_start ticket) sz t)
    (mapper_map mp (heap_start ticket) sz (pte_bits PTE_RW) (pte_bits PTE_RW) (t + PHYS_LADDR_OFFSET) m)"
proof -
  note sp = heap_span [OF assms(1-3)]
  have "map_request_result mp t m {vpn (map_base (heap_start ticket)) ..< vpn (map_base (heap_start ticket)) + map_pages sz}
      (request_mapping (heap_start ticket) sz t)
      (mapper_map mp (heap_start ticket) sz (pte_bits PTE_RW) (pte_bits PTE_RW) (t + PHYS_LADDR_OFFSET) m)"
    by (rule mapper_map_no_hole [OF sp(3) assms(4)]) (use sp assms(5) in \<open>simp_all\<close>)
  then show ?thesis by (simp add: sp(1,2))
qed

text \<open>
  The stacks are in the gigabyte of the first core's heap. With the default configuration the largest arena of
  that heap stays below the stacks of the first two cores only: from the third core on it contains the stack.
\<close>

lemma first_heap_contains_stack:
  assumes "2 \<le> uint ticket" "uint ticket < 128"
  shows "sint (heap_start 0) \<le> sint (stack_end ticket - 0x3FF000)"
    "sint (stack_end ticket) \<le> sint (heap_start 0) + (uint PDPTE_SIZE - uint stack_size_default - uint PTE_SIZE)"
proof -
  have h: "sint (heap_start 0) = - 0x80000000" using heap_base_eq(2) [of 0] by simp
  show "sint (heap_start 0) \<le> sint (stack_end ticket - 0x3FF000)"
    unfolding h stack_acme_eq(4) [OF assms(2)] using assms by linarith
  have "0 \<le> 0x40000000 + 0x400000 * uint ticket" "0x40000000 + 0x400000 * uint ticket \<le> 2 ^ 47" using assms by simp_all
  from neg_int_word(1) [OF this] have "sint (stack_end ticket) = - (0x40000000 + 0x400000 * uint ticket)" unfolding stack_end_def .
  then show "sint (stack_end ticket) \<le> sint (heap_start 0) + (uint PDPTE_SIZE - uint stack_size_default - uint PTE_SIZE)"
    using assms by (simp add: h PDPTE_SIZE_def stack_size_default_def PTE_SIZE_def)
qed

section \<open>The allocator in its pages\<close>

definition heap_free :: "usize \<Rightarrow> usize \<Rightarrow> nat \<Rightarrow> int set" where
  "heap_free ticket sz s =
     {round_up s (sint (heap_start ticket) + status_size sz s (heap_start ticket)) ..< round_down s (sint (heap_start ticket) + uint sz)}"

text \<open>An aligned block fits between two addresses that are two blocks apart.\<close>

lemma aligned_block_between:
  assumes "s \<le> L" "a + 2 * 2 ^ L \<le> b"
  shows "\<exists>x. 2 ^ L dvd x \<and> {x ..< x + 2 ^ L} \<subseteq> {round_up s a ..< round_down s b}"
proof (intro exI conjI)
  let ?x = "round_up L a"
  show x: "2 ^ L dvd ?x" by (rule round_up_bounds)
  have d: "(2 :: int) ^ s dvd 2 ^ L" using assms(1) by (rule le_imp_power_dvd)
  have "round_up s a \<le> ?x" by (rule round_up_le) (use round_up_bounds(1) [of a L] dvd_trans [OF d x] in auto)
  moreover have "?x + 2 ^ L \<le> round_down s b"
  proof -
    have "2 ^ s dvd ?x + 2 ^ L" using dvd_trans [OF d x] d by simp
    moreover have "?x + 2 ^ L \<le> b" using round_up_bounds(2) [of L a] assms(2) by linarith
    ultimately show ?thesis using round_down_dvd [of s "?x + 2 ^ L"] unfolding round_down_def
      by (metis mult_right_mono zdiv_mono1 zero_le_numeral zero_le_power zero_less_numeral zero_less_power)
  qed
  ultimately show "{?x ..< ?x + 2 ^ L} \<subseteq> {round_up s a ..< round_down s b}" by auto
qed

lemma heap_geo_ok:
  assumes "uint ticket < 128" "arena_args_ok sz s" "uint sz \<le> 2 ^ 30"
  shows "geo_ok (arena_geo (heap_start ticket) sz s)"
proof -
  note e = heap_base_eq(2) [OF assms(1)] and args = arena_args [OF assms(2)]
  have "int (unat sz) \<le> int (2 ^ 30)" using assms(3) by simp
  then have sz: "unat sz \<le> 2 ^ 30" by (simp only: of_nat_le_iff)
  have pos: "0 < unat sz" using assms(2) by (simp add: arena_args_ok_def)
  have "unat sz - 1 < 2 ^ 30" using sz pos by linarith
  then have top: "arena_top sz \<le> 30" unfolding arena_top_def by (rule bit_len_le)
  have "(2 :: int) ^ arena_top sz dvd 2 ^ 30" using top by (rule le_imp_power_dvd)
  then have "2 ^ arena_top sz dvd sint (heap_start ticket)" unfolding e by (intro dvd_minus_iff [THEN iffD2] dvd_mult2)
  moreover have "int (unat sz) \<le> int (2 ^ arena_top sz)" using args(3) by (simp only: of_nat_le_iff)
  moreover have "0 < int (unat sz)" using pos by (simp only: of_nat_0_less_iff)
  ultimately show ?thesis
    using assms heap_start_bounds [OF assms(1)] top by (simp add: geo_ok_def arena_geo_def arena_args_ok_def dvd_eq_mod_eq_0)
qed

lemma heap_new:
  assumes t: "uint ticket < 128" and a: "arena_args_ok sz s" and sz: "uint sz \<le> 2 ^ 30"
    and l: "layout_ok l" "unat (layout_size l) \<le> 2 ^ L" "unat (layout_align l) \<le> 2 ^ L" "s \<le> L"
    and room: "status_size sz s (heap_start ticket) + 2 * 2 ^ L \<le> uint sz"
  shows "\<exists>t. talloc_new (heap_start ticket) sz (2 ^ s) (heap_start ticket) sz h = Some t \<and>
    talloc_free t (heap_free ticket sz s) \<and> get_arena t = (heap_start ticket, sz) \<and> talloc_fits t l"
proof -
  let ?b = "sint (heap_start ticket)" and ?st = "status_size sz s (heap_start ticket)"
  obtain x where x: "2 ^ L dvd x" "{x ..< x + 2 ^ L} \<subseteq> heap_free ticket sz s"
    using aligned_block_between [OF l(4), of "?b + ?st" "?b + uint sz"] room by (auto simp: heap_free_def)
  then have "round_up s (?b + ?st) \<le> x" "x + 2 ^ L \<le> round_down s (?b + uint sz)" by (simp_all add: heap_free_def ivl_subset)
  then have "round_up s (?b + ?st) \<le> round_down s (?b + uint sz)" using zero_le_power [of "2 :: int" L] by linarith
  moreover have "round_down s (?b + uint sz) \<le> ?b + uint sz" by (rule round_down_bounds)
  then have "round_down s (?b + uint sz) < 0" using heap_start_bounds [OF t] sz by linarith
  moreover have "?st \<le> uint sz" using room zero_le_power [of "2 :: int" L] by linarith
  ultimately obtain tl F where tl: "talloc_new (heap_start ticket) sz (2 ^ s) (heap_start ticket) sz h = Some tl"
    "talloc_inv tl F" "free_bytes (talloc_blocks tl F) = heap_free ticket sz s" "get_arena tl = (heap_start ticket, sz)"
    "talloc_geo tl = arena_geo (heap_start ticket) sz s"
    using talloc_new_step [OF a heap_geo_ok [OF t a sz], of "heap_start ticket" sz h] by (auto simp: heap_free_def)
  have free: "talloc_free tl (heap_free ticket sz s)" unfolding talloc_free_def using tl by blast
  have "layout_level tl l \<le> L" using layout_level_least [OF l(1), of tl L] l tl(5) by (simp add: arena_geo_def)
  then have "2 ^ layout_level tl l dvd x" "(2 :: int) ^ layout_level tl l \<le> 2 ^ L"
    using x(1) le_imp_power_dvd dvd_trans by (blast, intro power_increasing) auto
  moreover from this(2) have "{x ..< x + 2 ^ layout_level tl l} \<subseteq> {x ..< x + 2 ^ L}" by (simp only: ivl_subset) linarith
  then have "{x ..< x + 2 ^ layout_level tl l} \<subseteq> heap_free ticket sz s" using x(2) by (rule order_trans)
  ultimately have "talloc_fits tl l" unfolding talloc_fits_free [OF free] by blast
  with tl free show ?thesis by blast
qed

section \<open>The heap of a core\<close>


text \<open>A core with the configuration's default heap.\<close>

lemma default_heap:
  "arena_args_ok 0x1000000 5" "status_size 0x1000000 5 (heap_start 3) = 131408"
proof -
  have top: "arena_top 0x1000000 = 24" using bit_len_eq [of 23 "0xFFFFFF"] by (simp add: arena_top_def)
  show "arena_args_ok 0x1000000 5" by (simp add: arena_args_ok_def top)
  show "status_size 0x1000000 5 (heap_start 3) = 131408"
    using heap_base_eq(2) [of 3] by (simp add: status_size_def arena_lists_def arena_bitmap_def top)
qed


end
