(* ===== verification/Boot.thy ===== *)
theory Boot
  imports Init
begin

text \<open>
  The start of the first core as a whole: \<open>_start\<close> of \<^verbatim>\<open>kernel/src/init.rs\<close> from the loader's tables to the kernel's, with the
  stack mapped. The address space that \<open>Mapper::setup\<close> leaves is one that \<open>Mapper::map\<close> can work on.
\<close>

section \<open>The tables that setup builds\<close>

lemma tables_of_none:
  assumes "\<And>i. i < 512 \<Longrightarrow> sub_tables m n t i = []"
  shows "tables_of m (Suc n) t = [t]"
  using assms by (simp add: tables_of_Suc)

lemma new_sub_tables_entry:
  assumes "m (t + 8 * of_nat i) = u OR 3" "is_table u" "n \<noteq> 0"
  shows "sub_tables m n t i = tables_of m n u"
  using table_entry [OF assms(2)] assms(1,3) by (simp add: sub_tables_def present_def is_leaf_def)

lemma gib_leaf: "i < 512 \<Longrightarrow> bit (gib i OR 0x83) 7"
  by (simp add: bit_or_iff bit_numeral_word_iff)

lemma new_tables_of:
  assumes nt: "new_tables hi b pd m m'" and b: "block_base_ok b" and pd: "is_table pd"
    and d: "set (tables_of m 2 pd) \<inter> setup_frames b = {}" "distinct (tables_of m 2 pd)"
  shows "set (tables_of m' 4 (setup_pml4 b)) = setup_frames b \<union> set (tables_of m 2 pd)" "distinct (tables_of m' 4 (setup_pml4 b))"
proof -
  define T1 T2 T3 where "T1 = setup_pml4 b" and "T2 = setup_last_pdpt b" and "T3 = setup_offset_pdpt b"
  note T = setup_pages_ok [OF b, folded T1_def T2_def T3_def]
  note new = nt [unfolded new_tables_def, folded T1_def T2_def T3_def]
  have F: "setup_frames b = {T1, T2, T3}" by (simp add: setup_frames_def T1_def T2_def T3_def)
  have "agree m m' (set (tables_of m 2 pd))" using new d(1) unfolding agree_def F by blast
  then have p: "tables_of m' 2 pd = tables_of m 2 pd" by (rule agree_tables [OF pd])
  have "sub_tables m' 2 T2 511 = tables_of m' 2 pd" by (rule new_sub_tables_entry) (use new pd in simp_all)
  then have t2: "tables_of m' 3 T2 = T2 # tables_of m 2 pd"
    using tables_of_last [of m' T2 2] new p by (simp add: eval_nat_numeral)
  have "sub_tables m' 2 T3 i = []" if "i < 512" for i
    using new gib_leaf that by (auto simp: sub_tables_def present_def is_leaf_def split: if_splits)
  then have t3: "tables_of m' 3 T3 = [T3]" using tables_of_none [of m' 2 T3] by (simp add: eval_nat_numeral)
  have s: "sub_tables m' 3 T1 i = (if i = 256 then [T3] else if i = 511 then T2 # tables_of m 2 pd else [])" if "i < 512" for i
  proof -
    have "i = 256 \<Longrightarrow> sub_tables m' 3 T1 i = tables_of m' 3 T3" "i = 511 \<Longrightarrow> sub_tables m' 3 T1 i = tables_of m' 3 T2"
      by (rule new_sub_tables_entry; use new T in simp)+
    moreover have "sub_tables m' 3 T1 i = []" if "i \<noteq> 256" "i \<noteq> 511"
      using new that \<open>i < 512\<close> by (simp add: sub_tables_def present_def)
    ultimately show ?thesis using t2 t3 by simp
  qed
  have "set (tables_of m' (Suc 3) T1) = insert T1 (\<Union>i<512. set (sub_tables m' 3 T1 i))" by (rule set_tables)
  also have "(\<Union>i<512. set (sub_tables m' 3 T1 i)) = (\<Union>i\<in>{256, 511}. set (sub_tables m' 3 T1 i))"
  proof -
    have split: "{..<512} = {256, 511} \<union> ({..<512} - {256, 511 :: nat})" by auto
    have "(\<Union>i\<in>{..<512} - {256, 511}. set (sub_tables m' 3 T1 i)) = {}" by (simp add: s)
    then show ?thesis by (subst split) (simp only: UN_Un Un_empty_right)
  qed
  also have "\<dots> = {T3} \<union> insert T2 (set (tables_of m 2 pd))" by (simp add: s)
  finally show "set (tables_of m' 4 (setup_pml4 b)) = setup_frames b \<union> set (tables_of m 2 pd)"
    unfolding F by (simp add: T1_def eval_nat_numeral)
  have "distinct (tables_of m' (Suc 3) T1)"
    unfolding tables_distinct using d T(4-6) F by (auto simp: s)
  then show "distinct (tables_of m' 4 (setup_pml4 b))" by (simp add: T1_def eval_nat_numeral)
qed

section \<open>The new tables and the allocator share no frame\<close>

text \<open>The loader keeps its tables out of the memory that it reports as available.\<close>

definition loader_apart :: "mmap_entry list \<Rightarrow> 'a cpu_scheme \<Rightarrow> table_mem \<Rightarrow> bool" where
  "loader_apart mmap c m \<longleftrightarrow> (\<forall>f\<in>set (tables_of m 4 (old_pml4 c)). \<forall>e\<in>set mmap. frame_bytes f \<inter> entry_bytes e = {})"

lemma setup_frames_uint:
  assumes "block_base_ok b" "f \<in> setup_frames b"
  shows "2 * uint b \<le> uint f" "uint f + 0x1000 \<le> 2 * uint b + 0x3000"
proof -
  have "uint b \<le> 2 ^ 39" using assms(1) by (simp add: block_base_ok_def)
  then have "uint (setup_pml4 b) = 2 * uint b" "uint (setup_last_pdpt b) = 2 * uint b + 0x1000"
    "uint (setup_offset_pdpt b) = 2 * uint b + 0x2000"
    by (simp_all add: setup_pml4_def setup_last_pdpt_def setup_offset_pdpt_def uint_word_ariths take_bit_int_eq_self)
  then show "2 * uint b \<le> uint f" "uint f + 0x1000 \<le> 2 * uint b + 0x3000" using assms(2) by (auto simp: setup_frames_def)
qed

lemma status_pos: "0 < setup_status hi b"
proof -
  have "0 < 16 - sint (setup_mem b) mod 16" using pos_mod_bound [of 16 "sint (setup_mem b)"] by simp
  then show ?thesis by (simp add: setup_status_def status_size_def)
qed

lemma setup_frames_bytes:
  assumes "mmap_ok (uint hi) mmap" "max_by_size mmap = Some (b, sz)"
    and "uint b + 0x3000 + setup_status hi b \<le> uint sz" "f \<in> setup_frames b"
  shows "frame_bytes f \<subseteq> entry_bytes (b, sz)" "frame_bytes f \<inter> setup_free hi mmap (b, sz) = {}"
proof -
  note u = setup_frames_uint [OF mmap_block_ok(1) [OF assms(1,2)] assms(4)] and st = status_pos [of hi b]
  have "uint b \<le> uint f" using u uint_ge_0 [of b] by linarith
  then show sub: "frame_bytes f \<subseteq> entry_bytes (b, sz)"
    using u st assms(3) by (auto simp: frame_bytes_def entry_bytes_def entry_end_def)
  have "frame_bytes f \<inter> {round_up 12 (2 * uint b + 0x3000 - 2 ^ 47 + setup_status hi b) ..< y} = {}" for y
    using round_up_bounds(1) [of "2 * uint b + 0x3000 - 2 ^ 47 + setup_status hi b" 12] u st by (auto simp: frame_bytes_def)
  moreover have "frame_bytes f \<inter> entry_bytes e = {}" if "e \<in> set mmap" "fst e \<noteq> b" for e
  proof -
    have "entry_bytes e \<inter> entry_bytes (b, sz) = {}"
      using sorted_wrt_cases [of "\<lambda>e f. entry_end e \<le> uint (fst f)" mmap e "(b, sz)"] assms(1) max_by_size_mem [OF assms(2)] that
      by (cases "e = (b, sz)") (auto simp: mmap_ok_def entry_bytes_def)
    then show ?thesis using sub by blast
  qed
  ultimately show "frame_bytes f \<inter> setup_free hi mmap (b, sz) = {}" unfolding setup_free_def Int_Un_distrib fst_conv by blast
qed

lemma loader_apart_frames:
  assumes "loader_apart mmap c m" "mmap_ok (uint hi) mmap" "max_by_size mmap = Some (b, sz)"
    and "uint b + 0x3000 + setup_status hi b \<le> uint sz"
  shows "set (tables_of m 4 (old_pml4 c)) \<inter> setup_frames b = {}"
proof -
  have ne: "frame_bytes f \<noteq> {}" for f by (simp add: frame_bytes_def)
  have "frame_bytes f \<inter> entry_bytes (b, sz) = {}" if "f \<in> set (tables_of m 4 (old_pml4 c))" for f
    using assms(1) max_by_size_mem [OF assms(3)] that unfolding loader_apart_def by blast
  moreover have "frame_bytes f \<subseteq> entry_bytes (b, sz)" if "f \<in> setup_frames b" for f
    by (rule setup_frames_bytes(1) [OF assms(2-4) that])
  ultimately show ?thesis using ne by blast
qed

section \<open>The address space after setup\<close>

text \<open>The page numbers below the topmost gibibyte, in the range of the last page directory pointer table.\<close>

definition core_pages :: "int set" where
  "core_pages = {2 ^ 36 - 2 ^ 27 ..< 2 ^ 36 - 2 ^ 18}"

lemma core_pages_lidx:
  assumes "vpn l \<in> core_pages"
  shows "lidx l 4 = 511" "\<exists>i<511. lidx l 3 = of_nat i"
proof -
  define x where "x = vpn l - (2 ^ 36 - 2 ^ 27)"
  have x: "0 \<le> x" "x < 2 ^ 27 - 2 ^ 18" "vpn l = 2 ^ 36 - 2 ^ 27 + x" using assms by (auto simp: core_pages_def x_def)
  have "vpn l div 512 ^ 3 = 511" unfolding x(3) by (rule int_div_pos_eq [where r = x]) (use x in simp_all)
  then have "uint (lidx l 4) = 511" using lidx_vpn [of 4 3 l] by simp
  then show "lidx l 4 = 511" by (intro word_uint_eqI) simp
  have d: "x div 262144 < 511" "0 \<le> x div 262144" using x by (simp_all add: pos_imp_zdiv_nonneg_iff)
  have "(x + 261632 * 262144) div 262144 = 261632 + x div 262144" by (rule div_mult_self1) simp
  moreover have "(x div 262144 + 511 * 512) mod 512 = x div 262144 mod 512" by (rule mod_mult_self1)
  ultimately have "vpn l div 512 ^ 2 mod 512 = x div 262144 mod 512" unfolding x(3) by (simp add: algebra_simps)
  also have "\<dots> = x div 262144" using d by (intro mod_pos_pos_trivial) simp_all
  finally have "uint (lidx l 3) = x div 262144" using lidx_vpn [of 3 2 l] by simp
  moreover have "uint (word_of_int (x div 262144) :: u64) = x div 262144"
    unfolding uint_word_of_int_eq by (rule take_bit_int_eq_self) (use d in simp_all)
  ultimately have "lidx l 3 = of_nat (nat (x div 262144))" using d by (intro word_uint_eqI) simp
  then show "\<exists>i<511. lidx l 3 = of_nat i" using d by (intro exI [of _ "nat (x div 262144)"]) simp
qed

lemma core_pages_unmapped:
  assumes "new_tables hi b pd m m'" "block_base_ok b" "vpn l \<in> core_pages"
  shows "page_walk m' 4 (setup_pml4 b) l = None" "no_huge m' 4 (setup_pml4 b) l"
proof -
  note T = setup_pages_ok [OF assms(2)] and x = core_pages_lidx [OF assms(3)]
  have e4: "m' (entry_addr (setup_pml4 b) l (Suc 3)) = setup_last_pdpt b OR 3"
    using assms(1) x(1) by (simp add: new_tables_def entry_addr_def)
  have e3: "m' (entry_addr (setup_last_pdpt b) l (Suc 2)) = 0"
    using assms(1) x(2) by (auto simp: new_tables_def entry_addr_def)
  note te = table_entry [OF T(2)]
  have "page_walk m' (Suc 3) (setup_pml4 b) l = page_walk m' (Suc 2) (setup_last_pdpt b) l"
    using te by (simp only: page_walk.simps(2) [of m' 3] Let_def e4) (simp add: present_def is_leaf_def eval_nat_numeral)
  also have "\<dots> = None" by (simp only: page_walk.simps Let_def e3) (simp add: present_def)
  finally show "page_walk m' 4 (setup_pml4 b) l = None" by (simp add: eval_nat_numeral)
  have "no_huge m' (Suc 2) (setup_last_pdpt b) l" by (simp only: no_huge.simps Let_def e3) (simp add: present_def)
  then have "no_huge m' (Suc 3) (setup_pml4 b) l"
    using te by (simp only: no_huge.simps(2) [of m' 3] Let_def e4) (simp add: is_leaf_def eval_nat_numeral)
  then show "no_huge m' 4 (setup_pml4 b) l" by (simp add: eval_nat_numeral)
qed

text \<open>What the first core hands over to \<open>Mapper::map\<close>.\<close>

lemma mapper_setup_pml4_ok:
  assumes ok: "mmap_ok (uint hi) mmap" "max_by_size mmap = Some (b, sz)" "uint b + 0x3000 + setup_status hi b \<le> uint sz"
    and old: "top_mapped c m" "loader_apart mmap c m" "distinct (tables_of m 2 (old_last_pd c m))"
  shows "\<exists>mp c' m'. mapper_setup mmap h c m = Some (setup_pml4 b, mp, c', m') \<and> cr3_paddr (cr3_read c') = setup_pml4 b \<and>
    talloc_free (mapper_talloc mp) (setup_free hi mmap (b, sz)) \<and> pml4_ok mp (setup_pml4 b) (offset_view m') \<and>
    new_tables hi b (old_last_pd c m) m m'"
proof -
  note apart = loader_apart_frames [OF old(2) ok] and bok = mmap_block_ok(1) [OF ok(1,2)]
  from mapper_setup_result [OF ok old(1) apart, of h] obtain mp c' m' where
    r: "mapper_setup mmap h c m = Some (setup_pml4 b, mp, c', m')" "cr3_paddr (cr3_read c') = setup_pml4 b"
      "mapper_good mp" "talloc_free (mapper_talloc mp) (setup_free hi mmap (b, sz))" "new_tables hi b (old_last_pd c m) m m'"
    by blast
  have "set (tables_of m 2 (old_last_pd c m)) \<inter> setup_frames b = {}" using old_tables(3) [OF old(1)] apart by blast
  note tabs = new_tables_of [OF r(5) bok _ this old(3)]
  have pd: "is_table (old_last_pd c m)" by (simp add: old_last_pd_def)
  have "frame_bytes f \<inter> setup_free hi mmap (b, sz) = {}" if "f \<in> set (tables_of m 2 (old_last_pd c m))" for f
  proof -
    have "frame_bytes f \<inter> entry_bytes e = {}" if "e \<in> set mmap" for e
      using old(2) old_tables(3) [OF old(1)] \<open>f \<in> _\<close> that unfolding loader_apart_def by blast
    moreover have "setup_free hi mmap (b, sz) \<subseteq> (\<Union>e\<in>set mmap. entry_bytes e)"
    proof -
      have "uint b \<le> 2 * uint b + 0x3000 + setup_status hi b" using status_pos [of hi b] uint_ge_0 [of b] by linarith
      then have "uint b - 2 ^ 47 \<le> round_up 12 (2 * uint b + 0x3000 - 2 ^ 47 + setup_status hi b)"
        using round_up_bounds(1) [of "2 * uint b + 0x3000 - 2 ^ 47 + setup_status hi b" 12] by linarith
      then have "{round_up 12 (2 * uint b + 0x3000 - 2 ^ 47 + setup_status hi b) ..< entry_end (b, sz) - 2 ^ 47} \<subseteq> entry_bytes (b, sz)"
        by (auto simp: entry_bytes_def)
      then show ?thesis using max_by_size_mem [OF ok(2)] unfolding setup_free_def fst_conv by blast
    qed
    ultimately show ?thesis by blast
  qed
  then have "frame_bytes f \<inter> setup_free hi mmap (b, sz) = {}" if "f \<in> set (tables_of m' 4 (setup_pml4 b))" for f
    using that tabs(1) [OF pd] setup_frames_bytes(2) [OF ok] by blast
  moreover have "frame_bytes f \<noteq> {}" for f by (simp add: frame_bytes_def)
  ultimately have "mapper_avail mp \<inter> set (tables_of m' 4 (setup_pml4 b)) = {}"
    unfolding mapper_avail_eq [OF r(4)] by blast
  then have "pml4_ok mp (setup_pml4 b) (offset_view m')"
    using r(3) tabs(2) [OF pd] setup_pages_ok(1) [OF bok] by (simp add: pml4_ok_def)
  then show ?thesis using r by blast
qed

section \<open>Output returns\<close>

text \<open>The serial port goes on transmitting, and the terminal is in order with a font for ASCII text.\<close>

definition out_ready :: "'s io_bus \<Rightarrow> uart_port option \<Rightarrow> term1 \<Rightarrow> bool" where
  "out_ready b lock t \<longleftrightarrow> term_ok t \<and> 128 \<le> glyph_count t \<and>
     (\<forall>u s. lock = Some u \<longrightarrow> (\<exists>n. set_after b u (lsr_bits LSR_EMPTY_TRANSMITTER_HOLDING_REGISTER) n s))"

lemma print_text_returns:
  assumes "out_ready b lock (k_term k)" "\<forall>c\<in>set text. (of_char c :: nat) < 128"
  shows "\<exists>dev t m. print_text b lock text k = Some (k\<lparr>k_dev := dev, k_term := t, k_vram := m\<rparr>) \<and> out_ready b lock t"
proof -
  have "\<exists>dev. (case lock of Some u \<Rightarrow> uart_write_str b u (map of_char text) (k_dev k) | None \<Rightarrow> Some (k_dev k)) = Some dev"
  proof (cases lock)
    case (Some u)
    then have "\<exists>n. set_after b u (lsr_bits LSR_EMPTY_TRANSMITTER_HOLDING_REGISTER) n s" for s
      using assms(1) by (simp add: out_ready_def)
    from uart_write_str_Some [OF this] show ?thesis using Some by simp
  qed simp
  moreover have "glyph_count (k_term k) \<notin> set (map of_char text) - {10}" using assms by (auto simp: out_ready_def)
  then have "writes_ok (k_term k, k_vram k) (write_str (map of_char text) (k_term k, k_vram k))"
    using assms(1) by (intro write_str_writes) (simp_all add: out_ready_def)
  then obtain t m where "write_str (map of_char text) (k_term k, k_vram k) = Some (t, m)" "term_ok t" "same_screen (k_term k) t"
    by (auto simp: writes_ok_def)
  moreover from this have "out_ready b lock t" using assms(1) by (simp add: out_ready_def same_screen_def glyph_count_def)
  ultimately obtain dev where "print_text b lock text k = Some (k\<lparr>k_dev := dev, k_term := t, k_vram := m\<rparr>)"
    by (auto simp: print_text_def)
  then show ?thesis using \<open>out_ready b lock t\<close> by blast
qed

lemma println_text_returns:
  assumes "out_ready b lock (k_term k)" "\<forall>c\<in>set text. (of_char c :: nat) < 128"
  shows "\<exists>dev t m. println_text b lock text k = Some (k\<lparr>k_dev := dev, k_term := t, k_vram := m\<rparr>) \<and> out_ready b lock t"
  unfolding println_text_def by (rule print_text_returns) (use assms in simp_all)

section \<open>The first core\<close>

text \<open>The memory that the loader hands over is usable.\<close>

definition boot_memory_ok :: "mmap_entry list \<Rightarrow> usize \<Rightarrow> mmap_entry \<Rightarrow> 'a cpu_scheme \<Rightarrow> table_mem \<Rightarrow> bool" where
  "boot_memory_ok mmap hi lgst c m \<longleftrightarrow> mmap_ok (uint hi) mmap \<and> max_by_size mmap = Some lgst \<and>
     uint (fst lgst) + 0x3000 + setup_status hi (fst lgst) \<le> uint (snd lgst) \<and>
     top_mapped c m \<and> loader_apart mmap c m \<and> distinct (tables_of m 2 (old_last_pd c m))"

text \<open>The page attribute table is not part of it.\<close>

lemma pat_write_cr3 [simp]: "cr3 (pat_write p c) = cr3 c"
  by (simp add: pat_write_def wrmsr_def Let_def split: prod.splits)

lemma boot_memory_cr3:
  assumes "cr3 c' = cr3 c"
  shows "boot_memory_ok mmap hi lgst c' m = boot_memory_ok mmap hi lgst c m" "old_pml4 c' = old_pml4 c" "old_last_pd c' m = old_last_pd c m"
  using assms by (simp_all add: boot_memory_ok_def top_mapped_def loader_apart_def old_last_pd_def old_last_pdpt_def old_pml4_def)

text \<open>What \<open>start_bsp\<close> leaves, whether or not its output returns.\<close>

definition setup_done :: "usize \<Rightarrow> mmap_entry list \<Rightarrow> mmap_entry \<Rightarrow> 'a cpu_scheme \<Rightarrow> table_mem \<Rightarrow> mapper \<Rightarrow> table_mem \<Rightarrow> bool" where
  "setup_done hi mmap lgst c m mp m' \<longleftrightarrow> pml4_ok mp (setup_pml4 (fst lgst)) m' \<and>
     talloc_free (mapper_talloc mp) (setup_free hi mmap lgst) \<and> new_tables hi (fst lgst) (old_last_pd c m) m (phys m')"

lemma mapper_setup_done:
  assumes "boot_memory_ok mmap hi lgst c m"
  shows "\<exists>mp c' m'. mapper_setup mmap h c m = Some (setup_pml4 (fst lgst), mp, c', m') \<and>
    setup_done hi mmap lgst c m mp (offset_view m')"
proof -
  obtain b sz where l: "lgst = (b, sz)" by fastforce
  have "\<exists>mp c' m'. mapper_setup mmap h c m = Some (setup_pml4 b, mp, c', m') \<and> cr3_paddr (cr3_read c') = setup_pml4 b \<and>
    talloc_free (mapper_talloc mp) (setup_free hi mmap (b, sz)) \<and> pml4_ok mp (setup_pml4 b) (offset_view m') \<and>
    new_tables hi b (old_last_pd c m) m m'"
    by (rule mapper_setup_pml4_ok) (use assms in \<open>simp_all add: boot_memory_ok_def l\<close>)
  then show ?thesis unfolding setup_done_def l by auto
qed

lemma print_text_keeps:
  assumes "print_text b lock text k = Some k'"
  shows "k_cpu k' = k_cpu k" "k_cfg k' = k_cfg k" "k_mapper k' = k_mapper k" "k_tables k' = k_tables k"
  using assms by (auto simp: print_text_def bind_eq_Some_conv)

lemma start_bsp_result:
  assumes run: "start_bsp b lock hdr entries env h (pm, k) = Some (pml4, pm', k')"
    and cfg: "init_boot_cfg (map (\<lambda>x. char_of (unat x)) (env_cfg_as_str env)) (k_cfg k) = Some cfg"
    and mm: "mmap_available_iter hdr entries pm = Some (mmap, pm)" "boot_memory_ok mmap hi lgst (k_cpu k) (k_tables k)"
  shows "pml4 = setup_pml4 (fst lgst)" "pm' = pm" "k_cfg k' = cfg" "setup_done hi mmap lgst (k_cpu k) (k_tables k) (k_mapper k') (k_tables k')"
proof -
  obtain mp c' m' where s: "mapper_setup mmap h (k_cpu k) (k_tables k) = Some (setup_pml4 (fst lgst), mp, c', m')"
    "setup_done hi mmap lgst (k_cpu k) (k_tables k) mp (offset_view m')" using mapper_setup_done [OF mm(2), of h] by blast
  obtain t k1 k2 where p: "println_text b lock ''[BSP] KERNEL _START! '' (k\<lparr>k_term := t\<rparr>) = Some k1"
    "print_text b lock [char_of (31 :: nat)] k1 = Some k2"
    and r: "do { cfg \<leftarrow> init_boot_cfg (map (\<lambda>x. char_of (unat x)) (env_cfg_as_str env)) (k_cfg k2);
      let k = k2\<lparr>k_cfg := cfg\<rparr>; (mmap, pm) \<leftarrow> mmap_available_iter hdr entries pm;
      (pml4, mp, c, m) \<leftarrow> mapper_setup mmap h (k_cpu k) (k_tables k);
      Some (pml4, pm, k\<lparr>k_cpu := c, k_mapper := mp, k_tables := offset_view m\<rparr>) } = Some (pml4, pm', k')"
    using run by (auto simp: start_bsp_def Let_def bind_eq_Some_conv)
  have k2: "k_cfg k2 = k_cfg k" "k_cpu k2 = k_cpu k" "k_tables k2 = k_tables k"
    using print_text_keeps [OF p(1) [unfolded println_text_def]] print_text_keeps [OF p(2)] by simp_all
  from r have "pml4 = setup_pml4 (fst lgst) \<and> pm' = pm \<and> k' = k2\<lparr>k_cfg := cfg, k_cpu := c', k_mapper := mp, k_tables := offset_view m'\<rparr>"
    by (simp add: k2 cfg mm(1) s(1))
  then show "pml4 = setup_pml4 (fst lgst)" "pm' = pm" "k_cfg k' = cfg"
    "setup_done hi mmap lgst (k_cpu k) (k_tables k) (k_mapper k') (k_tables k')" using s(2) by simp_all
qed

lemma start_bsp_returns:
  assumes t: "start_term hdr (k_term k) = Some t" "out_ready b lock t"
    and cfg: "init_boot_cfg (map (\<lambda>x. char_of (unat x)) (env_cfg_as_str env)) (k_cfg k) = Some cfg"
    and mm: "mmap_available_iter hdr entries pm = Some (mmap, pm)" "boot_memory_ok mmap hi lgst (k_cpu k) (k_tables k)"
  shows "\<exists>k'. start_bsp b lock hdr entries env h (pm, k) = Some (setup_pml4 (fst lgst), pm, k') \<and> k_cfg k' = cfg \<and>
    setup_done hi mmap lgst (k_cpu k) (k_tables k) (k_mapper k') (k_tables k')"
proof -
  let ?k = "k\<lparr>k_term := t\<rparr>"
  have r: "out_ready b lock (k_term ?k)" using t(2) by simp
  obtain d1 t1 v1 where p1: "println_text b lock ''[BSP] KERNEL _START! '' ?k = Some (?k\<lparr>k_dev := d1, k_term := t1, k_vram := v1\<rparr>)"
    "out_ready b lock t1" using println_text_returns [OF r, of "''[BSP] KERNEL _START! ''"] by (elim meta_impE exE conjE) simp_all
  let ?k1 = "?k\<lparr>k_dev := d1, k_term := t1, k_vram := v1\<rparr>"
  have r1: "out_ready b lock (k_term ?k1)" using p1(2) by simp
  obtain d2 t2 v2 where p2: "print_text b lock [char_of (31 :: nat)] ?k1 = Some (?k1\<lparr>k_dev := d2, k_term := t2, k_vram := v2\<rparr>)"
    using print_text_returns [OF r1, of "[char_of (31 :: nat)]"] by (elim meta_impE exE conjE) simp_all
  obtain mp c' m' where s: "mapper_setup mmap h (k_cpu k) (k_tables k) = Some (setup_pml4 (fst lgst), mp, c', m')"
    using mapper_setup_done [OF mm(2), of h] by blast
  have "\<exists>k'. start_bsp b lock hdr entries env h (pm, k) = Some (setup_pml4 (fst lgst), pm, k')"
    using t(1) p1(1) p2 cfg mm(1) s by (simp add: start_bsp_def Let_def)
  then show ?thesis using start_bsp_result [OF _ cfg mm] by metis
qed

lemma stack_core_pages: "uint ticket < 128 \<Longrightarrow> {stack_top ticket - 1023 ..< stack_top ticket} \<subseteq> core_pages"
  using uint_ge_0 [of ticket] by (auto simp: stack_top_def core_pages_def)

lemma not_core_pages:
  "uint p < 2 ^ 39 \<Longrightarrow> vpn (p + PHYS_LADDR_OFFSET) \<notin> core_pages" "2 ^ 64 - 2 ^ 30 \<le> uint l \<Longrightarrow> vpn l \<notin> core_pages"
proof -
  show "vpn (p + PHYS_LADDR_OFFSET) \<notin> core_pages" if "uint p < 2 ^ 39"
    using offset_lidx(1) [OF that] core_pages_lidx(1) [of "p + PHYS_LADDR_OFFSET"] by auto
  show "vpn l \<notin> core_pages" if top: "2 ^ 64 - 2 ^ 30 \<le> uint l"
  proof
    assume "vpn l \<in> core_pages"
    from core_pages_lidx(2) [OF this] obtain i where i: "i < 511" "(of_nat i :: u64) = 511" using top_lidx(2) [OF top] by auto
    from i(1) have "uint (of_nat i :: u64) = int i" by (simp add: unsigned_of_nat take_bit_nat_eq_self)
    then show False using i by simp
  qed
qed

text \<open>A mapping of pages of cores keeps the other translations.\<close>

lemma map_effect_walk:
  assumes "map_effect 4 t 0 S A W A' W'" "vpn l \<notin> S"
  shows "page_walk W' 4 t l = page_walk W 4 t l" "no_huge W' 4 t l = no_huge W 4 t l"
  using assms vpn_top [of l] by (auto simp: map_effect_def eval_nat_numeral)

lemma map_effect_maps:
  assumes "map_effect 4 t 0 S A W A' W'" "vpn l \<in> S"
  shows "maps_to W' 4 t (A - A') l"
  using assms vpn_top [of l] by (auto simp: map_effect_def eval_nat_numeral)

lemma maps_to_mono: "maps_to W n t F l \<Longrightarrow> F \<subseteq> G \<Longrightarrow> maps_to W n t G l"
  by (auto simp: maps_to_def)

text \<open>Mapping pages of cores in the address space after setup.\<close>

lemma core_mapping_walks:
  assumes m: "boot_memory_ok mmap hi lgst c m" and nt: "new_tables hi (fst lgst) (old_last_pd c m) m W"
    and e: "map_effect 4 (setup_pml4 (fst lgst)) 0 S A W A' W'" "S \<subseteq> core_pages"
  shows "uint p < uint hi \<Longrightarrow> page_walk W' 4 (setup_pml4 (fst lgst)) (p + PHYS_LADDR_OFFSET) = Some p"
    "2 ^ 64 - 2 ^ 30 \<le> uint l \<Longrightarrow> page_walk W' 4 (setup_pml4 (fst lgst)) l = page_walk m 4 (old_pml4 c) l"
    "vpn l \<in> core_pages - S \<Longrightarrow> page_walk W' 4 (setup_pml4 (fst lgst)) l = None"
proof -
  have m': "mmap_ok (uint hi) mmap" "max_by_size mmap = Some (fst lgst, snd lgst)" "top_mapped c m"
    "loader_apart mmap c m" "uint (fst lgst) + 0x3000 + setup_status hi (fst lgst) \<le> uint (snd lgst)"
    using m by (simp_all add: boot_memory_ok_def)
  note bok = mmap_block_ok(1,2) [OF m'(1,2)] and keep = map_effect_walk(1) [OF e(1)]
  note w = new_tables_walks [OF nt bok m'(3) loader_apart_frames [OF m'(4,1,2,5)]]
  show "page_walk W' 4 (setup_pml4 (fst lgst)) (p + PHYS_LADDR_OFFSET) = Some p" if "uint p < uint hi"
    using keep [of "p + PHYS_LADDR_OFFSET"] w(1) [OF that] not_core_pages(1) [of p] that bok(2) e(2) by auto
  show "page_walk W' 4 (setup_pml4 (fst lgst)) l = page_walk m 4 (old_pml4 c) l" if "2 ^ 64 - 2 ^ 30 \<le> uint l"
    using keep [of l] w(2) [OF that] not_core_pages(2) [OF that] e(2) by auto
  show "page_walk W' 4 (setup_pml4 (fst lgst)) l = None" if "vpn l \<in> core_pages - S"
    using keep [of l] core_pages_unmapped(1) [OF nt bok(1), of l] that by auto
qed


text \<open>A machine with 17 MiB, a tiny screen, a font for ASCII, no serial port and an empty configuration.\<close>

definition ascii_term :: term1 where
  "ascii_term = small_term\<lparr>term_font := \<lparr>font_header = (font_header small_font)\<lparr>psf_glyph_count := 128\<rparr>, font_data = replicate 288 0x80\<rparr>\<rparr>"

definition boot_hdr :: bootboot_hdr where
  "boot_hdr = demo_hdr\<lparr>bb_size := 176, bb_fb_type := FB_ARGB, bb_fb_width := 4, bb_fb_height := 4, bb_fb_scanline := 16\<rparr>"

definition boot_entries :: "mmap_entry_rec list" where
  "boot_entries = [\<lparr>mmap_ptr = 0x4000, mmap_data = 0x9B001\<rparr>, \<lparr>mmap_ptr = 0x100000, mmap_data = 0x1000001\<rparr>]"

definition boot_bytes :: phys_bytes where
  "boot_bytes = \<lparr>byte_at = \<lambda>_. 0, writable = \<lambda>_. True\<rparr>"

lemma boot_demo_out: "\<exists>t. start_term boot_hdr ascii_term = Some t \<and> out_ready b None t"
  by (simp add: start_term_def boot_hdr_def fb_format_of_def FB_ARGB_def FB_ABGR_def fb_new_def chk_def ascii_term_def small_term_def
      small_font_def out_ready_def term_ok_def font_ok_def fb_ok_def font_h_def font_w_def glyph_count_def)

lemma boot_demo_cfg: "init_boot_cfg (map (\<lambda>x. char_of (unat x)) (env_cfg_as_str (\<lambda>_. 0))) cfg_initial = Some (cfg_initial\<lparr>cfg_sync_state := 2\<rparr>)"
proof -
  have "env_cfg_as_str (\<lambda>_. 0) = []" by (simp add: env_cfg_as_str_def env_len_loop.simps)
  moreover have "init_boot_cfg [] cfg_initial = Some (cfg_initial\<lparr>cfg_sync_state := 2\<rparr>)" by code_simp
  ultimately show ?thesis by simp
qed

lemma boot_demo_mmap:
  "BOOTBOOT_SIZE \<le> ucast (bb_size boot_hdr)"
  "demo_mmap = map (\<lambda>e. (mmap_ptr e, mmap_data e AND MMAP_DATA_SIZE_MASK))
     (filter (usable boot_bytes) (take ((unat (bb_size boot_hdr) - 144) div 16) boot_entries))"
  by (simp_all add: BOOTBOOT_SIZE_def boot_hdr_def demo_hdr_def demo_mmap_def boot_entries_def usable_def is_free_def boot_bytes_def
      MMAP_FREE_def MMAP_DATA_SIZE_MASK_def take_Cons')

lemma boot_demo_memory: "cr3 c = 0x1000 \<Longrightarrow> boot_memory_ok demo_mmap 0x1100000 (0x100000, 0x1000000) c demo_boot_tables"
proof -
  assume "cr3 c = 0x1000"
  then have eq: "cr3 c = cr3 demo_cpu" by (simp add: demo_cpu_def)
  have o: "old_pml4 demo_cpu = 0x1000" by (simp add: old_pml4_def demo_cpu_def BASE_MASK_def)
  then have "old_last_pdpt demo_cpu demo_boot_tables = 0x2000" by (simp add: old_last_pdpt_def demo_boot_tables_def BASE_MASK_def)
  then have pd: "old_last_pd demo_cpu demo_boot_tables = 0x3000" by (simp add: old_last_pd_def demo_boot_tables_def BASE_MASK_def)
  have "loader_apart demo_mmap demo_cpu demo_boot_tables"
    unfolding loader_apart_def o demo_setup_tables(1) by (auto simp: demo_mmap_def frame_bytes_def entry_bytes_def entry_end_def)
  then have "boot_memory_ok demo_mmap 0x1100000 (0x100000, 0x1000000) demo_cpu demo_boot_tables"
    using demo_setup demo_setup_tables(2) pd by (simp add: boot_memory_ok_def)
  then show ?thesis using boot_memory_cr3(1) [OF eq] by blast
qed


end
