(* ===== verification/Cores.thy ===== *)
theory Cores
  imports Boot Init_Heap
begin

text \<open>
  All cores together: each executes \<open>_start\<close> and \<open>init\<close> of \<^verbatim>\<open>kernel/src/init.rs\<close>, and their steps interleave. A step is what a
  core does between two accesses to shared state: drawing a ticket from one of the two counters, the setup by the first
  core, the poll of the address that the first core stores, and each use of the mapper or the terminal under its lock. A
  core that panics takes no further step; the locks that it holds then are held for ever, so the others may be stopped
  earlier than here. The run of a core ends before the test interrupts and the halt at the end of \<open>init\<close>.
\<close>

section \<open>The machine\<close>

text \<open>What the cores find: the devices, the loader's data, and the parameters of the model of a single core.\<close>

record 's boot_env =
  be_bus :: "'s io_bus"
  be_uart :: "uart_port option"
  be_hdr :: bootboot_hdr
  be_entries :: "mmap_entry_rec list"
  be_env :: "ptr \<Rightarrow> u8"
  be_nodes :: "unit node_heap"
  be_oom :: oom_handler
  be_layout :: layout
  be_bytes :: "ptr \<Rightarrow> u8"
  be_isr :: isr_addrs
  be_greeting :: "usize \<Rightarrow> string"

text \<open>Where a core is, with the ticket of \<open>_start\<close> and then that of \<open>init\<close>.\<close>

datatype core_pc = AtEntry | AtSetup | AtWait usize | AtStack usize | AtInit usize | AtGreet usize usize | AtHeap usize usize
  | AtTables usize usize tallock | AtHalt usize usize

record 's machine =
  thread_ticket :: usize
  init_ticket :: usize
  is_mapper_initd :: usize
  pcs :: "nat \<Rightarrow> core_pc"
  cpus :: "nat \<Rightarrow> seg_cpu"
  loader_mem :: phys_bytes
  krnl :: "'s kernel"

text \<open>The kernel as core \<open>c\<close> sees it, with its own registers; and the machine after a step of that core.\<close>

definition on_core :: "nat \<Rightarrow> 's machine \<Rightarrow> 's kernel" where
  "on_core c s = (krnl s)\<lparr>k_cpu := cpus s c\<rparr>"

definition goes_to :: "nat \<Rightarrow> core_pc \<Rightarrow> 's kernel \<Rightarrow> 's machine \<Rightarrow> 's machine" where
  "goes_to c pc k s = s\<lparr>pcs := (pcs s)(c := pc), cpus := (cpus s)(c := k_cpu k), krnl := k\<rparr>"

text \<open>One step of core \<open>c\<close>. The lock of the serial port is tried anew for each text.\<close>

definition core_next :: "'s boot_env \<Rightarrow> uart_port option \<Rightarrow> nat \<Rightarrow> 's machine \<Rightarrow> 's machine option" where
  "core_next E lock c s = (let k = on_core c s in
     case pcs s c of
       AtEntry \<Rightarrow>
         let k = k\<lparr>k_cpu := pat_write KRNL_DEFAULT_PAT (k_cpu k)\<rparr>; ticket = thread_ticket s
         in Some ((goes_to c (if ticket = 0 then AtSetup else AtWait ticket) k s)\<lparr>thread_ticket := ticket + 1\<rparr>)
     | AtSetup \<Rightarrow> do {
         (pml4, pm, k) \<leftarrow> start_bsp (be_bus E) lock (be_hdr E) (be_entries E) (be_env E) (be_nodes E) (loader_mem s, k);
         Some ((goes_to c (AtStack 0) k s)\<lparr>loader_mem := pm, is_mapper_initd := pml4\<rparr>)
       }
     | AtWait ticket \<Rightarrow> Some (if is_mapper_initd s = - 1 then s else goes_to c (AtStack ticket) k s)
     | AtStack ticket \<Rightarrow> do {
         (rsp, k) \<leftarrow> start_core ticket (is_mapper_initd s) k;
         Some (goes_to c (AtInit ticket) k s)
       }
     | AtInit ticket \<Rightarrow> Some ((goes_to c (AtGreet ticket (init_ticket s)) k s)\<lparr>init_ticket := init_ticket s + 1\<rparr>)
     | AtGreet ticket i \<Rightarrow> do {
         k \<leftarrow> println_text (be_bus E) lock (be_greeting E i) k;
         Some (goes_to c (AtHeap ticket i) k s)
       }
     | AtHeap ticket i \<Rightarrow> do {
         (p, tk, k) \<leftarrow> allocator_setup (be_oom E) (be_layout E) i (be_nodes E) (be_bytes E) k;
         Some (goes_to c (AtTables ticket i tk) k s)
       }
     | AtTables ticket i tk \<Rightarrow> do {
         (st, tk, cpu) \<leftarrow> setup_sys_tables (be_oom E) (be_isr E) tk (k_cpu k);
         Some (goes_to c (AtHalt ticket i) (k\<lparr>k_cpu := cpu\<rparr>) s)
       }
     | AtHalt ticket i \<Rightarrow> None)"

text \<open>The interleavings of \<open>n\<close> cores.\<close>

inductive core_run :: "'s boot_env \<Rightarrow> nat \<Rightarrow> 's machine \<Rightarrow> 's machine \<Rightarrow> bool" for E n where
  start: "core_run E n s s"
| step: "core_run E n s s' \<Longrightarrow> c < n \<Longrightarrow> lock \<in> {None, be_uart E} \<Longrightarrow> core_next E lock c s' = Some s'' \<Longrightarrow> core_run E n s s''"

text \<open>
  The steps of one core that is not interrupted by others are those of \<open>start\<close> and \<open>core_init\<close>, in that order, once it
  need not wait.
\<close>

primrec core_steps :: "'s boot_env \<Rightarrow> uart_port option \<Rightarrow> nat \<Rightarrow> nat \<Rightarrow> 's machine \<Rightarrow> 's machine option" where
  "core_steps E lock c 0 s = Some s"
| "core_steps E lock c (Suc n) s = Option.bind (core_next E lock c s) (core_steps E lock c n)"

lemma goes_to_simps [simp]:
  "pcs (goes_to c pc k s) c = pc" "on_core c (goes_to c pc k s) = k" "krnl (goes_to c pc k s) = k"
  "thread_ticket (goes_to c pc k s) = thread_ticket s" "init_ticket (goes_to c pc k s) = init_ticket s"
  "is_mapper_initd (goes_to c pc k s) = is_mapper_initd s" "loader_mem (goes_to c pc k s) = loader_mem s"
  by (simp_all add: goes_to_def on_core_def)

lemma on_core_simps [simp]:
  "on_core c (s\<lparr>thread_ticket := x\<rparr>) = on_core c s" "on_core c (s\<lparr>init_ticket := x\<rparr>) = on_core c s"
  "on_core c (s\<lparr>loader_mem := pm, is_mapper_initd := x\<rparr>) = on_core c s"
  by (simp_all add: on_core_def)

lemma core_steps_init:
  assumes "pcs s c = AtInit t"
  shows "map_option (\<lambda>s. (loader_mem s, krnl s)) (core_steps E lock c 4 s) = do {
    (p, st, tk, k) \<leftarrow> core_init (be_bus E) lock (be_oom E) (be_layout E) (be_isr E) (be_greeting E (init_ticket s)) (init_ticket s)
      (be_nodes E) (be_bytes E) (on_core c s);
    Some (loader_mem s, k) }"
  using assms by (simp add: eval_nat_numeral core_next_def Let_def core_init_def split: Option.bind_split prod.splits)

lemma core_steps_stack:
  assumes "pcs s c = AtStack t"
  shows "map_option (\<lambda>s. (loader_mem s, krnl s)) (core_steps E lock c 5 s) = do {
    (rsp, k) \<leftarrow> start_core t (is_mapper_initd s) (on_core c s);
    (p, st, tk, k) \<leftarrow> core_init (be_bus E) lock (be_oom E) (be_layout E) (be_isr E) (be_greeting E (init_ticket s)) (init_ticket s)
      (be_nodes E) (be_bytes E) k;
    Some (loader_mem s, k) }"
proof -
  have five: "core_steps E lock c 5 s = Option.bind (core_next E lock c s) (core_steps E lock c 4)" by (simp add: eval_nat_numeral)
  show ?thesis unfolding five using assms
    by (cases "start_core t (is_mapper_initd s) (on_core c s)")
      (auto simp: core_next_def Let_def core_steps_init [where t = t])
qed

lemma core_steps_start:
  assumes "pcs s c = AtEntry" "thread_ticket s = 0 \<or> is_mapper_initd s \<noteq> - 1"
  shows "map_option (\<lambda>s. (loader_mem s, krnl s)) (core_steps E lock c 7 s) = do {
    (rsp, pm, k) \<leftarrow> start (be_bus E) lock (be_hdr E) (be_entries E) (be_env E) (be_nodes E) (thread_ticket s) (is_mapper_initd s)
      (loader_mem s, on_core c s);
    (p, st, tk, k) \<leftarrow> core_init (be_bus E) lock (be_oom E) (be_layout E) (be_isr E) (be_greeting E (init_ticket s)) (init_ticket s)
      (be_nodes E) (be_bytes E) k;
    Some (pm, k) }"
proof -
  let ?k = "(on_core c s)\<lparr>k_cpu := pat_write KRNL_DEFAULT_PAT (k_cpu (on_core c s))\<rparr>"
  have seven: "core_steps E lock c 7 s = do { s \<leftarrow> core_next E lock c s; s \<leftarrow> core_next E lock c s; core_steps E lock c 5 s }"
    by (auto simp: eval_nat_numeral split: Option.bind_split)
  show ?thesis
  proof (cases "thread_ticket s = 0")
    case True
    then show ?thesis unfolding seven using assms(1)
      by (cases "start_bsp (be_bus E) lock (be_hdr E) (be_entries E) (be_env E) (be_nodes E) (loader_mem s, ?k)")
        (auto simp: core_next_def Let_def start_def core_steps_stack [where t = 0] split: prod.splits Option.bind_split)
  next
    case False
    then show ?thesis unfolding seven using assms
      by (auto simp: core_next_def Let_def start_def core_steps_stack [where t = "thread_ticket s"] split: prod.splits Option.bind_split)
  qed
qed

section \<open>The pages of a core\<close>

definition stack_pages :: "usize \<Rightarrow> int set" where
  "stack_pages ticket = {stack_top ticket - 1023 ..< stack_top ticket}"

definition heap_pages :: "usize \<Rightarrow> usize \<Rightarrow> int set" where
  "heap_pages sz i = {heap_page i ..< heap_page i + map_pages sz}"

lemma heap_page_eq: "heap_page i = 68718952448 - 262144 * uint i"
  by (simp add: heap_page_def)

lemma stack_top_eq: "stack_top t = 68719214592 - 1024 * uint t"
  by (simp add: stack_top_def)

text \<open>The spans of different tickets are disjoint, and the heaps end below the stacks.\<close>

lemma spans_disjoint:
  assumes "uint t < 128" "uint t' < 128"
  shows "t \<noteq> t' \<Longrightarrow> stack_pages t \<inter> stack_pages t' = {}"
    "t \<noteq> t' \<Longrightarrow> map_pages sz \<le> 0x40000 \<Longrightarrow> heap_pages sz t \<inter> heap_pages sz t' = {}"
    "map_pages sz \<le> 0x20000 \<Longrightarrow> stack_pages t \<inter> heap_pages sz t' = {}"
proof -
  have ge: "0 \<le> uint t" "0 \<le> uint t'" by simp_all
  show "stack_pages t \<inter> stack_pages t' = {}" "map_pages sz \<le> 0x40000 \<Longrightarrow> heap_pages sz t \<inter> heap_pages sz t' = {}" if "t \<noteq> t'"
  proof -
    have "uint t \<noteq> uint t'" using that by (simp add: word_uint_eq_iff)
    then have "uint t + 1 \<le> uint t' \<or> uint t' + 1 \<le> uint t" by linarith
    then show "stack_pages t \<inter> stack_pages t' = {}" "map_pages sz \<le> 0x40000 \<Longrightarrow> heap_pages sz t \<inter> heap_pages sz t' = {}"
      by (auto simp: stack_pages_def heap_pages_def stack_top_def heap_page_def)
  qed
  show "stack_pages t \<inter> heap_pages sz t' = {}" if "map_pages sz \<le> 0x20000"
  proof -
    have "heap_page t' + map_pages sz \<le> stack_top t - 1023"
      unfolding heap_page_eq stack_top_eq using that assms ge by linarith
    then show ?thesis by (auto simp: stack_pages_def heap_pages_def)
  qed
qed

lemma spans_core_pages:
  assumes "uint t < 128"
  shows "stack_pages t \<subseteq> core_pages" "map_pages sz \<le> 0x40000 \<Longrightarrow> heap_pages sz t \<subseteq> core_pages"
proof -
  show "stack_pages t \<subseteq> core_pages" using stack_core_pages [OF assms] by (simp add: stack_pages_def)
  have p: "2 ^ 36 = (68719476736 :: int)" "2 ^ 27 = (134217728 :: int)" "2 ^ 18 = (262144 :: int)" by simp_all
  assume "map_pages sz \<le> 0x40000"
  then have "2 ^ 36 - 2 ^ 27 \<le> heap_page t" "heap_page t + map_pages sz \<le> 2 ^ 36 - 2 ^ 18"
    unfolding heap_page_eq p using assms uint_ge_0 [of t] by linarith+
  then show "heap_pages sz t \<subseteq> core_pages" by (auto simp: heap_pages_def core_pages_def)
qed

section \<open>The shared address space\<close>

text \<open>
  The pages \<open>M\<close> are mapped, each to a frame of its own that is not available any more; the other pages of cores can
  still be mapped; and physical memory is at the offset.
\<close>

definition space_ok :: "usize \<Rightarrow> u64 \<Rightarrow> int set \<Rightarrow> mapper \<Rightarrow> table_mem \<Rightarrow> bool" where
  "space_ok hi t M mp m \<longleftrightarrow> pml4_ok mp t m \<and>
     (\<forall>l. vpn l \<in> M \<longrightarrow> (\<exists>p. page_walk (phys m) 4 t l = Some p \<and> frame p \<notin> mapper_avail mp)) \<and>
     (\<forall>k l p q. vpn k \<in> M \<longrightarrow> vpn l \<in> M \<longrightarrow> vpn k \<noteq> vpn l \<longrightarrow>
        page_walk (phys m) 4 t k = Some p \<longrightarrow> page_walk (phys m) 4 t l = Some q \<longrightarrow> frame p \<noteq> frame q) \<and>
     (\<forall>l. vpn l \<in> core_pages - M \<longrightarrow> no_huge (phys m) 4 t l) \<and>
     (\<forall>p. uint p < uint hi \<longrightarrow> page_walk (phys m) 4 t (p + PHYS_LADDR_OFFSET) = Some p)"

lemma space_okD:
  assumes "space_ok hi t M mp m"
  shows "pml4_ok mp t m" "vpn l \<in> M \<Longrightarrow> \<exists>p. page_walk (phys m) 4 t l = Some p \<and> frame p \<notin> mapper_avail mp"
    "vpn k \<in> M \<Longrightarrow> vpn l \<in> M \<Longrightarrow> vpn k \<noteq> vpn l \<Longrightarrow> page_walk (phys m) 4 t k = Some p \<Longrightarrow> page_walk (phys m) 4 t l = Some q \<Longrightarrow> frame p \<noteq> frame q"
    "vpn l \<in> core_pages \<Longrightarrow> vpn l \<notin> M \<Longrightarrow> no_huge (phys m) 4 t l"
    "uint x < uint hi \<Longrightarrow> page_walk (phys m) 4 t (x + PHYS_LADDR_OFFSET) = Some x"
  using assms unfolding space_ok_def by blast+

lemma space_ok_map:
  assumes sp: "space_ok hi t M mp m" and hi: "uint hi \<le> 2 ^ 39" and ok: "pml4_ok mp' t m'" and S: "S \<subseteq> core_pages" "S \<inter> M = {}"
    and e: "map_effect 4 t 0 S (mapper_avail mp) (phys m) (mapper_avail mp') (phys m')"
  shows "space_ok hi t (M \<union> S) mp' m'"
proof -
  note keep = map_effect_walk [OF e] and maps = map_effect_maps [OF e]
  have sub: "mapper_avail mp' \<subseteq> mapper_avail mp" using e by (simp add: map_effect_def)
  have in_S: "\<exists>p. page_walk (phys m') 4 t l = Some p \<and> frame p \<in> mapper_avail mp - mapper_avail mp'" if "vpn l \<in> S" for l
    using maps [OF that] by (auto simp: maps_to_def)
  have in_M: "\<exists>p. page_walk (phys m') 4 t l = Some p \<and> frame p \<notin> mapper_avail mp" if "vpn l \<in> M" for l
  proof -
    have "vpn l \<notin> S" using that S(2) by blast
    then show ?thesis using space_okD(2) [OF sp that] keep(1) by simp
  qed
  have "frame p \<noteq> frame q" if kl: "vpn k \<in> M \<union> S" "vpn l \<in> M \<union> S" "vpn k \<noteq> vpn l"
    "page_walk (phys m') 4 t k = Some p" "page_walk (phys m') 4 t l = Some q" for k l p q
  proof -
    consider "vpn k \<in> M" "vpn l \<in> M" | "vpn k \<in> S" "vpn l \<in> S" | "vpn k \<in> M" "vpn l \<in> S" | "vpn k \<in> S" "vpn l \<in> M" using kl by blast
    then show ?thesis
    proof cases
      case 1
      then have "vpn k \<notin> S" "vpn l \<notin> S" using S(2) by blast+
      then show ?thesis using space_okD(3) [OF sp 1 kl(3)] kl(4,5) keep(1) by simp
    next
      case 2
      then show ?thesis using e kl vpn_top [of k] vpn_top [of l] by (auto simp: map_effect_def eval_nat_numeral)
    next
      case 3
      then show ?thesis using in_M [of k] in_S [of l] kl by auto
    next
      case 4
      then show ?thesis using in_S [of k] in_M [of l] kl by auto
    qed
  qed
  moreover have "\<exists>p. page_walk (phys m') 4 t l = Some p \<and> frame p \<notin> mapper_avail mp'" if "vpn l \<in> M \<union> S" for l
    using in_S [of l] in_M [of l] that sub by auto
  moreover have "no_huge (phys m') 4 t l" if "vpn l \<in> core_pages - (M \<union> S)" for l
    using that space_okD(4) [OF sp, of l] keep(2) [of l] by simp
  moreover have "page_walk (phys m') 4 t (p + PHYS_LADDR_OFFSET) = Some p" if "uint p < uint hi" for p
  proof -
    have "vpn (p + PHYS_LADDR_OFFSET) \<notin> S" using not_core_pages(1) [of p] that hi S(1) by auto
    then show ?thesis using space_okD(5) [OF sp that] keep(1) by simp
  qed
  ultimately show ?thesis using ok by (simp add: space_ok_def)
qed

text \<open>The pages of the stack that are mapped.\<close>

definition stack_mapped :: "usize \<Rightarrow> int set" where
  "stack_mapped ticket = stack_pages ticket - {stack_top ticket - 512}"

lemma start_core_space:
  assumes sp: "space_ok hi t M (k_mapper k) (k_tables k)" and hi: "uint hi \<le> 2 ^ 39" and tk: "uint ticket < 128"
    and dis: "stack_pages ticket \<inter> M = {}" and run: "start_core ticket t k = Some (rsp, k')"
  shows "space_ok hi t (M \<union> stack_mapped ticket) (k_mapper k') (k_tables k')" "cr3_paddr (cr3_read (k_cpu k')) = t" "k_cfg k' = k_cfg k"
proof -
  have sub: "stack_pages ticket \<subseteq> core_pages" by (rule spans_core_pages(1) [OF tk])
  have nh: "no_huge (phys (k_tables k)) 4 t l" if "vpn l \<in> {stack_top ticket - 1023 ..< stack_top ticket}" for l
    using that space_okD(4) [OF sp, of l] sub dis unfolding stack_pages_def by blast
  note r = start_core_result [OF tk space_okD(1) [OF sp] nh]
  show "cr3_paddr (cr3_read (k_cpu k')) = t" using r run by simp
  show "space_ok hi t (M \<union> stack_mapped ticket) (k_mapper k') (k_tables k')"
    by (rule space_ok_map [OF sp hi]) (use r run sub dis in \<open>auto simp: stack_mapped_def stack_pages_def\<close>)
  show "k_cfg k' = k_cfg k" using run by (auto simp: start_core_def bind_eq_Some_conv Let_def)
qed

lemma allocator_setup_space:
  assumes sp: "space_ok hi t M (k_mapper k) (k_tables k)" and hi: "uint hi \<le> 2 ^ 39" and i: "uint i < 128"
    and sz: "heap_init_size (k_cfg k) = Some sz" "sz \<noteq> 0" "uint sz \<le> 2 ^ 30" and c: "cr3_paddr (cr3_read (k_cpu k)) = t"
    and dis: "heap_pages sz i \<inter> M = {}" and run: "allocator_setup oom l i h bs k = Some (p, tk, k')"
  shows "space_ok hi t (M \<union> heap_pages sz i) (k_mapper k') (k_tables k')" "k_cpu k' = k_cpu k" "k_cfg k' = k_cfg k"
proof -
  have "map_pages sz \<le> 0x40000" using sz(3) by (simp add: map_pages_def)
  then have sub: "heap_pages sz i \<subseteq> core_pages" by (rule spans_core_pages(2) [OF i])
  have nh: "no_huge (phys (k_tables k)) 4 t a" if "vpn a \<in> {heap_page i ..< heap_page i + map_pages sz}" for a
    using that space_okD(4) [OF sp, of a] sub dis unfolding heap_pages_def by blast
  note r = heap_map_result [OF i sz(2,3) space_okD(1) [OF sp] nh]
  have "is_table t" using space_okD(1) [OF sp] by (simp add: pml4_ok_def)
  from from_phys_addr_table [OF this] obtain mg mp m where
    m: "mapper_map (k_mapper k) (heap_start i) sz (pte_bits PTE_RW) (pte_bits PTE_RW) (t + PHYS_LADDR_OFFSET) (k_tables k) = Some (mg, mp, m)"
    and k': "k' = k\<lparr>k_mapper := mp, k_tables := m\<rparr>"
    using run heap_base_eq(1) [OF i] sz(1) c by (auto simp: allocator_setup_def bind_eq_Some_conv)
  have e: "pml4_ok mp t m" "map_effect 4 t 0 (heap_pages sz i) (mapper_avail (k_mapper k)) (phys (k_tables k)) (mapper_avail mp) (phys m)"
    using r m by (simp_all add: map_request_result_def heap_pages_def)
  show "space_ok hi t (M \<union> heap_pages sz i) (k_mapper k') (k_tables k')"
    using space_ok_map [OF sp hi e(1) sub dis e(2)] by (simp add: k')
  show "k_cpu k' = k_cpu k" "k_cfg k' = k_cfg k" by (simp_all add: k')
qed

section \<open>Tickets\<close>

text \<open>Cores that have drawn from a counter have different tickets below its value.\<close>

definition tickets_drawn :: "nat \<Rightarrow> usize \<Rightarrow> (nat \<Rightarrow> usize option) \<Rightarrow> bool" where
  "tickets_drawn n counter f \<longleftrightarrow> uint counter = int (card {c. c < n \<and> f c \<noteq> None}) \<and> (\<forall>c<n. \<forall>t. f c = Some t \<longrightarrow> t < counter) \<and>
     (\<forall>c<n. \<forall>d<n. c \<noteq> d \<longrightarrow> f c = f d \<longrightarrow> f c = None)"

lemma tickets_drawn_bound:
  assumes "tickets_drawn n k f" "n \<le> 128"
  shows "uint k \<le> 128" "c < n \<Longrightarrow> f c = Some t \<Longrightarrow> uint t < 128"
proof -
  have "{c. c < n \<and> f c \<noteq> None} \<subseteq> {..<n}" by auto
  then have "card {c. c < n \<and> f c \<noteq> None} \<le> n" using card_mono [of "{..<n}"] by fastforce
  then show k: "uint k \<le> 128" using assms by (simp add: tickets_drawn_def)
  assume "c < n" "f c = Some t"
  then have "t < k" using assms(1) by (auto simp: tickets_drawn_def)
  then show "uint t < 128" using k by (simp add: word_less_def)
qed

lemma tickets_drawn_distinct:
  assumes "tickets_drawn n k f" "c < n" "d < n" "c \<noteq> d" "f c = Some t" "f d = Some t'"
  shows "t \<noteq> t'"
proof
  assume "t = t'"
  then have "f c = f d" using assms(5,6) by simp
  then have "f c = None" using assms(1-4) unfolding tickets_drawn_def by blast
  then show False using assms(5) by simp
qed

lemma tickets_drawn_keep: "tickets_drawn n k f \<Longrightarrow> (\<And>c. c < n \<Longrightarrow> g c = f c) \<Longrightarrow> tickets_drawn n k g"
proof -
  assume "tickets_drawn n k f" and g: "\<And>c. c < n \<Longrightarrow> g c = f c"
  moreover have "{c. c < n \<and> g c \<noteq> None} = {c. c < n \<and> f c \<noteq> None}" using g by auto
  ultimately show ?thesis by (simp add: tickets_drawn_def)
qed

lemma tickets_drawn_next:
  assumes d: "tickets_drawn n k f" and n: "n \<le> 128" and c: "c < n" "f c = None"
  shows "tickets_drawn n (k + 1) (f(c := Some k))"
proof -
  let ?f = "f(c := Some k)"
  have k1: "uint (k + 1) = uint k + 1" using tickets_drawn_bound(1) [OF d n] by (simp add: uint_word_ariths)
  have "{x. x < n \<and> ?f x \<noteq> None} = insert c {x. x < n \<and> f x \<noteq> None}" using c by auto
  then have "int (card {x. x < n \<and> ?f x \<noteq> None}) = int (card {x. x < n \<and> f x \<noteq> None}) + 1" using c by simp
  moreover have lt: "t < k" if "x < n" "f x = Some t" for x t using d that by (simp add: tickets_drawn_def)
  have "t < k + 1" if "x < n" "?f x = Some t" for x t
    using that k1 lt [of x t] by (cases "x = c") (auto simp: word_less_def)
  moreover have "f x \<noteq> Some k" if "x < n" for x using lt [of x k] that by auto
  then have "?f x = None" if "x < n" "y < n" "x \<noteq> y" "?f x = ?f y" for x y
    using that d unfolding tickets_drawn_def by (cases "x = c"; cases "y = c") auto
  ultimately show ?thesis using d k1 by (simp add: tickets_drawn_def)
qed

section \<open>The invariant\<close>

fun start_ticket :: "core_pc \<Rightarrow> usize option" where
  "start_ticket AtEntry = None"
| "start_ticket AtSetup = Some 0"
| "start_ticket (AtWait t) = Some t"
| "start_ticket (AtStack t) = Some t"
| "start_ticket (AtInit t) = Some t"
| "start_ticket (AtGreet t i) = Some t"
| "start_ticket (AtHeap t i) = Some t"
| "start_ticket (AtTables t i tk) = Some t"
| "start_ticket (AtHalt t i) = Some t"

fun heap_ticket :: "core_pc \<Rightarrow> usize option" where
  "heap_ticket (AtGreet t i) = Some i"
| "heap_ticket (AtHeap t i) = Some i"
| "heap_ticket (AtTables t i tk) = Some i"
| "heap_ticket (AtHalt t i) = Some i"
| "heap_ticket pc = None"

text \<open>A core that has seen the stored address, and one that runs on the kernel's tables until it has its own.\<close>

fun past_wait :: "core_pc \<Rightarrow> bool" where
  "past_wait AtEntry = False"
| "past_wait AtSetup = False"
| "past_wait (AtWait t) = False"
| "past_wait pc = True"

fun on_tables :: "core_pc \<Rightarrow> bool" where
  "on_tables (AtInit t) = True"
| "on_tables (AtGreet t i) = True"
| "on_tables (AtHeap t i) = True"
| "on_tables pc = False"

text \<open>The pages that a core has mapped so far.\<close>

fun core_span :: "usize \<Rightarrow> core_pc \<Rightarrow> int set" where
  "core_span sz (AtInit t) = stack_mapped t"
| "core_span sz (AtGreet t i) = stack_mapped t"
| "core_span sz (AtHeap t i) = stack_mapped t"
| "core_span sz (AtTables t i tk) = stack_mapped t \<union> heap_pages sz i"
| "core_span sz (AtHalt t i) = stack_mapped t \<union> heap_pages sz i"
| "core_span sz pc = {}"

text \<open>The pages that belong to its tickets.\<close>

definition full_span :: "usize \<Rightarrow> core_pc \<Rightarrow> int set" where
  "full_span sz pc = (case start_ticket pc of None \<Rightarrow> {} | Some t \<Rightarrow> stack_pages t) \<union>
     (case heap_ticket pc of None \<Rightarrow> {} | Some i \<Rightarrow> heap_pages sz i)"

lemma core_span_full: "core_span sz pc \<subseteq> full_span sz pc"
  by (cases pc) (auto simp: full_span_def stack_mapped_def)

definition tickets_ok :: "nat \<Rightarrow> 's machine \<Rightarrow> bool" where
  "tickets_ok n s \<longleftrightarrow> tickets_drawn n (thread_ticket s) (\<lambda>c. start_ticket (pcs s c)) \<and> tickets_drawn n (init_ticket s) (\<lambda>c. heap_ticket (pcs s c))"

lemma full_spans_disjoint:
  assumes tk: "tickets_ok n s" and n: "n \<le> 128" "map_pages sz \<le> 0x20000" and cd: "c < n" "d < n" "c \<noteq> d"
  shows "full_span sz (pcs s c) \<inter> full_span sz (pcs s d) = {}"
proof -
  have a: "tickets_drawn n (thread_ticket s) (\<lambda>c. start_ticket (pcs s c))" "tickets_drawn n (init_ticket s) (\<lambda>c. heap_ticket (pcs s c))"
    using tk by (simp_all add: tickets_ok_def)
  note bs = tickets_drawn_bound(2) [OF a(1) n(1)] and bh = tickets_drawn_bound(2) [OF a(2) n(1)]
  have ss: "stack_pages t \<inter> stack_pages t' = {}" if "start_ticket (pcs s c) = Some t" "start_ticket (pcs s d) = Some t'" for t t'
  proof (rule spans_disjoint(1))
    show "t \<noteq> t'" by (rule tickets_drawn_distinct [OF a(1) cd that])
  qed (use bs [OF cd(1) that(1)] bs [OF cd(2) that(2)] in auto)
  have hh: "heap_pages sz i \<inter> heap_pages sz i' = {}" if "heap_ticket (pcs s c) = Some i" "heap_ticket (pcs s d) = Some i'" for i i'
  proof (rule spans_disjoint(2))
    show "i \<noteq> i'" by (rule tickets_drawn_distinct [OF a(2) cd that])
  qed (use n(2) bh [OF cd(1) that(1)] bh [OF cd(2) that(2)] in auto)
  have sh: "stack_pages t \<inter> heap_pages sz i = {}"
    if "start_ticket (pcs s x) = Some t" "heap_ticket (pcs s y) = Some i" "x < n" "y < n" for x y t i
    by (rule spans_disjoint(3) [OF bs [OF that(3,1)] bh [OF that(4,2)] n(2)])
  show ?thesis
    using ss hh sh [of c _ d] sh [of d _ c] cd unfolding full_span_def
    by (auto split: option.splits simp: Int_Un_distrib Int_Un_distrib2 Int_commute)
qed

lemma fresh_span:
  assumes "tickets_ok n s" "n \<le> 128" "map_pages sz \<le> 0x20000" "c < n" "X \<subseteq> full_span sz (pcs s c)" "X \<inter> core_span sz (pcs s c) = {}"
  shows "X \<inter> (\<Union>d<n. core_span sz (pcs s d)) = {}"
proof -
  have "X \<inter> core_span sz (pcs s d) = {}" if "d < n" for d
    using full_spans_disjoint [OF assms(1-4) that] core_span_full [of sz "pcs s d"] assms(5,6) by (cases "c = d") auto
  then show ?thesis by blast
qed

text \<open>What holds once the first core has stored the address of its tables.\<close>

definition running_ok :: "nat \<Rightarrow> usize \<Rightarrow> u64 \<Rightarrow> usize \<Rightarrow> 's machine \<Rightarrow> bool" where
  "running_ok n hi t sz s \<longleftrightarrow> (\<exists>c<n. start_ticket (pcs s c) = Some 0) \<and> (\<forall>c<n. pcs s c \<noteq> AtSetup) \<and>
     heap_init_size (k_cfg (krnl s)) = Some sz \<and> (\<forall>c<n. on_tables (pcs s c) \<longrightarrow> cr3_paddr (cr3_read (cpus s c)) = t) \<and>
     space_ok hi t (\<Union>c<n. core_span sz (pcs s c)) (k_mapper (krnl s)) (k_tables (krnl s))"

lemma span_update:
  assumes "c < (n :: nat)" "core_span sz (p c) \<subseteq> core_span sz pc"
  shows "(\<Union>d<n. core_span sz ((p(c := pc)) d)) = (\<Union>d<n. core_span sz (p d)) \<union> core_span sz pc"
proof -
  have "{..<n} = insert c ({..<n} - {c})" using assms(1) by auto
  then have *: "(\<Union>d<n. f d) = f c \<union> (\<Union>d\<in>{..<n} - {c}. f d)" for f :: "nat \<Rightarrow> int set" by (metis UN_insert)
  show ?thesis using assms(2) by (subst (1 2) *) auto
qed

lemma running_step:
  assumes r: "running_ok n hi t sz s" and c: "c < n" "start_ticket (pcs s c) \<in> {None, start_ticket pc}" "pc \<noteq> AtSetup"
    and k: "heap_init_size (k_cfg k) = Some sz" "on_tables pc \<Longrightarrow> cr3_paddr (cr3_read (k_cpu k)) = t"
    and sp: "core_span sz (pcs s c) \<subseteq> core_span sz pc"
      "space_ok hi t ((\<Union>d<n. core_span sz (pcs s d)) \<union> core_span sz pc) (k_mapper k) (k_tables k)"
  shows "running_ok n hi t sz (goes_to c pc k s)"
proof -
  obtain d where d: "d < n" "start_ticket (pcs s d) = Some 0" using r by (auto simp: running_ok_def)
  have "start_ticket (((pcs s)(c := pc)) d) = Some 0" using d c(2) by auto
  then show ?thesis
    using r c(3) k sp(2) d(1) span_update [where p = "pcs s", OF c(1) sp(1)] by (auto simp: running_ok_def goes_to_def simp del: fun_upd_apply)
      (auto split: if_splits)
qed

text \<open>The state in which the loader leaves the machine.\<close>

definition machine_start :: "'s boot_env \<Rightarrow> nat \<Rightarrow> mmap_entry list \<Rightarrow> usize \<Rightarrow> mmap_entry \<Rightarrow> usize \<Rightarrow> 's machine \<Rightarrow> bool" where
  "machine_start E n mmap hi lgst sz s \<longleftrightarrow> n \<le> 128 \<and> thread_ticket s = 0 \<and> init_ticket s = 0 \<and> is_mapper_initd s = - 1 \<and>
     (\<forall>c<n. pcs s c = AtEntry) \<and> mmap_available_iter (be_hdr E) (be_entries E) (loader_mem s) = Some (mmap, loader_mem s) \<and>
     (\<forall>c<n. boot_memory_ok mmap hi lgst (cpus s c) (k_tables (krnl s))) \<and>
     (\<exists>cfg. init_boot_cfg (map (\<lambda>x. char_of (unat x)) (env_cfg_as_str (be_env E))) (k_cfg (krnl s)) = Some cfg \<and>
        heap_init_size cfg = Some sz) \<and> sz \<noteq> 0 \<and> uint sz \<le> 2 ^ 29"

definition machine_inv :: "nat \<Rightarrow> usize \<Rightarrow> u64 \<Rightarrow> usize \<Rightarrow> 's machine \<Rightarrow> 's machine \<Rightarrow> bool" where
  "machine_inv n hi t sz s0 s \<longleftrightarrow> tickets_ok n s \<and>
     (if is_mapper_initd s = - 1
      then (\<forall>c<n. \<not> past_wait (pcs s c) \<and> cr3 (cpus s c) = cr3 (cpus s0 c)) \<and> k_tables (krnl s) = k_tables (krnl s0) \<and>
        k_cfg (krnl s) = k_cfg (krnl s0) \<and> loader_mem s = loader_mem s0
      else is_mapper_initd s = t \<and> running_ok n hi t sz s)"

lemma machine_inv_start: "machine_start E n mmap hi lgst sz s \<Longrightarrow> machine_inv n hi t sz s s"
  by (auto simp: machine_start_def machine_inv_def tickets_ok_def tickets_drawn_def)

text \<open>The tickets along a step.\<close>

lemma tickets_keep:
  assumes "tickets_ok n s" "start_ticket pc = start_ticket (pcs s c)" "heap_ticket pc = heap_ticket (pcs s c)"
    "thread_ticket s' = thread_ticket s" "init_ticket s' = init_ticket s" "pcs s' = (pcs s)(c := pc)"
  shows "tickets_ok n s'"
  using assms by (auto simp: tickets_ok_def intro: tickets_drawn_keep)

lemma tickets_goes_to:
  "tickets_ok n s \<Longrightarrow> start_ticket pc = start_ticket (pcs s c) \<Longrightarrow> heap_ticket pc = heap_ticket (pcs s c) \<Longrightarrow> tickets_ok n (goes_to c pc k s)"
  "tickets_ok n (s\<lparr>loader_mem := pm, is_mapper_initd := pml4\<rparr>) = tickets_ok n s"
  by (rule tickets_keep) (simp_all add: goes_to_def tickets_ok_def)

lemma tickets_draw_start:
  assumes "tickets_ok n s" "n \<le> 128" "c < n" "pcs s c = AtEntry" "start_ticket pc = Some (thread_ticket s)" "heap_ticket pc = None"
    "thread_ticket s' = thread_ticket s + 1" "init_ticket s' = init_ticket s" "pcs s' = (pcs s)(c := pc)"
  shows "tickets_ok n s'"
proof -
  have "(\<lambda>x. start_ticket (pcs s' x)) = (\<lambda>x. start_ticket (pcs s x))(c := Some (thread_ticket s))"
    "(\<lambda>x. heap_ticket (pcs s' x)) = (\<lambda>x. heap_ticket (pcs s x))" using assms by auto
  then show ?thesis using assms tickets_drawn_next [of n "thread_ticket s" "\<lambda>x. start_ticket (pcs s x)" c] by (simp add: tickets_ok_def)
qed

lemma tickets_draw_init:
  assumes "tickets_ok n s" "n \<le> 128" "c < n" "pcs s c = AtInit t" "pc = AtGreet t (init_ticket s)"
    "thread_ticket s' = thread_ticket s" "init_ticket s' = init_ticket s + 1" "pcs s' = (pcs s)(c := pc)"
  shows "tickets_ok n s'"
proof -
  have "(\<lambda>x. heap_ticket (pcs s' x)) = (\<lambda>x. heap_ticket (pcs s x))(c := Some (init_ticket s))"
    "(\<lambda>x. start_ticket (pcs s' x)) = (\<lambda>x. start_ticket (pcs s x))" using assms by auto
  then show ?thesis using assms tickets_drawn_next [of n "init_ticket s" "\<lambda>x. heap_ticket (pcs s x)" c] by (simp add: tickets_ok_def)
qed

text \<open>The first core stores the address.\<close>

lemma boot_memory_hi: "boot_memory_ok mmap hi lgst c m \<Longrightarrow> uint hi \<le> 2 ^ 39 \<and> block_base_ok (fst lgst)"
  using mmap_block_ok(1,2) [of hi mmap "fst lgst" "snd lgst"] by (simp add: boot_memory_ok_def)

lemma setup_pml4_not_max: "block_base_ok b \<Longrightarrow> setup_pml4 b \<noteq> - 1"
proof
  assume "block_base_ok b" "setup_pml4 b = - 1"
  then have "is_table (- 1)" using setup_pages_ok(1) [of b] by simp
  then show False by (simp add: is_table_def BASE_MASK_def)
qed

lemma space_ok_setup:
  assumes m: "boot_memory_ok mmap hi lgst c m" and d: "setup_done hi mmap lgst c m mp m'"
  shows "space_ok hi (setup_pml4 (fst lgst)) {} mp m'"
proof -
  have m': "mmap_ok (uint hi) mmap" "max_by_size mmap = Some (fst lgst, snd lgst)" "top_mapped c m"
    "loader_apart mmap c m" "uint (fst lgst) + 0x3000 + setup_status hi (fst lgst) \<le> uint (snd lgst)"
    using m by (simp_all add: boot_memory_ok_def)
  have b: "uint hi \<le> 2 ^ 39" "block_base_ok (fst lgst)" using boot_memory_hi [OF m] by simp_all
  have nt: "new_tables hi (fst lgst) (old_last_pd c m) m (phys m')" using d by (simp add: setup_done_def)
  show ?thesis
    using d core_pages_unmapped(2) [OF nt b(2)] new_tables_walks(1) [OF nt b(2,1) m'(3) loader_apart_frames [OF m'(4,1,2,5)]]
    by (simp add: space_ok_def setup_done_def)
qed

lemma before_span: "\<not> past_wait pc \<Longrightarrow> core_span sz pc = {}" "\<not> past_wait pc \<Longrightarrow> \<not> on_tables pc"
  by (cases pc; simp)+

lemma setup_step:
  assumes st: "machine_start E n mmap hi lgst sz s0" and inv: "machine_inv n hi (setup_pml4 (fst lgst)) sz s0 s"
    and c: "c < n" "pcs s c = AtSetup" and init: "is_mapper_initd s = - 1"
    and run: "start_bsp (be_bus E) lock (be_hdr E) (be_entries E) (be_env E) (be_nodes E) (loader_mem s, on_core c s) = Some (pml4, pm, k)"
  shows "machine_inv n hi (setup_pml4 (fst lgst)) sz s0 ((goes_to c (AtStack 0) k s)\<lparr>loader_mem := pm, is_mapper_initd := pml4\<rparr>)"
proof -
  let ?t = "setup_pml4 (fst lgst)" and ?p = "(pcs s)(c := AtStack 0)"
  have i: "tickets_ok n s" "\<forall>c<n. \<not> past_wait (pcs s c) \<and> cr3 (cpus s c) = cr3 (cpus s0 c)" "k_tables (krnl s) = k_tables (krnl s0)"
    "k_cfg (krnl s) = k_cfg (krnl s0)" "loader_mem s = loader_mem s0"
    using inv init by (simp_all add: machine_inv_def)
  obtain cfg where cfg: "init_boot_cfg (map (\<lambda>x. char_of (unat x)) (env_cfg_as_str (be_env E))) (k_cfg (on_core c s)) = Some cfg"
    "heap_init_size cfg = Some sz" using st i(4) by (auto simp: machine_start_def on_core_def)
  have mm: "mmap_available_iter (be_hdr E) (be_entries E) (loader_mem s) = Some (mmap, loader_mem s)"
    using st i(5) by (simp add: machine_start_def)
  have mem: "boot_memory_ok mmap hi lgst (k_cpu (on_core c s)) (k_tables (on_core c s))"
    using st i(2,3) c(1) boot_memory_cr3(1) [of "cpus s c" "cpus s0 c"] by (simp add: machine_start_def on_core_def)
  note r = start_bsp_result [OF run cfg(1) mm mem]
  have "pcs s d \<noteq> AtSetup" if "d < n" "d \<noteq> c" for d
    using tickets_drawn_distinct [of n "thread_ticket s" "\<lambda>c. start_ticket (pcs s c)" c d 0 0] i(1) that c by (auto simp: tickets_ok_def)
  then have "\<forall>d<n. ?p d \<noteq> AtSetup" by simp
  moreover have "(\<Union>d<n. core_span sz (?p d)) = {}" "\<forall>d<n. \<not> on_tables (?p d)" using before_span i(2) by auto
  ultimately have "running_ok n hi ?t sz (goes_to c (AtStack 0) k s)"
    using c(1) r(3) cfg(2) space_ok_setup [OF mem r(4)] by (auto simp: running_ok_def goes_to_def)
  moreover have "tickets_ok n (goes_to c (AtStack 0) k s)" by (rule tickets_goes_to(1) [OF i(1)]) (simp_all add: c(2))
  moreover have "?t \<noteq> - 1" using setup_pml4_not_max boot_memory_hi [OF mem] by blast
  ultimately show ?thesis using r(1) by (simp add: machine_inv_def running_ok_def tickets_ok_def)
qed

text \<open>The steps of the cores that share the new tables.\<close>

lemma running_core:
  assumes "running_ok n hi t sz s" "c < n"
  shows "heap_init_size (k_cfg (on_core c s)) = Some sz" "pcs s c \<noteq> AtSetup"
    "space_ok hi t (\<Union>d<n. core_span sz (pcs s d)) (k_mapper (on_core c s)) (k_tables (on_core c s))"
    "on_tables (pcs s c) \<Longrightarrow> cr3_paddr (cr3_read (k_cpu (on_core c s))) = t"
  using assms by (auto simp: running_ok_def on_core_def)

lemma local_step:
  assumes r: "running_ok n hi t sz s" and c: "c < n"
    and pc: "start_ticket (pcs s c) \<in> {None, start_ticket pc}" "pc \<noteq> AtSetup" "core_span sz pc = core_span sz (pcs s c)"
    and k: "k_cfg k = k_cfg (on_core c s)" "k_mapper k = k_mapper (on_core c s)" "k_tables k = k_tables (on_core c s)"
      "on_tables pc \<Longrightarrow> on_tables (pcs s c) \<and> k_cpu k = k_cpu (on_core c s)"
  shows "running_ok n hi t sz (goes_to c pc k s)"
proof (rule running_step [OF r c pc(1,2)])
  have "core_span sz (pcs s c) \<subseteq> (\<Union>d<n. core_span sz (pcs s d))" using c by blast
  then show "space_ok hi t ((\<Union>d<n. core_span sz (pcs s d)) \<union> core_span sz pc) (k_mapper k) (k_tables k)"
    using running_core(3) [OF r c] by (simp add: pc(3) k Un_absorb2)
qed (use running_core [OF r c] pc k in simp_all)

lemma ticket_bound:
  assumes "tickets_ok n s" "n \<le> 128" "c < n"
  shows "start_ticket (pcs s c) = Some u \<Longrightarrow> uint u < 128" "heap_ticket (pcs s c) = Some i \<Longrightarrow> uint i < 128"
  using assms tickets_drawn_bound(2) [of n _ "\<lambda>c. start_ticket (pcs s c)"] tickets_drawn_bound(2) [of n _ "\<lambda>c. heap_ticket (pcs s c)"]
  by (auto simp: tickets_ok_def)

lemma stack_step:
  assumes tk: "tickets_ok n s" "n \<le> 128" and r: "running_ok n hi t sz s" and hi: "uint hi \<le> 2 ^ 39" "map_pages sz \<le> 0x20000"
    and c: "c < n" "pcs s c = AtStack u" and run: "start_core u t (on_core c s) = Some (rsp, k)"
  shows "running_ok n hi t sz (goes_to c (AtInit u) k s)"
proof -
  let ?M = "\<Union>d<n. core_span sz (pcs s d)"
  have u: "uint u < 128" using ticket_bound(1) [OF tk c(1)] c(2) by simp
  have dis: "stack_pages u \<inter> ?M = {}" by (rule fresh_span [OF tk hi(2) c(1)]) (simp_all add: c(2) full_span_def)
  note sc = start_core_space [OF running_core(3) [OF r c(1)] hi(1) u dis run]
  show ?thesis by (rule running_step [OF r c(1)]) (use sc running_core(1) [OF r c(1)] in \<open>simp_all add: c(2)\<close>)
qed

lemma heap_step:
  assumes tk: "tickets_ok n s" "n \<le> 128" and r: "running_ok n hi t sz s" and hi: "uint hi \<le> 2 ^ 39" and sz: "sz \<noteq> 0" "uint sz \<le> 2 ^ 29"
    and c: "c < n" "pcs s c = AtHeap u i" and run: "allocator_setup oom l i h bs (on_core c s) = Some (p, ta, k)"
  shows "running_ok n hi t sz (goes_to c (AtTables u i ta) k s)"
proof -
  let ?M = "\<Union>d<n. core_span sz (pcs s d)"
  have pages: "map_pages sz \<le> 0x20000" using sz(2) by (simp add: map_pages_def)
  have u: "uint u < 128" "uint i < 128" using ticket_bound [OF tk c(1)] c(2) by simp_all
  have dis: "heap_pages sz i \<inter> ?M = {}"
    by (rule fresh_span [OF tk pages c(1)]) (use spans_disjoint(3) [OF u pages] in \<open>auto simp: c(2) full_span_def stack_mapped_def\<close>)
  note rc = running_core [OF r c(1)]
  have k: "space_ok hi t (?M \<union> heap_pages sz i) (k_mapper k) (k_tables k)" "k_cpu k = k_cpu (on_core c s)" "k_cfg k = k_cfg (on_core c s)"
    using allocator_setup_space [OF rc(3) hi u(2) rc(1) sz(1) _ rc(4) dis run] sz(2) by (simp_all add: c(2))
  have "stack_mapped u \<subseteq> ?M" using c by force
  then have "?M \<union> core_span sz (AtTables u i ta) = ?M \<union> heap_pages sz i" by auto
  then show ?thesis using k rc(1) by (intro running_step [OF r c(1)]) (simp_all add: c(2))
qed

lemma running_run:
  assumes tk: "tickets_ok n s" "n \<le> 128" and r: "running_ok n hi t sz s" and hi: "uint hi \<le> 2 ^ 39" and sz: "sz \<noteq> 0" "uint sz \<le> 2 ^ 29"
    and c: "c < n" and init: "is_mapper_initd s = t" and run: "core_next E lock c s = Some s'"
  shows "running_ok n hi t sz s'"
proof (cases "pcs s c")
  case AtEntry
  have "\<exists>d<n. start_ticket (pcs s d) = Some 0" using r by (simp add: running_ok_def)
  then have "thread_ticket s \<noteq> 0" using tk(1) by (auto simp: tickets_ok_def tickets_drawn_def)
  then show ?thesis
    using run AtEntry local_step [OF r c, of "AtWait (thread_ticket s)" "(on_core c s)\<lparr>k_cpu := pat_write KRNL_DEFAULT_PAT (k_cpu (on_core c s))\<rparr>"]
    by (auto simp: core_next_def Let_def running_ok_def)
next
  case (AtWait u)
  then show ?thesis using run local_step [OF r c, of "AtStack u" "on_core c s"] r by (auto simp: core_next_def Let_def split: if_splits)
next
  case (AtStack u)
  have "map_pages sz \<le> 0x20000" using sz(2) by (simp add: map_pages_def)
  then show ?thesis using run init stack_step [OF tk r hi _ c AtStack] AtStack by (auto simp: core_next_def Let_def bind_eq_Some_conv)
next
  case (AtInit u)
  then show ?thesis using run local_step [OF r c, of "AtGreet u (init_ticket s)" "on_core c s"] by (auto simp: core_next_def Let_def running_ok_def)
next
  case (AtGreet u i)
  then obtain k where k: "println_text (be_bus E) lock (be_greeting E i) (on_core c s) = Some k" "s' = goes_to c (AtHeap u i) k s"
    using run by (auto simp: core_next_def Let_def bind_eq_Some_conv)
  then show ?thesis using local_step [OF r c, of "AtHeap u i" k] print_text_keeps [OF k(1) [unfolded println_text_def]] AtGreet by simp
next
  case (AtHeap u i)
  then show ?thesis using run heap_step [OF tk r hi sz c AtHeap] by (auto simp: core_next_def Let_def bind_eq_Some_conv)
next
  case (AtTables u i ta)
  then obtain cpu where "s' = goes_to c (AtHalt u i) ((on_core c s)\<lparr>k_cpu := cpu\<rparr>) s"
    using run by (auto simp: core_next_def Let_def bind_eq_Some_conv)
  then show ?thesis using local_step [OF r c, of "AtHalt u i" "(on_core c s)\<lparr>k_cpu := cpu\<rparr>"] AtTables by simp
qed (use run running_core(2) [OF r c] in \<open>simp_all add: core_next_def Let_def\<close>)

text \<open>Tickets, and the stored address.\<close>

lemma tickets_run:
  assumes tk: "tickets_ok n s" "n \<le> 128" and c: "c < n" and run: "core_next E lock c s = Some s'"
  shows "tickets_ok n s'"
proof (cases "pcs s c")
  case AtEntry
  show ?thesis by (rule tickets_draw_start [OF tk c AtEntry, where pc = "if thread_ticket s = 0 then AtSetup else AtWait (thread_ticket s)"])
    (use run AtEntry in \<open>auto simp: core_next_def Let_def goes_to_def\<close>)
next
  case (AtInit u)
  show ?thesis by (rule tickets_draw_init [OF tk c AtInit refl]) (use run AtInit in \<open>auto simp: core_next_def Let_def goes_to_def\<close>)
qed (use run tk(1) in \<open>auto simp: core_next_def Let_def bind_eq_Some_conv tickets_goes_to(2) split: if_splits intro!: tickets_goes_to(1)\<close>)

lemma stored_run: "core_next E lock c s = Some s' \<Longrightarrow> pcs s c \<noteq> AtSetup \<Longrightarrow> is_mapper_initd s' = is_mapper_initd s"
  by (auto simp: core_next_def Let_def goes_to_def bind_eq_Some_conv split: core_pc.splits if_splits)

lemma core_step_inv:
  assumes st: "machine_start E n mmap hi lgst sz s0" and inv: "machine_inv n hi (setup_pml4 (fst lgst)) sz s0 s"
    and c: "c < n" and run: "core_next E lock c s = Some s'"
  shows "machine_inv n hi (setup_pml4 (fst lgst)) sz s0 s'"
proof -
  have n: "n \<le> 128" "sz \<noteq> 0" "uint sz \<le> 2 ^ 29" using st by (simp_all add: machine_start_def)
  have tk: "tickets_ok n s" using inv by (simp add: machine_inv_def)
  note tk' = tickets_run [OF tk n(1) c run]
  show ?thesis
  proof (cases "is_mapper_initd s = - 1")
    case True
    then have i: "\<not> past_wait (pcs s c)" using inv c by (simp add: machine_inv_def)
    show ?thesis
    proof (cases "pcs s c")
      case AtEntry
      then have s': "is_mapper_initd s' = - 1" "pcs s' = (pcs s)(c := if thread_ticket s = 0 then AtSetup else AtWait (thread_ticket s))"
        "cpus s' = (cpus s)(c := pat_write KRNL_DEFAULT_PAT (cpus s c))" "k_tables (krnl s') = k_tables (krnl s)"
        "k_cfg (krnl s') = k_cfg (krnl s)" "loader_mem s' = loader_mem s"
        using run True by (auto simp: core_next_def Let_def goes_to_def on_core_def)
      then show ?thesis using inv True tk' by (simp add: machine_inv_def)
    next
      case AtSetup
      then show ?thesis using run setup_step [OF st inv c AtSetup True] by (auto simp: core_next_def Let_def bind_eq_Some_conv)
    next
      case (AtWait u)
      then show ?thesis using run inv True by (simp add: core_next_def Let_def)
    qed (use i in simp_all)
  next
    case False
    then have r: "is_mapper_initd s = setup_pml4 (fst lgst)" "running_ok n hi (setup_pml4 (fst lgst)) sz s"
      using inv by (simp_all add: machine_inv_def)
    have "uint hi \<le> 2 ^ 39" using st c boot_memory_hi by (fastforce simp: machine_start_def)
    from running_run [OF tk n(1) r(2) this n(2,3) c r(1) run] stored_run [OF run running_core(2) [OF r(2) c]] r(1) False tk'
    show ?thesis by (simp add: machine_inv_def)
  qed
qed

lemma core_run_inv:
  "core_run E n s0 s \<Longrightarrow> machine_start E n mmap hi lgst sz s0 \<Longrightarrow> machine_inv n hi (setup_pml4 (fst lgst)) sz s0 s"
proof (induction rule: core_run.induct)
  case (start s)
  then show ?case by (rule machine_inv_start)
next
  case (step s s' c lock s'')
  then show ?case using core_step_inv by blast
qed

section \<open>Properties\<close>


text \<open>Two cores on the machine with 17 MiB: both have drawn their tickets, and the first has set up the tables.\<close>

definition demo_env :: "nat boot_env" where
  "demo_env = \<lparr>be_bus = slow_chip, be_uart = None, be_hdr = boot_hdr, be_entries = boot_entries, be_env = \<lambda>_. 0, be_nodes = zero_nodes,
     be_oom = mapper_oom_handler, be_layout = \<lparr>layout_size = 8, layout_align = 8\<rparr>, be_bytes = \<lambda>_. 0, be_isr = demo_isr, be_greeting = \<lambda>_. ''CORE''\<rparr>"

definition demo_machine :: "nat kernel \<Rightarrow> nat machine" where
  "demo_machine k = \<lparr>thread_ticket = 0, init_ticket = 0, is_mapper_initd = - 1, pcs = \<lambda>_. AtEntry, cpus = \<lambda>_. k_cpu k,
     loader_mem = boot_bytes, krnl = k\<rparr>"

lemma demo_machine_start:
  assumes "k_cfg k = cfg_initial" "k_tables k = demo_boot_tables" "cr3 (k_cpu k) = 0x1000"
  shows "machine_start demo_env 2 demo_mmap 0x1100000 (0x100000, 0x1000000) 0x1000000 (demo_machine k)"
  using mmap_available_eq [OF boot_demo_mmap(1), of boot_entries boot_bytes] boot_demo_mmap(2) boot_demo_memory [OF assms(3)] boot_demo_cfg assms(1,2)
  by (simp add: machine_start_def demo_machine_def demo_env_def cfg_initial_def heap_init_size_def heap_init_size_default_def)

lemma demo_machine_run:
  assumes k: "k_term k = ascii_term" "k_cfg k = cfg_initial" "k_tables k = demo_boot_tables" "cr3 (k_cpu k) = 0x1000"
  shows "\<exists>s. core_run demo_env 2 (demo_machine k) s \<and> is_mapper_initd s = setup_pml4 0x100000 \<and> pcs s 0 = AtStack 0 \<and> pcs s 1 = AtWait 1"
proof -
  define s1 where "s1 = the (core_next demo_env None 0 (demo_machine k))"
  have s1: "core_next demo_env None 0 (demo_machine k) = Some s1" "pcs s1 = (\<lambda>_. AtEntry)(0 := AtSetup)" "thread_ticket s1 = 1"
    "k_term (krnl s1) = ascii_term" "k_cfg (krnl s1) = cfg_initial" "k_tables (krnl s1) = demo_boot_tables" "cr3 (cpus s1 0) = 0x1000"
    "loader_mem s1 = boot_bytes"
    by (simp_all add: s1_def core_next_def demo_machine_def goes_to_def on_core_def Let_def k)
  define s2 where "s2 = the (core_next demo_env None 1 s1)"
  have s2: "core_next demo_env None 1 s1 = Some s2" "pcs s2 0 = AtSetup" "pcs s2 1 = AtWait 1"
    "k_term (on_core 0 s2) = ascii_term" "k_cfg (on_core 0 s2) = cfg_initial" "k_tables (on_core 0 s2) = demo_boot_tables"
    "cr3 (k_cpu (on_core 0 s2)) = 0x1000" "loader_mem s2 = boot_bytes"
    by (simp_all add: s2_def core_next_def goes_to_def on_core_def Let_def s1(2-8))
  obtain t where t: "start_term boot_hdr ascii_term = Some t" "out_ready slow_chip None t" using boot_demo_out by blast
  obtain k' where "start_bsp slow_chip None boot_hdr boot_entries (\<lambda>_. 0) zero_nodes (boot_bytes, on_core 0 s2) =
      Some (setup_pml4 0x100000, boot_bytes, k')"
    using start_bsp_returns [of boot_hdr "on_core 0 s2" t slow_chip None "\<lambda>_. 0" _ boot_entries boot_bytes demo_mmap "0x1100000"
        "(0x100000, 0x1000000)" zero_nodes]
      t boot_demo_cfg mmap_available_eq [OF boot_demo_mmap(1), of boot_entries boot_bytes] boot_demo_mmap(2) boot_demo_memory [OF s2(7)]
    by (auto simp: s2(4-6))
  then have s3: "core_next demo_env None 0 s2 =
      Some ((goes_to 0 (AtStack 0) k' s2)\<lparr>loader_mem := boot_bytes, is_mapper_initd := setup_pml4 0x100000\<rparr>)"
    by (simp add: core_next_def Let_def s2(2,8) demo_env_def)
  have "core_run demo_env 2 (demo_machine k) ((goes_to 0 (AtStack 0) k' s2)\<lparr>loader_mem := boot_bytes, is_mapper_initd := setup_pml4 0x100000\<rparr>)"
    by (rule core_run.step [OF core_run.step [OF core_run.step [OF core_run.start _ _ s1(1)] _ _ s2(1)] _ _ s3]) simp_all
  then show ?thesis using s2(3) by (intro exI conjI) (assumption, simp_all add: goes_to_def)
qed


text \<open>
  C14. The regions of the cores, as the code computes them. For tickets below 128 none of the computations overflows, and
  with heaps of at most 512 MiB the stacks and the heaps lie in the topmost 256 GiB, below the topmost gibibyte, stacks and
  heaps never overlap, and those of different tickets are disjoint.
\<close>

theorem core_regions_disjoint:
  fixes sz :: usize
  assumes "uint m < 128" "uint n < 128" "uint sz \<le> 2 ^ 29"
  shows "\<exists>a a' b b'. stack_acme m = Some a \<and> stack_acme n = Some a' \<and> heap_base m = Some b \<and> heap_base n = Some b' \<and>
    {sint a - uint KRNL_STACK_SIZE ..< sint a} \<union> {sint b ..< sint b + uint sz} \<subseteq> {- (2 ^ 38) ..< - (2 ^ 30)} \<and>
    {sint a - uint KRNL_STACK_SIZE ..< sint a} \<inter> {sint b' ..< sint b' + uint sz} = {} \<and>
    (m \<noteq> n \<longrightarrow> {sint a - uint KRNL_STACK_SIZE ..< sint a} \<inter> {sint a' - uint KRNL_STACK_SIZE ..< sint a'} = {} \<and>
       {sint b ..< sint b + uint sz} \<inter> {sint b' ..< sint b' + uint sz} = {})"
proof -
  have s: "sint (stack_end t) = - 0x40000000 - 0x400000 * uint t" if "uint t < 128" for t
    using neg_int_word(1) [of "0x40000000 + 0x400000 * uint t"] that by (simp add: stack_end_def)
  have h: "sint (heap_start t) = - 0x80000000 - 0x40000000 * uint t" if "uint t < 128" for t
    using heap_base_eq(2) [OF that] by simp
  have k: "uint KRNL_STACK_SIZE = 0x3FF000" by (simp add: KRNL_STACK_SIZE_def PTE_SIZE_def)
  have ge: "0 \<le> uint m" "0 \<le> uint n" "0 \<le> uint sz" by simp_all
  have sz: "uint sz \<le> 536870912" using assms(3) by simp
  have ends: "- 274877906944 \<le> sint (heap_start m)" "sint (heap_start m) + uint sz \<le> - 1073741824"
    "- 274877906944 \<le> sint (stack_end m) - 0x3FF000" "sint (stack_end m) \<le> - 1073741824"
    "sint (heap_start n) + uint sz \<le> sint (stack_end m) - 0x3FF000"
    unfolding s [OF assms(1)] h [OF assms(1)] h [OF assms(2)] using assms(1,2) ge sz by linarith+
  have apart: "sint (stack_end m) \<le> sint (stack_end n) - 0x3FF000 \<or> sint (stack_end n) \<le> sint (stack_end m) - 0x3FF000"
    "sint (heap_start m) + uint sz \<le> sint (heap_start n) \<or> sint (heap_start n) + uint sz \<le> sint (heap_start m)" if "m \<noteq> n"
  proof -
    have "uint m + 1 \<le> uint n \<or> uint n + 1 \<le> uint m" using that by (auto simp: word_uint_eq_iff)
    then show "sint (stack_end m) \<le> sint (stack_end n) - 0x3FF000 \<or> sint (stack_end n) \<le> sint (stack_end m) - 0x3FF000"
      "sint (heap_start m) + uint sz \<le> sint (heap_start n) \<or> sint (heap_start n) + uint sz \<le> sint (heap_start m)"
      unfolding s [OF assms(1)] s [OF assms(2)] h [OF assms(1)] h [OF assms(2)] using sz by linarith+
  qed
  show ?thesis unfolding stack_acme_eq(1) [OF assms(1)] stack_acme_eq(1) [OF assms(2)] heap_base_eq(1) [OF assms(1)]
      heap_base_eq(1) [OF assms(2)] option.inject k
    using ends apart by (intro exI conjI refl impI) auto
qed

theorem core_regions_disjoint_witness:
  "\<exists>a a' b b'. stack_acme 0 = Some a \<and> stack_acme 127 = Some a' \<and> heap_base 0 = Some b \<and> heap_base 127 = Some b' \<and>
    {sint b ..< sint b + 0x1000000} \<inter> {sint b' ..< sint b' + 0x1000000} = {}"
  using core_regions_disjoint [of 0 127 "0x1000000"] by auto

end
