(* ===== verification/Spec2Isabelle.thy ===== *)
theory Spec2Isabelle
  imports Prelude Utils Llist Talloc_Contract Talloc_Extend Tallock Registers Paging Memm Mapper Mapper_Props Mapper_Setup
    Segmentation Interrupts Bootboot Cfg Framebuffer Terminal Ports Uart Wrappers Sys_Tables Init Init_Heap
    Boot Cores
begin

text \<open>
  Verification development of the tauos kernel: the crates \<^verbatim>\<open>amd64\<close> (processor structures and instructions) and
  \<^verbatim>\<open>kernel\<close> (memory management, output, start).

  \<^bold>\<open>The program.\<close> The BOOTBOOT loader starts every core at \<open>_start\<close> (\<^verbatim>\<open>kernel/src/init.rs\<close>). The first core opens the
  frame buffer, reads the configuration text, takes the free blocks of the memory map and lets \<open>Mapper::setup\<close>
  build new page tables, in which all physical memory is mapped at an offset, and a buddy allocator over the
  physical memory. Every core then loads these tables, maps a stack and a heap through the mapper, builds a buddy
  allocator in the heap and allocates its descriptor tables there. The mapper takes page frames from its buddy
  allocator; the buddy allocator keeps its free blocks on linked lists inside the free memory.

  \<^bold>\<open>Conventions.\<close> \<open>usize\<close>, \<open>isize\<close> and pointers are 64-bit words. A computation that can panic has an option type:
  \<open>None\<close> is a panic, an access that the code leaves undefined, or a loop that does not end. Overflow checks are on, as
  in the \<^verbatim>\<open>dev\<close> profile. Memory behind raw pointers is part of the state: the heap of list nodes, the bytes of the
  bitmap, the entries of the page tables by address, the bytes of blocks and of the frame buffer. Code outside the
  repository is a parameter: the devices behind the ports (\<open>io_bus\<close>), the font, the handlers that the interrupt
  routines call, the addresses that the linker chooses.

  \<^bold>\<open>Theories and sources.\<close>

  \<^item> \<open>Prelude\<close>: machine integers, checked arithmetic, the integer methods of Rust's core library.
  \<^item> \<open>Utils\<close>: \<^verbatim>\<open>kernel/src/utils/mod.rs\<close>. The logarithms are logarithms; \<open>copy_slice_bits\<close> bit by bit, and where it fails.
  \<^item> \<open>Llist\<close>: \<^verbatim>\<open>kernel/src/utils/llist.rs\<close>. Each operation on the circular list implements the one on a list of
    addresses; the iterator visits every node once from either end. The locale \<open>free_list\<close> is what the allocator
    relies on, for a family of disjoint lists.
  \<^item> \<open>Talloc\<close>: \<open>Talloc\<close> of \<^verbatim>\<open>kernel/src/memm/talloc.rs\<close>, definitions only. \<open>Buddy\<close> is the buddy system on sets of
    integer addresses, without words, lists or bitmaps; \<open>Talloc_Inv\<close> the invariant that relates the two;
    \<open>Talloc_Ops\<close>, \<open>Talloc_Release\<close> and \<open>Talloc_New\<close> prove the operations against it; \<open>Talloc_Extend\<close> shows what goes
    wrong when an arena in use is extended.
  \<^item> \<open>Heap_Contract\<close>: the locale \<open>heap_manager\<close>, the contract of an allocator over its set of free bytes, and the state
    machine of its clients. \<open>Talloc_Contract\<close> interprets it and has the theorems on the allocator: live blocks are
    disjoint, no byte is lost, everything can be freed, a request fails only if no aligned range is free.
  \<^item> \<open>Tallock\<close>: the locked allocator with the traits \<open>GlobalAlloc\<close> and \<open>Allocator\<close>, and the bytes in its blocks.
  \<^item> \<open>Registers\<close>: \<^verbatim>\<open>amd64/src/lib.rs\<close>, \<^verbatim>\<open>amd64/src/registers.rs\<close>. \<open>Paging\<close>: \<^verbatim>\<open>amd64/src/paging.rs\<close>, with the processor's page walk
    as the reference for the recursive addresses of table entries.
  \<^item> \<open>Memm\<close>: \<^verbatim>\<open>kernel/src/memm/mod.rs\<close> up to the mapper. \<open>Memm_Map\<close> says what a mapping does to the page walk,
    \<open>Memm_Correct\<close> proves it for every source of frames with the contract \<open>page_source\<close>, \<open>Memm_Span\<close> says which pages a
    span covers. \<open>Mapper\<close>: \<open>Mapper\<close> and \<open>Mapping\<close>, with \<open>page_source\<close> interpreted on the buddy allocator;
    \<open>Mapper_Props\<close>: \<open>Mapper::map\<close> maps every page, except on spans that cross a table unaligned. \<open>Mapper_Setup\<close>:
    \<open>Mapper::setup\<close> with the switch of the tables.
  \<^item> \<open>Segmentation\<close>, \<open>Interrupts\<close>: \<^verbatim>\<open>amd64/src/segmentation.rs\<close>, \<^verbatim>\<open>amd64/src/interrupts.rs\<close>. Descriptors and gates return the
    fields they were built from; insertion into the descriptor table.
  \<^item> \<open>Ports\<close>, \<open>Uart\<close>: \<^verbatim>\<open>amd64/src/ports.rs\<close>, \<^verbatim>\<open>kernel/src/out/uart.rs\<close>. What is written to the ports, and that the output of a
    text ends if the chip goes on transmitting.
  \<^item> \<open>Framebuffer\<close>, \<open>Terminal\<close>: \<^verbatim>\<open>kernel/src/out/framebuffer.rs\<close>, \<^verbatim>\<open>kernel/src/out/terminal.rs\<close>, \<^verbatim>\<open>kernel/src/utils/psf.rs\<close>.
    Drawing stays inside the buffer; a new line scrolls the picture.
  \<^item> \<open>Bootboot\<close>, \<open>Cfg\<close>: \<^verbatim>\<open>kernel/src/bootboot.rs\<close>, \<^verbatim>\<open>kernel/src/cfg.rs\<close>. The probed memory map; the configuration is read back.
  \<^item> \<open>Wrappers\<close>, \<open>Sys_Tables\<close>, \<open>Init\<close>, \<open>Init_Heap\<close>: \<^verbatim>\<open>kernel/src/init.rs\<close> and \<^verbatim>\<open>kernel/src/out/mod.rs\<close>. The assembly routines on a
    model of their instructions, the system tables, the start of a core with its stack, its heap and the handler that
    extends it.
  \<^item> \<open>Boot\<close>: \<open>_start\<close> of the first core as a whole, from the loader's state to the kernel's stack. \<open>Cores\<close>: all cores, whose steps
    interleave. A step of \<open>core_next\<close> is what a core does between two accesses to shared state; \<open>core_run\<close> is the relation of
    runs. The invariant, by rule induction over \<open>core_run\<close>: tickets are distinct, nobody uses the kernel's tables before they
    are stored, and the stacks and heaps of all cores are mapped in one address space to frames of their own.

  \<^bold>\<open>Interfaces.\<close> Clients use components through locales that are interpreted on the model: \<open>free_list\<close> (linked lists for
  the allocator), \<open>heap_manager\<close> (allocator for the mapper, the locked allocator and the heaps) and \<open>page_source\<close>
  (frames for \<open>map_offset\<close>). The lemmas of \<open>Init\<close>, \<open>Init_Heap\<close> and \<open>Boot\<close> join the mapper and the allocator in this way.

  \<^bold>\<open>Loops.\<close> The recursions of the page tables end with the level and the span, the merge loop with the granularity. Loops
  that the code does not bound are \<open>partial_function\<close>s: the waits for memory of \<open>alloc\<close>, the loop of \<open>release\<close>, the polls of
  the serial port. Their theorems show that the result is \<open>Some\<close>. There is no fuel.

  \<^bold>\<open>Bounds.\<close> Arenas are those that the code accepts (64 bytes to \<open>2 ^ 48\<close>), with a base whose offset from a multiple of the
  largest block is less than two smallest blocks, in the canonical address range; layouts are up to \<open>2 ^ 62\<close>; mapped spans
  lie in one half of the address space. The start of a core is shown for tickets below 128, where heaps and stacks fit, and
  that of all cores for up to 128 of them with heaps of at most 512 MiB, which keeps the first heap below the stacks.

  \<^bold>\<open>Not modelled.\<close> Interleaving inside an operation under a lock: each use of the allocator, the mapper and the terminal is one
  step. A core that panics takes no further step, and the locks it may hold are not tracked. Formatting of text, and so the
  \<open>Debug\<close> implementations, the handlers that print a message and halt, and the panic handler. The interrupts that \<open>init\<close> raises as
  a test. The code that is commented out in \<^verbatim>\<open>talloc.rs\<close>, \<^verbatim>\<open>framebuffer.rs\<close> and \<^verbatim>\<open>init.rs\<close>. The files under \<^verbatim>\<open>old\<close>, which no crate contains and
  which call modules that are gone, the empty \<^verbatim>\<open>amd64/src/apic.rs\<close>, and the crate roots. Caching of translations.
\<close>

end
